(* ===== verification/Prelude.thy ===== *)
theory Prelude
  imports Main "HOL-Library.Word" "HOL-Library.Monad_Syntax" "HOL-Library.Sublist" "HOL-Library.AList"
begin

text \<open>
  Shared vocabulary of the development: the Go primitives the repository's
  packages use and the generic lemmas about them.

  \<^item> Go's \<^verbatim>\<open>int\<close> is modelled as \<^typ>\<open>int\<close>; fixed-width integers whose
    truncation the code can observe (\<^verbatim>\<open>uint32\<close> length prefixes, index positions,
    hash values) are words.
  \<^item> An index or slice expression that Go checks at run time is \<open>go_nth\<close>,
    whose value \<^const>\<open>None\<close> is the panic.
  \<^item> A \<^verbatim>\<open>map[int]int\<close> is an optional partial function: \<^const>\<open>None\<close> is the nil
    map, which reads as zero everywhere and panics on assignment.
  \<^item> \<^verbatim>\<open>sort.Search\<close> is the binary search of the standard library.
\<close>

type_synonym byte = "8 word"
type_synonym u32 = "32 word"
type_synonym bytes = "byte list"

named_theorems go_simps \<open>equations of the Go primitives\<close>

subsection \<open>Bounds-checked indexing\<close>

definition go_nth :: "'a list \<Rightarrow> int \<Rightarrow> 'a option" where
  "go_nth xs i = (if 0 \<le> i \<and> i < int (length xs) then Some (xs ! nat i) else None)"

definition go_last :: "'a list \<Rightarrow> 'a option" where
  "go_last xs = go_nth xs (int (length xs) - 1)"

lemma go_nth_of_nat [simp]: "i < length xs \<Longrightarrow> go_nth xs (int i) = Some (xs ! i)"
  by (simp add: go_nth_def)

lemma go_nth_in: "0 \<le> i \<Longrightarrow> i < int (length xs) \<Longrightarrow> go_nth xs i = Some (xs ! nat i)"
  by (simp add: go_nth_def)

lemma go_nth_0 [simp]: "xs \<noteq> [] \<Longrightarrow> go_nth xs 0 = Some (hd xs)"
  by (simp add: go_nth_def hd_conv_nth)

lemma go_nth_Some_iff:
  "go_nth xs i = Some x \<longleftrightarrow> 0 \<le> i \<and> i < int (length xs) \<and> x = xs ! nat i"
  by (auto simp: go_nth_def)

lemma go_nth_None_iff: "go_nth xs i = None \<longleftrightarrow> i < 0 \<or> int (length xs) \<le> i"
  by (auto simp: go_nth_def)

lemma go_last_nonempty [simp]: "xs \<noteq> [] \<Longrightarrow> go_last xs = Some (last xs)"
  by (cases xs) (auto simp: go_last_def go_nth_def last_conv_nth nat_diff_distrib)

lemma go_last_Nil [simp]: "go_last [] = None"
  by (simp add: go_last_def go_nth_def)

subsection \<open>Integer-keyed Go maps\<close>

type_synonym gomap = "(int \<rightharpoonup> int) option"

definition gomap_get :: "gomap \<Rightarrow> int \<Rightarrow> int" where
  "gomap_get m k = (case m of None \<Rightarrow> 0 | Some f \<Rightarrow> (case f k of None \<Rightarrow> 0 | Some v \<Rightarrow> v))"

definition gomap_put :: "gomap \<Rightarrow> int \<Rightarrow> int \<Rightarrow> gomap option" where
  "gomap_put m k v = (case m of None \<Rightarrow> None | Some f \<Rightarrow> Some (Some (f(k \<mapsto> v))))"

lemma gomap_put_Some [simp]: "gomap_put (Some f) k v = Some (Some (f(k \<mapsto> v)))"
  by (simp add: gomap_put_def)

lemma gomap_put_None_iff [simp]: "gomap_put m k v = None \<longleftrightarrow> m = None"
  by (simp add: gomap_put_def split: option.splits)

lemma gomap_get_put:
  "gomap_put m k v = Some m' \<Longrightarrow> gomap_get m' j = (if j = k then v else gomap_get m j)"
  by (auto simp: gomap_put_def gomap_get_def split: option.splits)

lemma gomap_get_upd [simp]:
  "gomap_get (Some (f(k \<mapsto> v))) j = (if j = k then v else gomap_get (Some f) j)"
  by (simp add: gomap_get_def)

subsection \<open>Binary search\<close>

text \<open>
  \<^verbatim>\<open>sort.Search(n, f)\<close>: the loop \<^verbatim>\<open>for i < j\<close> of the standard library with
  \<^verbatim>\<open>h := int(uint(i+j) >> 1)\<close>.
\<close>

function search_loop :: "(nat \<Rightarrow> bool) \<Rightarrow> nat \<Rightarrow> nat \<Rightarrow> nat" where
  "search_loop f i j =
     (if i < j then
        (let h = (i + j) div 2 in
         if \<not> f h then search_loop f (h + 1) j else search_loop f i h)
      else i)"
  by pat_completeness auto
termination
  by (relation "measure (\<lambda>(f, i, j). j - i)") auto

declare search_loop.simps [simp del]

definition sort_Search :: "nat \<Rightarrow> (nat \<Rightarrow> bool) \<Rightarrow> nat" where
  "sort_Search n f = search_loop f 0 n"

lemma search_loop_step:
  "i < j \<Longrightarrow> f ((i + j) div 2) \<Longrightarrow> search_loop f i j = search_loop f i ((i + j) div 2)"
  "i < j \<Longrightarrow> \<not> f ((i + j) div 2) \<Longrightarrow> search_loop f i j = search_loop f (Suc ((i + j) div 2)) j"
  "\<not> i < j \<Longrightarrow> search_loop f i j = i"
  by (subst search_loop.simps, simp add: Let_def)+

lemma search_loop_least:
  assumes mono: "\<forall>k l. k \<le> l \<longrightarrow> l < n \<longrightarrow> f k \<longrightarrow> f l"
    and "i \<le> j" and "j \<le> n"
    and "\<forall>k < i. \<not> f k" and "\<forall>k. j \<le> k \<longrightarrow> k < n \<longrightarrow> f k"
  shows "search_loop f i j \<le> n \<and> (\<forall>k < search_loop f i j. \<not> f k)
    \<and> (\<forall>k. search_loop f i j \<le> k \<longrightarrow> k < n \<longrightarrow> f k)"
  using assms(2-5)
proof (induction "j - i" arbitrary: i j rule: less_induct)
  case less
  let ?h = "(i + j) div 2"
  consider (stop) "\<not> i < j" | (low) "i < j" "f ?h" | (high) "i < j" "\<not> f ?h"
    by blast
  then show ?case
  proof cases
    case stop
    with less.prems show ?thesis by (simp add: search_loop_step)
  next
    case low
    have "\<forall>k. ?h \<le> k \<longrightarrow> k < n \<longrightarrow> f k" using mono low by blast
    moreover have "?h - i < j - i" "i \<le> ?h" "?h \<le> n" using low less.prems by auto
    ultimately show ?thesis
      unfolding search_loop_step(1)[of i j f, OF low] using less.prems(3)
      by (intro less.hyps) auto
  next
    case high
    have "?h < n" using high less.prems by auto
    then have "\<forall>k < Suc ?h. \<not> f k" using mono high by (meson less_Suc_eq_le)
    moreover have "j - Suc ?h < j - i" "Suc ?h \<le> j" using high by auto
    ultimately show ?thesis
      unfolding search_loop_step(2)[of i j f, OF high] using less.prems
      by (intro less.hyps) auto
  qed
qed

lemma sort_Search_least:
  assumes "\<And>k l. k \<le> l \<Longrightarrow> l < n \<Longrightarrow> f k \<Longrightarrow> f l"
  shows "sort_Search n f \<le> n"
    and "k < sort_Search n f \<Longrightarrow> \<not> f k"
    and "sort_Search n f \<le> k \<Longrightarrow> k < n \<Longrightarrow> f k"
  using search_loop_least [of n f 0 n] assms by (auto simp: sort_Search_def)

lemma sort_Search_eqI:
  assumes "\<And>k l. k \<le> l \<Longrightarrow> l < n \<Longrightarrow> f k \<Longrightarrow> f l"
    and "m \<le> n" and "\<And>k. k < m \<Longrightarrow> \<not> f k" and "m < n \<Longrightarrow> f m"
  shows "sort_Search n f = m"
proof (rule ccontr)
  assume "sort_Search n f \<noteq> m"
  then consider "sort_Search n f < m" | "m < sort_Search n f" by linarith
  then show False
  proof cases
    case 1
    then show False
      using sort_Search_least(3)[of n f "sort_Search n f"] assms by auto
  next
    case 2
    then show False
      using sort_Search_least(1,2)[of n f] assms by (meson le_trans not_le)
  qed
qed

subsection \<open>Lists\<close>

lemma prefix_iff_take: "prefix xs ys \<longleftrightarrow> xs = take (length xs) ys"
  by (metis append_eq_conv_conj prefixE prefixI take_is_prefix)

lemma prefix_nth: "prefix xs ys \<Longrightarrow> i < length xs \<Longrightarrow> xs ! i = ys ! i"
  by (auto simp: prefix_def nth_append)

lemma prefix_take_mono: "prefix xs ys \<Longrightarrow> n \<le> length xs \<Longrightarrow> take n xs = take n ys"
  by (auto simp: prefix_def)

lemma take_Suc_eq_iff:
  "i < length xs \<Longrightarrow> i < length ys \<Longrightarrow>
     take (Suc i) xs = take (Suc i) ys \<longleftrightarrow> take i xs = take i ys \<and> xs ! i = ys ! i"
  by (auto simp: take_Suc_conv_app_nth)

lemma take_eq_nth: "take n xs = take n ys \<Longrightarrow> i < n \<Longrightarrow> i < length xs \<Longrightarrow> xs ! i = ys ! i"
  by (metis nth_take)

lemma take_eq_take_le: "take n xs = take n ys \<Longrightarrow> m \<le> n \<Longrightarrow> take m xs = take m ys"
  by (metis min.absorb1 take_take)

lemma take_eq_length: "take n xs = take n ys \<Longrightarrow> n \<le> length xs \<Longrightarrow> n \<le> length ys"
  by (metis length_take min.absorb2 min.cobounded1)

subsection \<open>Go maps\<close>

text \<open>\<^verbatim>\<open>m[k]\<close> of a Go map: the zero value where the key is missing.\<close>

definition gm_get :: "'z \<Rightarrow> ('k \<times> 'z) list \<Rightarrow> 'k \<Rightarrow> 'z" where
  "gm_get z m k = (case map_of m k of None \<Rightarrow> z | Some v \<Rightarrow> v)"

lemma gm_get_update [simp]: "gm_get z (AList.update k v m) k' = (if k' = k then v else gm_get z m k')"
  by (simp add: gm_get_def update_conv')

lemma gm_get_map:
  assumes "f z = z" "distinct (map fst m)"
  shows "gm_get z (map (\<lambda>(k, v). (k, f v)) m) k = f (gm_get z m k)"
  using assms(1) by (simp add: gm_get_def map_of_map split: option.splits)

end
