(* ===== verification/Raft_Node.thy ===== *)
theory Raft_Node
  imports Prelude
begin

text \<open>
  One Raft server: \<^verbatim>\<open>raft/raft.go\<close>, \<^verbatim>\<open>raft/rpc_vote.go\<close> and \<^verbatim>\<open>raft/rpc_append.go\<close>.

  Every definition is one critical section of the code, that is the statements
  between \<^verbatim>\<open>rf.mu.Lock()\<close> and \<^verbatim>\<open>rf.mu.Unlock()\<close>, as a function on the
  server's record. The value \<^const>\<open>None\<close> is a run-time panic (an index out of
  range, an assignment to a nil map). A handler that draws election timeouts takes
  one \<open>draw\<close> per call of \<^verbatim>\<open>resetElectionTimer\<close>: the clock reading and the raw
  random number. \<^verbatim>\<open>Command\<close> is an interface value: \<^const>\<open>None\<close> is nil, the
  no-op a new leader appends.
\<close>

subsection \<open>Data\<close>

datatype raft_state = Follower | Candidate | Leader

record 'c LogEntry =
  leTerm :: int
  leIndex :: int
  leCommand :: "'c option"

type_synonym 'c rlog = "'c LogEntry list"

record 'c ApplyMsg =
  amCommandValid :: bool
  amCommand :: "'c option"
  amCommandIndex :: int

record 'c Raft =
  me :: int
  peers :: "int list"
  currentTerm :: int
  votedFor :: int
  rlog :: "'c rlog"
  rstate :: raft_state
  commitIndex :: int
  lastApplied :: int
  nextIndex :: gomap
  matchIndex :: gomap
  electionDeadline :: int
  killed :: bool

record RequestVoteArgs =
  rvTerm :: int
  rvCandidateId :: int
  rvLastLogIndex :: int
  rvLastLogTerm :: int

record RequestVoteReply =
  rvrTerm :: int
  rvrVoteGranted :: bool

record 'c AppendEntriesArgs =
  aeTerm :: int
  aeLeaderId :: int
  aePrevLogIndex :: int
  aePrevLogTerm :: int
  aeEntries :: "'c rlog"
  aeLeaderCommit :: int

record AppendEntriesReply =
  aerTerm :: int
  aerSuccess :: bool
  aerConflictIndex :: int
  aerConflictTerm :: int

subsection \<open>Timers, construction and accessors\<close>

text \<open>Durations are nanoseconds, as \<^verbatim>\<open>time.Duration\<close> is.\<close>

type_synonym draw = "int \<times> int"

definition heartbeatInterval :: int where
  "heartbeatInterval = 50 * 1000000"

definition electionTimeoutMin :: int where
  "electionTimeoutMin = 300 * 1000000"

definition electionTimeoutMax :: int where
  "electionTimeoutMax = 600 * 1000000"

definition randElectionTimeout :: "int \<Rightarrow> int" where
  "randElectionTimeout raw =
     (let span = electionTimeoutMax - electionTimeoutMin in electionTimeoutMin + raw mod span)"

definition resetElectionTimer :: "draw \<Rightarrow> 'c Raft \<Rightarrow> 'c Raft" where
  "resetElectionTimer d rf = rf\<lparr>electionDeadline := fst d + randElectionTimeout (snd d)\<rparr>"

definition newRaft :: "draw \<Rightarrow> int \<Rightarrow> int list \<Rightarrow> 'c Raft" where
  "newRaft d self ps = resetElectionTimer d
     \<lparr>me = self, peers = ps, currentTerm = 0, votedFor = -1,
      rlog = [\<lparr>leTerm = 0, leIndex = 0, leCommand = None\<rparr>],
      rstate = Follower, commitIndex = 0, lastApplied = 0,
      nextIndex = None, matchIndex = None, electionDeadline = 0, killed = False\<rparr>"

definition Kill :: "'c Raft \<Rightarrow> 'c Raft" where
  "Kill rf = rf\<lparr>killed := True\<rparr>"

definition isKilled :: "'c Raft \<Rightarrow> bool" where
  "isKilled rf = killed rf"

definition GetState :: "'c Raft \<Rightarrow> int \<times> bool" where
  "GetState rf = (currentTerm rf, rstate rf = Leader)"

definition lastLogInfo :: "'c Raft \<Rightarrow> (int \<times> int) option" where
  "lastLogInfo rf = map_option (\<lambda>e. (leIndex e, leTerm e)) (go_last (rlog rf))"

definition majority :: "'c Raft \<Rightarrow> int" where
  "majority rf = int (length (peers rf)) div 2 + 1"

subsection \<open>Elections\<close>

text \<open>The poll of \<^verbatim>\<open>electionTicker\<close>: whether this iteration calls \<^verbatim>\<open>startElection\<close>.\<close>

definition electionTicker :: "int \<Rightarrow> 'c Raft \<Rightarrow> bool" where
  "electionTicker now rf =
     (let expired = now > electionDeadline rf; isLeader = (rstate rf = Leader)
      in \<not> isLeader \<and> expired)"

definition becomeFollower :: "draw \<Rightarrow> int \<Rightarrow> 'c Raft \<Rightarrow> 'c Raft" where
  "becomeFollower d term rf =
     resetElectionTimer d (rf\<lparr>rstate := Follower, currentTerm := term, votedFor := -1\<rparr>)"

text \<open>
  \<^verbatim>\<open>becomeLeader\<close> rebuilds both maps for every peer, appends the no-op of the new
  term and records it as matched by the leader itself.
\<close>

definition becomeLeader :: "'c Raft \<Rightarrow> 'c Raft option" where
  "becomeLeader rf = do {
     last \<leftarrow> go_last (rlog rf);
     let lastIndex = leIndex last;
     let nexts = foldl (\<lambda>m p. m(p \<mapsto> lastIndex + 1)) Map.empty (peers rf);
     let matches = foldl (\<lambda>m p. m(p \<mapsto> 0)) Map.empty (peers rf);
     let noopIndex = lastIndex + 1;
     Some (rf\<lparr>rstate := Leader, nextIndex := Some nexts,
       rlog := rlog rf @ [\<lparr>leTerm = currentTerm rf, leIndex = noopIndex, leCommand = None\<rparr>],
       matchIndex := Some (matches(me rf \<mapsto> noopIndex))\<rparr>)
   }"

text \<open>
  \<^verbatim>\<open>startElection\<close> up to the goroutines it spawns: the new state and the request
  each goroutine sends. The shared counter \<^verbatim>\<open>votes\<close> starts at 1.
\<close>

definition startElection ::
  "draw \<Rightarrow> 'c Raft \<Rightarrow> ('c Raft \<times> (int \<times> RequestVoteArgs) list) option" where
  "startElection d rf = do {
     let rf1 = resetElectionTimer d
       (rf\<lparr>rstate := Candidate, currentTerm := currentTerm rf + 1, votedFor := me rf\<rparr>);
     let term = currentTerm rf1;
     (lastLogIndex, lastLogTerm) \<leftarrow> lastLogInfo rf1;
     let args = \<lparr>rvTerm = term, rvCandidateId = me rf1,
       rvLastLogIndex = lastLogIndex, rvLastLogTerm = lastLogTerm\<rparr>;
     Some (rf1, map (\<lambda>p. (p, args)) (filter (\<lambda>p. p \<noteq> me rf1) (peers rf1)))
   }"

text \<open>The critical section of a vote goroutine after its call returned \<^verbatim>\<open>ok\<close>.\<close>

definition handleVoteReply ::
  "draw \<Rightarrow> int \<Rightarrow> RequestVoteReply \<Rightarrow> int \<Rightarrow> 'c Raft \<Rightarrow> ('c Raft \<times> int) option" where
  "handleVoteReply d term reply votes rf =
     (if rvrTerm reply > currentTerm rf then Some (becomeFollower d (rvrTerm reply) rf, votes)
      else if rstate rf \<noteq> Candidate \<or> currentTerm rf \<noteq> term then Some (rf, votes)
      else if rvrVoteGranted reply then
        (let count = votes + 1 in
         if count \<ge> majority rf \<and> rstate rf = Candidate
         then map_option (\<lambda>rf'. (rf', count)) (becomeLeader rf)
         else Some (rf, count))
      else Some (rf, votes))"

definition RequestVote ::
  "draw \<Rightarrow> draw \<Rightarrow> RequestVoteArgs \<Rightarrow> 'c Raft \<Rightarrow> ('c Raft \<times> RequestVoteReply) option" where
  "RequestVote d1 d2 args rf =
     (let rf1 = (if rvTerm args > currentTerm rf then becomeFollower d1 (rvTerm args) rf else rf)
      in if rvTerm args < currentTerm rf1
         then Some (rf1, \<lparr>rvrTerm = currentTerm rf1, rvrVoteGranted = False\<rparr>)
         else do {
           (lastIndex, lastTerm) \<leftarrow> lastLogInfo rf1;
           let logOK = (rvLastLogTerm args > lastTerm \<or>
             (rvLastLogTerm args = lastTerm \<and> rvLastLogIndex args \<ge> lastIndex));
           let canVote = (votedFor rf1 = -1 \<or> votedFor rf1 = rvCandidateId args);
           if canVote \<and> logOK
           then Some (resetElectionTimer d2 (rf1\<lparr>votedFor := rvCandidateId args\<rparr>),
                      \<lparr>rvrTerm = currentTerm rf1, rvrVoteGranted = True\<rparr>)
           else Some (rf1, \<lparr>rvrTerm = currentTerm rf1, rvrVoteGranted = False\<rparr>)
         })"

subsection \<open>Log replication\<close>

text \<open>The backward scan \<^verbatim>\<open>for idx > 0 && rf.log[idx-1].Term == conflictTerm\<close>.\<close>

fun conflictLoop :: "'c rlog \<Rightarrow> int \<Rightarrow> nat \<Rightarrow> nat" where
  "conflictLoop xs t 0 = 0"
| "conflictLoop xs t (Suc i) = (if leTerm (xs ! i) = t then conflictLoop xs t i else Suc i)"

text \<open>The first loop over the entries: truncate at the first entry of another term.\<close>

fun truncLoop :: "'c rlog \<Rightarrow> int \<Rightarrow> 'c rlog \<Rightarrow> 'c rlog option" where
  "truncLoop xs idx [] = Some xs"
| "truncLoop xs idx (e # es) = do {
     l \<leftarrow> go_last xs;
     if idx \<le> leIndex l
     then do {
       x \<leftarrow> go_nth xs idx;
       if leTerm x \<noteq> leTerm e then Some (take (nat idx) xs) else truncLoop xs (idx + 1) es
     }
     else truncLoop xs (idx + 1) es
   }"

text \<open>The second loop: append every entry beyond the end of the log.\<close>

fun appendLoop :: "'c rlog \<Rightarrow> int \<Rightarrow> 'c rlog \<Rightarrow> 'c rlog option" where
  "appendLoop xs idx [] = Some xs"
| "appendLoop xs idx (e # es) = do {
     l \<leftarrow> go_last xs;
     appendLoop (if idx > leIndex l then xs @ [e] else xs) (idx + 1) es
   }"

text \<open>
  The part of \<^verbatim>\<open>AppendEntries\<close> that runs once the term is current: the consistency
  check with its conflict hints, the two loops and the commit index.
\<close>

definition appendLog ::
  "'c AppendEntriesArgs \<Rightarrow> 'c Raft \<Rightarrow> ('c Raft \<times> AppendEntriesReply) option" where
  "appendLog args rf = do {
     l \<leftarrow> go_last (rlog rf);
     let lastIndex = leIndex l;
     if aePrevLogIndex args > lastIndex
     then Some (rf, \<lparr>aerTerm = currentTerm rf, aerSuccess = False,
                     aerConflictIndex = lastIndex + 1, aerConflictTerm = -1\<rparr>)
     else do {
       p \<leftarrow> go_nth (rlog rf) (aePrevLogIndex args);
       if leTerm p \<noteq> aePrevLogTerm args
       then Some (rf, \<lparr>aerTerm = currentTerm rf, aerSuccess = False,
              aerConflictIndex =
                int (conflictLoop (rlog rf) (leTerm p) (nat (aePrevLogIndex args))),
              aerConflictTerm = leTerm p\<rparr>)
       else do {
         let insertAt = aePrevLogIndex args + 1;
         xs \<leftarrow> truncLoop (rlog rf) insertAt (aeEntries args);
         ys \<leftarrow> appendLoop xs insertAt (aeEntries args);
         l2 \<leftarrow> go_last ys;
         let lastNewIndex = leIndex l2;
         let ci = (if aeLeaderCommit args > commitIndex rf
                   then (if aeLeaderCommit args < lastNewIndex
                         then aeLeaderCommit args else lastNewIndex)
                   else commitIndex rf);
         Some (rf\<lparr>rlog := ys, commitIndex := ci\<rparr>,
               \<lparr>aerTerm = currentTerm rf, aerSuccess = True,
                aerConflictIndex = 0, aerConflictTerm = 0\<rparr>)
       }
     }
   }"

definition AppendEntries ::
  "draw \<Rightarrow> draw \<Rightarrow> 'c AppendEntriesArgs \<Rightarrow> 'c Raft \<Rightarrow> ('c Raft \<times> AppendEntriesReply) option"
where
  "AppendEntries d1 d2 args rf =
     (let rf1 = (if aeTerm args > currentTerm rf then becomeFollower d1 (aeTerm args) rf else rf)
      in if aeTerm args < currentTerm rf1
         then Some (rf1, \<lparr>aerTerm = currentTerm rf1, aerSuccess = False,
                          aerConflictIndex = 0, aerConflictTerm = 0\<rparr>)
         else appendLog args (resetElectionTimer d2 (rf1\<lparr>rstate := Follower\<rparr>)))"

definition broadcastAppendEntries :: "'c Raft \<Rightarrow> int list" where
  "broadcastAppendEntries rf = filter (\<lambda>p. p \<noteq> me rf) (peers rf)"

text \<open>
  One iteration of \<^verbatim>\<open>leaderHeartbeatLoop(term)\<close>: \<^const>\<open>None\<close> when the loop returns,
  otherwise the peers it broadcasts to.
\<close>

definition leaderHeartbeatLoop :: "int \<Rightarrow> 'c Raft \<Rightarrow> int list option" where
  "leaderHeartbeatLoop term rf =
     (if isKilled rf then None
      else if rstate rf \<noteq> Leader \<or> currentTerm rf \<noteq> term then None
      else Some (broadcastAppendEntries rf))"

text \<open>
  The first critical section of \<^verbatim>\<open>sendAppendEntriesTo\<close>: the request to send, or
  \<open>Some None\<close> when the server no longer leads the term.
\<close>

definition sendAppendEntriesTo ::
  "int \<Rightarrow> int \<Rightarrow> 'c Raft \<Rightarrow> 'c AppendEntriesArgs option option" where
  "sendAppendEntriesTo peer term rf =
     (if rstate rf \<noteq> Leader \<or> currentTerm rf \<noteq> term then Some None
      else do {
        let next = gomap_get (nextIndex rf) peer;
        let prevLogIndex = (if next - 1 < 0 then 0 else next - 1);
        p \<leftarrow> go_nth (rlog rf) prevLogIndex;
        l \<leftarrow> go_last (rlog rf);
        entries \<leftarrow> (if next \<le> leIndex l
                    then (if 0 \<le> next \<and> next \<le> int (length (rlog rf))
                          then Some (drop (nat next) (rlog rf)) else None)
                    else Some []);
        Some (Some \<lparr>aeTerm = term, aeLeaderId = me rf, aePrevLogIndex = prevLogIndex,
          aePrevLogTerm = leTerm p, aeEntries = entries, aeLeaderCommit = commitIndex rf\<rparr>)
      })"

text \<open>The replicas of index \<open>n\<close>, the leader itself counted once.\<close>

definition replicaCount :: "'c Raft \<Rightarrow> int \<Rightarrow> int" where
  "replicaCount rf n =
     1 + int (length (filter (\<lambda>p. p \<noteq> me rf \<and> gomap_get (matchIndex rf) p \<ge> n) (peers rf)))"

function advanceLoop :: "'c Raft \<Rightarrow> int \<Rightarrow> int option" where
  "advanceLoop rf n =
     (if n > commitIndex rf then
        (case go_nth (rlog rf) n of
           None \<Rightarrow> None
         | Some e \<Rightarrow>
             if leTerm e \<noteq> currentTerm rf then advanceLoop rf (n - 1)
             else if replicaCount rf n \<ge> majority rf then Some n
             else advanceLoop rf (n - 1))
      else Some (commitIndex rf))"
  by pat_completeness auto
termination
  by (relation "measure (\<lambda>(rf, n). nat (n - commitIndex rf))") auto

declare advanceLoop.simps [simp del]

definition advanceCommitIndex :: "'c Raft \<Rightarrow> 'c Raft option" where
  "advanceCommitIndex rf = do {
     l \<leftarrow> go_last (rlog rf);
     n \<leftarrow> advanceLoop rf (leIndex l);
     Some (rf\<lparr>commitIndex := n\<rparr>)
   }"

text \<open>The scan for the last index of the conflicting term; \<open>-1\<close> when there is none.\<close>

fun lastIdxLoop :: "'c rlog \<Rightarrow> int \<Rightarrow> nat \<Rightarrow> int" where
  "lastIdxLoop xs t 0 = -1"
| "lastIdxLoop xs t (Suc i) = (if leTerm (xs ! i) = t then int i else lastIdxLoop xs t i)"

text \<open>The second critical section of \<^verbatim>\<open>sendAppendEntriesTo\<close>, after the call returned \<^verbatim>\<open>ok\<close>.\<close>

definition handleAppendReply ::
  "draw \<Rightarrow> int \<Rightarrow> 'c AppendEntriesArgs \<Rightarrow> AppendEntriesReply \<Rightarrow> 'c Raft \<Rightarrow> 'c Raft option"
where
  "handleAppendReply d peer args reply rf =
     (if aerTerm reply > currentTerm rf then Some (becomeFollower d (aerTerm reply) rf)
      else if rstate rf \<noteq> Leader \<or> currentTerm rf \<noteq> aeTerm args then Some rf
      else if aerSuccess reply then do {
        let newMatch = aePrevLogIndex args + int (length (aeEntries args));
        mi \<leftarrow> (if newMatch > gomap_get (matchIndex rf) peer
               then gomap_put (matchIndex rf) peer newMatch else Some (matchIndex rf));
        ni \<leftarrow> gomap_put (nextIndex rf) peer (newMatch + 1);
        advanceCommitIndex (rf\<lparr>matchIndex := mi, nextIndex := ni\<rparr>)
      }
      else if aerConflictTerm reply = -1 then do {
        ni \<leftarrow> gomap_put (nextIndex rf) peer (aerConflictIndex reply);
        Some (rf\<lparr>nextIndex := ni\<rparr>)
      }
      else do {
        let lastIdxOfTerm = lastIdxLoop (rlog rf) (aerConflictTerm reply) (length (rlog rf));
        ni \<leftarrow> gomap_put (nextIndex rf) peer
               (if lastIdxOfTerm \<ge> 0 then lastIdxOfTerm + 1 else aerConflictIndex reply);
        Some (rf\<lparr>nextIndex := ni\<rparr>)
      })"

text \<open>\<^verbatim>\<open>Start\<close>: the new state and the triple \<^verbatim>\<open>(index, term, isLeader)\<close> it returns.\<close>

definition Start :: "'c \<Rightarrow> 'c Raft \<Rightarrow> ('c Raft \<times> int \<times> int \<times> bool) option" where
  "Start command rf =
     (if rstate rf \<noteq> Leader then Some (rf, -1, currentTerm rf, False)
      else do {
        l \<leftarrow> go_last (rlog rf);
        let index = leIndex l + 1;
        let term = currentTerm rf;
        mi \<leftarrow> gomap_put (matchIndex rf) (me rf) index;
        Some (rf\<lparr>rlog := rlog rf @ [\<lparr>leTerm = term, leIndex = index, leCommand = Some command\<rparr>],
                 matchIndex := mi\<rparr>, index, term, True)
      })"

subsection \<open>Applying committed entries\<close>

text \<open>The locked loop of one \<^verbatim>\<open>applyTicker\<close> iteration and the messages it sends, in order.\<close>

function applyTicker :: "'c Raft \<Rightarrow> ('c Raft \<times> 'c ApplyMsg list) option" where
  "applyTicker rf =
     (if lastApplied rf < commitIndex rf then
        (let rf1 = rf\<lparr>lastApplied := lastApplied rf + 1\<rparr> in
         case go_nth (rlog rf1) (lastApplied rf1) of
           None \<Rightarrow> None
         | Some entry \<Rightarrow>
             (case leCommand entry of
                None \<Rightarrow> applyTicker rf1
              | Some c \<Rightarrow> map_option
                  (\<lambda>(rf2, msgs). (rf2, \<lparr>amCommandValid = True, amCommand = Some c,
                                        amCommandIndex = leIndex entry\<rparr> # msgs))
                  (applyTicker rf1)))
      else Some (rf, []))"
  by pat_completeness auto
termination
  by (relation "measure (\<lambda>rf. nat (commitIndex rf - lastApplied rf))") auto

declare applyTicker.simps [simp del]

end
