(* ===== verification/Raft_Protocol.thy ===== *)
theory Raft_Protocol
  imports Raft_Node
begin

text \<open>
  The abstract Raft protocol: the specification the servers of
  \<^verbatim>\<open>raft/\<close> implement. Its state keeps, beside each server's term, log and commit
  index, the history a safety argument speaks about: who voted for whom and with
  which log, the log each candidate stood with, the leader and the leader's log of
  every term, and which server held which prefix of it. Every step changes one
  server by one elementary action. The theory proves log matching, leader
  completeness and state machine safety of the protocol; the simulation of the
  concrete servers is in \<open>Raft_Refinement\<close>.
\<close>

subsection \<open>Quorums\<close>

locale quorum_system =
  fixes is_quorum :: "'a set \<Rightarrow> bool"
  assumes quorum_intersect: "is_quorum Q \<Longrightarrow> is_quorum Q' \<Longrightarrow> \<exists>v. v \<in> Q \<and> v \<in> Q'"
begin

lemma quorum_nonempty: "is_quorum Q \<Longrightarrow> Q \<noteq> {}"
  using quorum_intersect [of Q Q] by blast

lemma quorum_agree:
  assumes "is_quorum Q" "is_quorum Q'"
    and "\<And>v. v \<in> Q \<Longrightarrow> f v = Some x" "\<And>v. v \<in> Q' \<Longrightarrow> f v = Some y"
  shows "x = y"
proof -
  obtain v where "v \<in> Q" "v \<in> Q'" using quorum_intersect assms(1,2) by blast
  then show ?thesis using assms(3,4)[of v] by simp
qed

end

definition quorum :: "int set \<Rightarrow> int set \<Rightarrow> bool" where
  "quorum S Q \<longleftrightarrow> finite S \<and> Q \<subseteq> S \<and> card S < 2 * card Q"

interpretation maj: quorum_system "quorum S" for S
proof
  fix Q Q' assume q: "quorum S Q" "quorum S Q'"
  show "\<exists>v. v \<in> Q \<and> v \<in> Q'"
  proof (rule ccontr)
    assume "\<not> (\<exists>v. v \<in> Q \<and> v \<in> Q')"
    then have "card (Q \<union> Q') = card Q + card Q'"
      using q by (intro card_Un_disjoint) (auto simp: quorum_def intro: finite_subset)
    moreover have "card (Q \<union> Q') \<le> card S"
      using q by (intro card_mono) (auto simp: quorum_def)
    ultimately show False using q by (simp add: quorum_def)
  qed
qed

subsection \<open>State and steps\<close>

record 'c pstate =
  pTerm :: "int \<Rightarrow> int"
  pLog :: "int \<Rightarrow> 'c rlog"
  pVote :: "int \<Rightarrow> int \<Rightarrow> (int \<times> 'c rlog) option"
  pCand :: "int \<Rightarrow> int \<Rightarrow> 'c rlog option"
  pGrant :: "int \<Rightarrow> int \<Rightarrow> int set"
  pLead :: "int \<Rightarrow> int option"
  pElect :: "int \<Rightarrow> int set"
  pLLog :: "int \<Rightarrow> 'c rlog"
  pAck :: "(int \<times> int \<times> nat) set"
  pCommit :: "int \<Rightarrow> nat"

definition sentinel :: "'c LogEntry" where
  "sentinel = \<lparr>leTerm = 0, leIndex = 0, leCommand = None\<rparr>"

definition pinit :: "'c pstate" where
  "pinit = \<lparr>pTerm = (\<lambda>_. 0), pLog = (\<lambda>_. [sentinel]),
     pVote = (\<lambda>_ _. None), pCand = (\<lambda>_ _. None), pGrant = (\<lambda>_ _. {}),
     pLead = (\<lambda>_. None), pElect = (\<lambda>_. {}), pLLog = (\<lambda>_. []), pAck = {}, pCommit = (\<lambda>_. 0)\<rparr>"

definition wf_log :: "'c rlog \<Rightarrow> bool" where
  "wf_log xs \<longleftrightarrow> xs \<noteq> [] \<and> xs ! 0 = sentinel
     \<and> (\<forall>i < length xs. leIndex (xs ! i) = int i)
     \<and> (\<forall>i < length xs. 0 < i \<longrightarrow> 0 < leTerm (xs ! i))"

definition uptodate :: "'c rlog \<Rightarrow> 'c rlog \<Rightarrow> bool" where
  "uptodate cl vl \<longleftrightarrow> leTerm (last vl) < leTerm (last cl)
     \<or> leTerm (last vl) = leTerm (last cl) \<and> length vl \<le> length cl"

text \<open>The entry of term \<open>t\<close> at index \<open>i\<close> is held by a quorum of servers while in term \<open>t\<close>.\<close>

definition chosen :: "int set \<Rightarrow> 'c pstate \<Rightarrow> int \<Rightarrow> nat \<Rightarrow> bool" where
  "chosen S a t i \<longleftrightarrow> pLead a t \<noteq> None \<and> i < length (pLLog a t) \<and> leTerm (pLLog a t ! i) = t
     \<and> (\<exists>Q. quorum S Q \<and> (\<forall>n \<in> Q. \<exists>m \<ge> i. (n, t, m) \<in> pAck a))"

inductive pstep :: "int set \<Rightarrow> 'c pstate \<Rightarrow> 'c pstate \<Rightarrow> bool" for S where
  bump: "n \<in> S \<Longrightarrow> pTerm a n < t \<Longrightarrow> pstep S a (a\<lparr>pTerm := (pTerm a)(n := t)\<rparr>)"
| elect: "n \<in> S \<Longrightarrow> t = pTerm a n + 1 \<Longrightarrow>
    pstep S a (a\<lparr>pTerm := (pTerm a)(n := t),
      pVote := (pVote a)(n := (pVote a n)(t \<mapsto> (n, pLog a n))),
      pCand := (pCand a)(n := (pCand a n)(t \<mapsto> pLog a n)),
      pGrant := (pGrant a)(n := (pGrant a n)(t := {n}))\<rparr>)"
| vote: "v \<in> S \<Longrightarrow> t = pTerm a v \<Longrightarrow> pVote a v t = None \<Longrightarrow> pCand a c t = Some cl \<Longrightarrow>
    uptodate cl (pLog a v) \<Longrightarrow>
    pstep S a (a\<lparr>pVote := (pVote a)(v := (pVote a v)(t \<mapsto> (c, pLog a v)))\<rparr>)"
| grant: "pVote a v t = Some (c, vl) \<Longrightarrow>
    pstep S a (a\<lparr>pGrant := (pGrant a)(c := (pGrant a c)(t := insert v (pGrant a c t)))\<rparr>)"
| lead: "c \<in> S \<Longrightarrow> t = pTerm a c \<Longrightarrow> pLead a t = None \<Longrightarrow> pCand a c t = Some (pLog a c) \<Longrightarrow>
    quorum S (pGrant a c t) \<Longrightarrow> leTerm e = t \<Longrightarrow> leIndex e = int (length (pLog a c)) \<Longrightarrow>
    pstep S a (a\<lparr>pLead := (pLead a)(t \<mapsto> c), pElect := (pElect a)(t := pGrant a c t),
      pLLog := (pLLog a)(t := pLog a c @ [e]), pLog := (pLog a)(c := pLog a c @ [e])\<rparr>)"
| client: "c \<in> S \<Longrightarrow> t = pTerm a c \<Longrightarrow> pLead a t = Some c \<Longrightarrow>
    leTerm e = t \<Longrightarrow> leIndex e = int (length (pLog a c)) \<Longrightarrow>
    pstep S a (a\<lparr>pLLog := (pLLog a)(t := pLog a c @ [e]), pLog := (pLog a)(c := pLog a c @ [e])\<rparr>)"
| accept: "n \<in> S \<Longrightarrow> t = pTerm a n \<Longrightarrow> pLead a t = Some l \<Longrightarrow> l \<noteq> n \<Longrightarrow>
    prefix es (pLLog a t) \<Longrightarrow> es \<noteq> [] \<Longrightarrow>
    pstep S a (a\<lparr>pLog := (pLog a)(n := (if prefix es (pLog a n) then pLog a n else es))\<rparr>)"
| ack: "n \<in> S \<Longrightarrow> t = pTerm a n \<Longrightarrow> pLead a t \<noteq> None \<Longrightarrow> m < length (pLLog a t) \<Longrightarrow>
    prefix (take (Suc m) (pLLog a t)) (pLog a n) \<Longrightarrow>
    pstep S a (a\<lparr>pAck := insert (n, t, m) (pAck a)\<rparr>)"
| commit: "n \<in> S \<Longrightarrow> chosen S a t i \<Longrightarrow> k \<le> i \<Longrightarrow> t \<le> pTerm a n \<Longrightarrow>
    take (Suc k) (pLog a n) = take (Suc k) (pLLog a t) \<Longrightarrow> pCommit a n \<le> k \<Longrightarrow>
    pstep S a (a\<lparr>pCommit := (pCommit a)(n := k)\<rparr>)"

subsection \<open>The invariant\<close>

text \<open>A log whose every entry of term \<open>t\<close> closes a prefix of the leader's log of \<open>t\<close>.\<close>

definition cons_log :: "'c pstate \<Rightarrow> 'c rlog \<Rightarrow> bool" where
  "cons_log a xs \<longleftrightarrow> (\<forall>i. 0 < i \<longrightarrow> i < length xs \<longrightarrow>
     pLead a (leTerm (xs ! i)) \<noteq> None \<and> i < length (pLLog a (leTerm (xs ! i)))
     \<and> take (Suc i) xs = take (Suc i) (pLLog a (leTerm (xs ! i))))"

definition inv_logs :: "'c pstate \<Rightarrow> bool" where
  "inv_logs a \<longleftrightarrow> (\<forall>n. wf_log (pLog a n) \<and> cons_log a (pLog a n)
     \<and> (\<forall>e \<in> set (pLog a n). leTerm e \<le> pTerm a n))"

definition inv_future :: "'c pstate \<Rightarrow> bool" where
  "inv_future a \<longleftrightarrow> (\<forall>n. 0 \<le> pTerm a n)
     \<and> (\<forall>n t. pTerm a n < t \<longrightarrow> pVote a n t = None \<and> pCand a n t = None)"

definition inv_cand :: "int set \<Rightarrow> 'c pstate \<Rightarrow> bool" where
  "inv_cand S a \<longleftrightarrow> (\<forall>c t cl. pCand a c t = Some cl \<longrightarrow>
     c \<in> S \<and> 0 < t \<and> pVote a c t = Some (c, cl) \<and> wf_log cl \<and> cons_log a cl
     \<and> (\<forall>e \<in> set cl. leTerm e < t))"

definition inv_vote :: "int set \<Rightarrow> 'c pstate \<Rightarrow> bool" where
  "inv_vote S a \<longleftrightarrow> (\<forall>v t c vl. pVote a v t = Some (c, vl) \<longrightarrow>
     v \<in> S \<and> wf_log vl \<and> cons_log a vl \<and> (\<exists>cl. pCand a c t = Some cl \<and> uptodate cl vl))"

definition inv_grant :: "'c pstate \<Rightarrow> bool" where
  "inv_grant a \<longleftrightarrow> (\<forall>c t v. v \<in> pGrant a c t \<longrightarrow> (\<exists>vl. pVote a v t = Some (c, vl)))"

definition inv_lead :: "int set \<Rightarrow> 'c pstate \<Rightarrow> bool" where
  "inv_lead S a \<longleftrightarrow> (\<forall>t c. pLead a t = Some c \<longrightarrow>
     t \<le> pTerm a c \<and> quorum S (pElect a t) \<and> pElect a t \<subseteq> pGrant a c t
     \<and> wf_log (pLLog a t) \<and> cons_log a (pLLog a t)
     \<and> (pTerm a c = t \<longrightarrow> pLog a c = pLLog a t)
     \<and> (\<exists>cl. pCand a c t = Some cl \<and> prefix cl (pLLog a t) \<and> length cl < length (pLLog a t)
         \<and> (\<forall>i. length cl \<le> i \<longrightarrow> i < length (pLLog a t) \<longrightarrow> leTerm (pLLog a t ! i) = t)))"

text \<open>
  A log that once held the prefix up to the entry of term \<open>t\<close> at \<open>i\<close> still holds
  it, unless a leader of a later term, at most \<open>T\<close>, does not.
\<close>

definition ack_ok :: "'c pstate \<Rightarrow> 'c rlog \<Rightarrow> int \<Rightarrow> nat \<Rightarrow> int \<Rightarrow> bool" where
  "ack_ok a xs t i T \<longleftrightarrow> prefix (take (Suc i) (pLLog a t)) xs
     \<or> (\<exists>u. t < u \<and> u \<le> T \<and> pLead a u \<noteq> None \<and> \<not> prefix (take (Suc i) (pLLog a t)) (pLLog a u))"

definition inv_ack :: "'c pstate \<Rightarrow> bool" where
  "inv_ack a \<longleftrightarrow> (\<forall>n t m. (n, t, m) \<in> pAck a \<longrightarrow>
     pLead a t \<noteq> None \<and> m < length (pLLog a t) \<and> t \<le> pTerm a n
     \<and> (\<forall>i \<le> m. leTerm (pLLog a t ! i) = t \<longrightarrow> ack_ok a (pLog a n) t i (pTerm a n)
         \<and> (\<forall>t' c vl. pVote a n t' = Some (c, vl) \<longrightarrow> t < t' \<longrightarrow>
               pLead a t' = None \<or> n \<in> pElect a t' \<longrightarrow> ack_ok a vl t i (t' - 1))))"

definition inv_commit :: "int set \<Rightarrow> 'c pstate \<Rightarrow> bool" where
  "inv_commit S a \<longleftrightarrow> (\<forall>n. pCommit a n = 0 \<or> (\<exists>t i. chosen S a t i \<and> pCommit a n \<le> i
     \<and> t \<le> pTerm a n \<and> take (Suc (pCommit a n)) (pLog a n) = take (Suc (pCommit a n)) (pLLog a t)))"

definition pinv :: "int set \<Rightarrow> 'c pstate \<Rightarrow> bool" where
  "pinv S a \<longleftrightarrow> inv_logs a \<and> inv_future a \<and> inv_cand S a \<and> inv_vote S a \<and> inv_grant a
     \<and> inv_lead S a \<and> inv_ack a \<and> inv_commit S a"

lemmas pinv_defs = inv_logs_def inv_future_def inv_cand_def inv_vote_def inv_grant_def
  inv_lead_def inv_ack_def inv_commit_def

lemma pinv_logD:
  assumes "pinv S a"
  shows "wf_log (pLog a n)" "cons_log a (pLog a n)" "e \<in> set (pLog a n) \<Longrightarrow> leTerm e \<le> pTerm a n"
  using assms by (auto simp: pinv_def inv_logs_def)

lemma pinv_futureD:
  assumes "pinv S a"
  shows "0 \<le> pTerm a n" "pTerm a n < t \<Longrightarrow> pVote a n t = None" "pTerm a n < t \<Longrightarrow> pCand a n t = None"
  using assms by (auto simp: pinv_def inv_future_def)

lemma pinv_candD:
  assumes "pinv S a" "pCand a c t = Some cl"
  shows "c \<in> S" "0 < t" "pVote a c t = Some (c, cl)" "wf_log cl" "cons_log a cl"
    "e \<in> set cl \<Longrightarrow> leTerm e < t"
  using assms by (auto simp: pinv_def inv_cand_def)

lemma pinv_voteD:
  assumes "pinv S a" "pVote a v t = Some (c, vl)"
  shows "v \<in> S" "wf_log vl" "cons_log a vl" "\<exists>cl. pCand a c t = Some cl \<and> uptodate cl vl"
  using assms unfolding pinv_def inv_vote_def by blast+

lemma pinv_grantD:
  assumes "pinv S a" "v \<in> pGrant a c t"
  shows "\<exists>vl. pVote a v t = Some (c, vl)"
  using assms unfolding pinv_def inv_grant_def by blast

lemma pinv_leadD:
  assumes "pinv S a" "pLead a t = Some c"
  shows "t \<le> pTerm a c" "quorum S (pElect a t)" "pElect a t \<subseteq> pGrant a c t"
    "wf_log (pLLog a t)" "cons_log a (pLLog a t)" "pTerm a c = t \<Longrightarrow> pLog a c = pLLog a t"
    "\<exists>cl. pCand a c t = Some cl \<and> prefix cl (pLLog a t) \<and> length cl < length (pLLog a t)
         \<and> (\<forall>i. length cl \<le> i \<longrightarrow> i < length (pLLog a t) \<longrightarrow> leTerm (pLLog a t ! i) = t)"
  using assms unfolding pinv_def inv_lead_def by blast+

lemma pinv_ackD:
  assumes "pinv S a" "(n, t, m) \<in> pAck a"
  shows "pLead a t \<noteq> None" "m < length (pLLog a t)" "t \<le> pTerm a n"
    "i \<le> m \<Longrightarrow> leTerm (pLLog a t ! i) = t \<Longrightarrow> ack_ok a (pLog a n) t i (pTerm a n)"
    "i \<le> m \<Longrightarrow> leTerm (pLLog a t ! i) = t \<Longrightarrow> pVote a n t' = Some (c, vl) \<Longrightarrow> t < t' \<Longrightarrow>
       pLead a t' = None \<or> n \<in> pElect a t' \<Longrightarrow> ack_ok a vl t i (t' - 1)"
  using assms unfolding pinv_def inv_ack_def by blast+

lemma pinv_commitD:
  assumes "pinv S a" "pCommit a n \<noteq> 0"
  obtains t i where "chosen S a t i" "pCommit a n \<le> i" "t \<le> pTerm a n"
    "take (Suc (pCommit a n)) (pLog a n) = take (Suc (pCommit a n)) (pLLog a t)"
  using assms unfolding pinv_def inv_commit_def by metis

subsection \<open>History only grows\<close>

definition pext :: "'c pstate \<Rightarrow> 'c pstate \<Rightarrow> bool" where
  "pext a b \<longleftrightarrow> (\<forall>n. pTerm a n \<le> pTerm b n)
     \<and> (\<forall>t c. pLead a t = Some c \<longrightarrow> pLead b t = Some c \<and> prefix (pLLog a t) (pLLog b t)
           \<and> pElect b t = pElect a t)
     \<and> (\<forall>v t x. pVote a v t = Some x \<longrightarrow> pVote b v t = Some x)
     \<and> (\<forall>c t x. pCand a c t = Some x \<longrightarrow> pCand b c t = Some x)
     \<and> (\<forall>c t. pGrant a c t \<subseteq> pGrant b c t) \<and> pAck a \<subseteq> pAck b"

lemma grant_future:
  assumes "pinv S a" and "pTerm a n < t"
  shows "pGrant a n t = {}"
proof (rule ccontr)
  assume "pGrant a n t \<noteq> {}"
  then obtain v vl where "pVote a v t = Some (n, vl)"
    using pinv_grantD [OF assms(1)] by blast
  then show False using pinv_voteD(4) [OF assms(1)] pinv_futureD(3) [OF assms] by fastforce
qed

lemma leader_log:
  assumes "pinv S a" and "pLead a (pTerm a c) = Some c"
  shows "pLog a c = pLLog a (pTerm a c)"
  using pinv_leadD(6) [OF assms] by simp

lemma pstep_pext:
  assumes "pinv S a" and "pstep S a b"
  shows "pext a b"
  using assms(2)
proof cases
  case (elect n t)
  then show ?thesis
    using grant_future [OF assms(1), of n t] pinv_futureD(2,3) [OF assms(1), of n t] by (auto simp: pext_def)
next
  case (client c t e)
  then show ?thesis using leader_log [OF assms(1), of c] by (auto simp: pext_def)
qed (auto simp: pext_def)

lemma prefix_take_prefix: "prefix xs ys \<Longrightarrow> i \<le> length xs \<Longrightarrow> take i xs = take i ys"
  by (auto simp: prefix_def)

lemma pext_llog_take:
  "pext a b \<Longrightarrow> pLead a t \<noteq> None \<Longrightarrow> i \<le> length (pLLog a t) \<Longrightarrow>
     take i (pLLog b t) = take i (pLLog a t)"
  unfolding pext_def by (metis not_None_eq prefix_take_prefix)

lemma pext_llog_length: "pext a b \<Longrightarrow> pLead a t \<noteq> None \<Longrightarrow> length (pLLog a t) \<le> length (pLLog b t)"
  by (auto simp: pext_def prefix_length_le)

lemma pext_llog_nth:
  "pext a b \<Longrightarrow> pLead a t \<noteq> None \<Longrightarrow> i < length (pLLog a t) \<Longrightarrow> pLLog b t ! i = pLLog a t ! i"
  by (metis not_None_eq pext_def prefix_nth)

lemma cons_log_mono:
  assumes "pext a b" and "cons_log a xs"
  shows "cons_log b xs"
  unfolding cons_log_def
proof (intro allI impI)
  fix i assume i: "0 < i" "i < length xs"
  let ?t = "leTerm (xs ! i)"
  have "pLead a ?t \<noteq> None" "i < length (pLLog a ?t)" "take (Suc i) xs = take (Suc i) (pLLog a ?t)"
    using assms(2) i by (auto simp: cons_log_def)
  then show "pLead b ?t \<noteq> None \<and> i < length (pLLog b ?t) \<and> take (Suc i) xs = take (Suc i) (pLLog b ?t)"
    using pext_llog_take [OF assms(1), of ?t "Suc i"] pext_llog_length [OF assms(1), of ?t] assms(1)
    by (auto simp: pext_def)
qed

lemma chosen_mono:
  assumes "pext a b" and "chosen S a t i"
  shows "chosen S b t i"
proof -
  have "pLead b t \<noteq> None" "i < length (pLLog b t)" "leTerm (pLLog b t ! i) = t"
    using assms pext_llog_length [OF assms(1), of t] pext_llog_nth [OF assms(1), of t i]
    by (auto simp: chosen_def pext_def)
  moreover have "pAck a \<subseteq> pAck b" using assms(1) by (simp add: pext_def)
  ultimately show ?thesis using assms(2) unfolding chosen_def by blast
qed

subsection \<open>Consequences of consistency\<close>

lemma llog_terms:
  assumes "pinv S a" and "pLead a t \<noteq> None" and "e \<in> set (pLLog a t)"
  shows "leTerm e \<le> t"
proof -
  obtain c cl where c: "pLead a t = Some c" "pCand a c t = Some cl" "prefix cl (pLLog a t)"
      "\<forall>i. length cl \<le> i \<longrightarrow> i < length (pLLog a t) \<longrightarrow> leTerm (pLLog a t ! i) = t"
    using assms(2) pinv_leadD(7) [OF assms(1)] by blast
  have cl: "\<forall>e \<in> set cl. leTerm e < t" using pinv_candD(6) [OF assms(1) c(2)] by blast
  obtain i where i: "i < length (pLLog a t)" "e = pLLog a t ! i"
    using assms(3) by (metis in_set_conv_nth)
  show ?thesis
  proof (cases "i < length cl")
    case True
    then have "e \<in> set cl" using i c(3) by (metis nth_mem prefix_nth)
    then show ?thesis using cl by force
  next
    case False
    then show ?thesis using i c(4) by simp
  qed
qed

lemma cons_log_sorted:
  assumes "pinv S a" and "wf_log xs" and "cons_log a xs" and "i \<le> j" and "j < length xs"
  shows "leTerm (xs ! i) \<le> leTerm (xs ! j)"
proof (cases "j = 0")
  case True
  then show ?thesis using assms(4) by simp
next
  case False
  let ?t = "leTerm (xs ! j)"
  have j: "pLead a ?t \<noteq> None" "j < length (pLLog a ?t)" "take (Suc j) xs = take (Suc j) (pLLog a ?t)"
    using assms(3,5) False by (auto simp: cons_log_def)
  have "xs ! i = pLLog a ?t ! i" using j(3) assms(4,5) by (metis le_imp_less_Suc le_less_trans nth_take)
  then have "xs ! i \<in> set (pLLog a ?t)" using j(2) assms(4) by simp
  then show ?thesis using llog_terms [OF assms(1) j(1)] by simp
qed

text \<open>Log matching for consistent logs.\<close>

lemma cons_log_matching:
  assumes "wf_log xs" "wf_log ys" "cons_log a xs" "cons_log a ys"
    and "i < length xs" "i < length ys" "leTerm (xs ! i) = leTerm (ys ! i)"
  shows "take (Suc i) xs = take (Suc i) ys"
proof (cases "i = 0")
  case True
  then show ?thesis using assms by (simp add: wf_log_def take_Suc hd_conv_nth)
next
  case False
  have "take (Suc i) xs = take (Suc i) (pLLog a (leTerm (xs ! i)))"
    using assms(3,5) False by (simp add: cons_log_def)
  moreover have "take (Suc i) ys = take (Suc i) (pLLog a (leTerm (ys ! i)))"
    using assms(4,6) False by (simp add: cons_log_def)
  ultimately show ?thesis using assms(7) by simp
qed

subsection \<open>Leader completeness\<close>

lemma chosen_upper_terms:
  assumes "pinv S a" and "chosen S a t i" and "i \<le> m" and "m < length (pLLog a t)"
  shows "leTerm (pLLog a t ! m) = t"
proof -
  obtain c where c: "pLead a t = Some c" "leTerm (pLLog a t ! i) = t"
    using assms(2) by (auto simp: chosen_def)
  obtain cl where cl: "pCand a c t = Some cl" "prefix cl (pLLog a t)"
      "\<forall>j. length cl \<le> j \<longrightarrow> j < length (pLLog a t) \<longrightarrow> leTerm (pLLog a t ! j) = t"
    using pinv_leadD(7) [OF assms(1) c(1)] by blast
  have "length cl \<le> i"
  proof (rule ccontr)
    assume "\<not> length cl \<le> i"
    then have i: "i < length cl" by simp
    then have "leTerm (cl ! i) < t" using pinv_candD(6) [OF assms(1) cl(1) nth_mem] by blast
    then show False using c(2) prefix_nth [OF cl(2) i] by simp
  qed
  then show ?thesis using cl(3) assms(3,4) by simp
qed

text \<open>A log that ends in a term is a prefix of that term's leader's log.\<close>

lemma cons_log_last:
  assumes "wf_log xs" "cons_log a xs" "0 < leTerm (last xs)"
  shows "pLead a (leTerm (last xs)) \<noteq> None" "xs = take (length xs) (pLLog a (leTerm (last xs)))"
proof -
  have ne: "xs \<noteq> []" "xs ! 0 = sentinel" using assms(1) by (auto simp: wf_log_def)
  have "0 < length xs - 1"
  proof (rule ccontr)
    assume "\<not> 0 < length xs - 1"
    then have "last xs = xs ! 0" using ne by (simp add: last_conv_nth)
    then show False using assms(3) ne by (simp add: sentinel_def)
  qed
  then show "pLead a (leTerm (last xs)) \<noteq> None" "xs = take (length xs) (pLLog a (leTerm (last xs)))"
    using assms(2)[unfolded cons_log_def, rule_format, of "length xs - 1"] ne
    by (simp_all add: last_conv_nth)
qed

text \<open>A quorum that holds a chosen entry meets the electorate of every later leader.\<close>

lemma chosen_voter:
  assumes inv: "pinv S a" and ch: "chosen S a t i" and "t < t'" "pLead a t' = Some c"
  obtains v vl where "pVote a v t' = Some (c, vl)" "ack_ok a vl t i (t' - 1)"
proof -
  obtain Q where Q: "quorum S Q" "\<forall>n \<in> Q. \<exists>m \<ge> i. (n, t, m) \<in> pAck a"
    and i: "leTerm (pLLog a t ! i) = t"
    using ch by (auto simp: chosen_def)
  obtain v where v: "v \<in> Q" "v \<in> pElect a t'"
    using maj.quorum_intersect [OF Q(1) pinv_leadD(2) [OF inv assms(4)]] by blast
  obtain m where m: "i \<le> m" "(v, t, m) \<in> pAck a" using Q(2) v(1) by blast
  obtain vl where vl: "pVote a v t' = Some (c, vl)"
    using pinv_grantD [OF inv] pinv_leadD(3) [OF inv assms(4)] v(2) by blast
  have "ack_ok a vl t i (t' - 1)"
    using pinv_ackD(5) [OF inv m(2) m(1) i vl assms(3)] v(2) by blast
  then show ?thesis using vl that by blast
qed

text \<open>A log at least as up to date as one that holds a chosen prefix holds it too.\<close>

lemma uptodate_inherits:
  assumes inv: "pinv S a" and ch: "chosen S a t i"
    and vl: "wf_log vl" "cons_log a vl" "prefix (take (Suc i) (pLLog a t)) vl"
    and cl: "wf_log cl" "cons_log a cl" "uptodate cl vl" "leTerm (last cl) < t'"
    and IH: "\<And>u. t < u \<Longrightarrow> u < t' \<Longrightarrow> pLead a u \<noteq> None \<Longrightarrow> prefix (take (Suc i) (pLLog a t)) (pLLog a u)"
  shows "prefix (take (Suc i) (pLLog a t)) cl"
proof -
  let ?P = "take (Suc i) (pLLog a t)" and ?u = "leTerm (last cl)"
  have i: "pLead a t \<noteq> None" "i < length (pLLog a t)" "leTerm (pLLog a t ! i) = t"
    using ch by (auto simp: chosen_def)
  have t_pos: "0 < t" using i(1) pinv_leadD(7) [OF inv] pinv_candD(2) [OF inv] by blast
  have ne: "vl \<noteq> []" "cl \<noteq> []" using vl(1) cl(1) by (auto simp: wf_log_def)
  have "Suc i \<le> length vl" "leTerm (vl ! i) = t"
    using prefix_length_le [OF vl(3)] prefix_nth [OF vl(3), of i] i by simp_all
  then have last_vl: "t \<le> leTerm (last vl)"
    using cons_log_sorted [OF inv vl(1,2), of i "length vl - 1"] ne by (simp add: last_conv_nth)
  then have u_ge: "t \<le> ?u" using cl(3) by (auto simp: uptodate_def)
  then have cl_u: "pLead a ?u \<noteq> None" "cl = take (length cl) (pLLog a ?u)"
    using cons_log_last [OF cl(1,2)] t_pos by simp_all
  show ?thesis
  proof (cases "leTerm (last vl) = ?u")
    case True
    then have "vl = take (length vl) (pLLog a ?u)"
      using cons_log_last(2) [OF vl(1,2)] u_ge t_pos by simp
    moreover have "length vl \<le> length cl" using cl(3) True by (simp add: uptodate_def)
    ultimately have "prefix vl cl" using cl_u(2) by (metis min.absorb1 take_is_prefix take_take)
    then show ?thesis using vl(3) prefix_order.trans by blast
  next
    case False
    then have u: "t < ?u" using cl(3) last_vl by (auto simp: uptodate_def)
    then have "prefix ?P (pLLog a ?u)" "prefix cl (pLLog a ?u)"
      using IH cl(4) cl_u by (blast, metis take_is_prefix)
    moreover have "\<not> prefix cl ?P"
      using llog_terms [OF inv i(1)] u ne(2)
      by (metis in_set_takeD last_in_set not_le set_mono_prefix subsetD)
    ultimately show ?thesis using prefix_same_cases by blast
  qed
qed

lemma leader_completeness:
  assumes inv: "pinv S a" and ch: "chosen S a t i"
  shows "t < t' \<Longrightarrow> pLead a t' \<noteq> None \<Longrightarrow> prefix (take (Suc i) (pLLog a t)) (pLLog a t')"
proof (induction "nat (t' - t)" arbitrary: t' rule: less_induct)
  case less
  have IH: "prefix (take (Suc i) (pLLog a t)) (pLLog a u)"
    if "t < u" "u < t'" "pLead a u \<noteq> None" for u
    using that less.prems(1) by (intro less.hyps) auto
  obtain c where c: "pLead a t' = Some c" using less.prems(2) by blast
  obtain cl where cl: "pCand a c t' = Some cl" "prefix cl (pLLog a t')"
    using pinv_leadD(7) [OF inv c] by blast
  note cand = pinv_candD [OF inv cl(1)]
  obtain v vl where v: "pVote a v t' = Some (c, vl)" "ack_ok a vl t i (t' - 1)"
    using chosen_voter [OF inv ch less.prems(1) c] by blast
  have "prefix (take (Suc i) (pLLog a t)) vl" using v(2) IH by (auto simp: ack_ok_def)
  moreover have "uptodate cl vl" using pinv_voteD(4) [OF inv v(1)] cl(1) by simp
  moreover have "leTerm (last cl) < t'" using cand(4,6) by (auto simp: wf_log_def)
  ultimately have "prefix (take (Suc i) (pLLog a t)) cl"
    using uptodate_inherits [OF inv ch pinv_voteD(2,3) [OF inv v(1)] _ cand(4,5)] IH by blast
  then show ?case using cl(2) prefix_order.trans by blast
qed

subsection \<open>Every step keeps the invariant\<close>

lemma wf_log_append:
  "wf_log xs \<Longrightarrow> leIndex e = int (length xs) \<Longrightarrow> 0 < leTerm e \<Longrightarrow> wf_log (xs @ [e])"
  by (auto simp: wf_log_def nth_append)

lemma wf_log_prefix: "prefix xs ys \<Longrightarrow> wf_log ys \<Longrightarrow> xs \<noteq> [] \<Longrightarrow> wf_log xs"
  using prefix_nth [of xs ys] prefix_length_le [of xs ys] by (force simp: wf_log_def)

lemma cons_log_append:
  assumes "cons_log b xs" "pLead b (leTerm e) \<noteq> None" "pLLog b (leTerm e) = xs @ [e]"
  shows "cons_log b (xs @ [e])"
  using assms by (auto simp: cons_log_def nth_append less_Suc_eq)

lemma cons_log_prefix:
  assumes "prefix xs ys" "cons_log b ys"
  shows "cons_log b xs"
  unfolding cons_log_def
proof (intro allI impI)
  fix i assume i: "0 < i" "i < length xs"
  have "xs ! i = ys ! i" "i < length ys" "take (Suc i) xs = take (Suc i) ys"
    using assms(1) i by (auto simp: prefix_def nth_append)
  then show "pLead b (leTerm (xs ! i)) \<noteq> None \<and> i < length (pLLog b (leTerm (xs ! i)))
      \<and> take (Suc i) xs = take (Suc i) (pLLog b (leTerm (xs ! i)))"
    using assms(2) i by (simp add: cons_log_def)
qed

lemma cand_term_pos: "pinv S a \<Longrightarrow> pLead a t = Some c \<Longrightarrow> 0 < t"
  using pinv_leadD(7) pinv_candD(2) by blast

lemma step_inv_logs:
  assumes inv: "pinv S a" and st: "pstep S a b"
  shows "inv_logs b"
proof -
  note mono = cons_log_mono [OF pstep_pext [OF inv st]]
  note L = pinv_logD [OF inv]
  show ?thesis using st
  proof cases
    case (bump n t)
    then show ?thesis using L mono by (auto simp: inv_logs_def) (meson le_less_trans less_imp_le)
  next
    case (elect n t)
    then show ?thesis using L mono by (auto simp: inv_logs_def) (meson add_increasing2 zero_le_one)
  next
    case (lead c t e)
    then have "cons_log b (pLog a c @ [e])" using L mono by (intro cons_log_append) auto
    moreover have "wf_log (pLog a c @ [e])"
      using lead L pinv_candD(2) [OF inv] by (intro wf_log_append) auto
    ultimately show ?thesis using lead L mono by (auto simp: inv_logs_def)
  next
    case (client c t e)
    then have "cons_log b (pLog a c @ [e])" using L mono by (intro cons_log_append) auto
    moreover have "wf_log (pLog a c @ [e])"
      using client L cand_term_pos [OF inv] by (intro wf_log_append) auto
    ultimately show ?thesis using client L mono by (auto simp: inv_logs_def)
  next
    case (accept n t l es)
    have "cons_log b es" "wf_log es"
      using accept pinv_leadD(4,5) [OF inv] mono by (blast intro: cons_log_prefix wf_log_prefix)+
    moreover have "leTerm e \<le> pTerm a n" if "e \<in> set es" for e
      using that accept llog_terms [OF inv] set_mono_prefix by fastforce
    ultimately show ?thesis using accept L mono by (auto simp: inv_logs_def)
  qed (use L mono in \<open>auto simp: inv_logs_def\<close>)
qed

lemma step_inv_future:
  assumes inv: "pinv S a" and st: "pstep S a b"
  shows "inv_future b"
  using st
proof cases
  case (bump n t)
  then show ?thesis using pinv_futureD [OF inv] by (auto simp: inv_future_def) (meson le_less_trans less_imp_le)
qed (use pinv_futureD [OF inv] in \<open>auto simp: inv_future_def\<close>)

lemma step_inv_cand:
  assumes inv: "pinv S a" and st: "pstep S a b"
  shows "inv_cand S b"
proof -
  note mono = cons_log_mono [OF pstep_pext [OF inv st]]
  note C = pinv_candD [OF inv]
  show ?thesis using st
  proof cases
    case (elect n t)
    have "leTerm e < t" if "e \<in> set (pLog a n)" for e
      using pinv_logD(3) [OF inv that] elect by simp
    then show ?thesis
      using elect C mono pinv_logD(1,2) [OF inv, of n] pinv_futureD(1) [OF inv, of n]
      by (auto simp: inv_cand_def)
  next
    case (vote v t c cl)
    then show ?thesis using C mono by (fastforce simp: inv_cand_def)
  qed (use C mono in \<open>auto simp: inv_cand_def\<close>)
qed

lemma uptodate_refl: "uptodate xs xs"
  by (simp add: uptodate_def)

lemma step_inv_vote:
  assumes inv: "pinv S a" and st: "pstep S a b"
  shows "inv_vote S b"
proof -
  note mono = cons_log_mono [OF pstep_pext [OF inv st]]
  have cand: "pCand b c t = Some cl" if "pCand a c t = Some cl" for c t cl
    using that pstep_pext [OF inv st] by (simp add: pext_def)
  have old: "v \<in> S \<and> wf_log vl \<and> cons_log b vl \<and> (\<exists>cl. pCand b c t = Some cl \<and> uptodate cl vl)"
    if "pVote a v t = Some (c, vl)" for v t c vl
    using pinv_voteD [OF inv that] mono cand by blast
  show ?thesis using st
  proof cases
    case (elect n t)
    have "n \<in> S \<and> wf_log (pLog a n) \<and> cons_log b (pLog a n)"
      using pinv_logD [OF inv] mono elect(2) by blast
    moreover have "pCand b n t = Some (pLog a n)" using elect(1) by simp
    ultimately show ?thesis
      using old elect(1) uptodate_refl unfolding inv_vote_def
      by (simp del: fun_upd_apply add: fun_upd_def) blast
  next
    case (vote v t c cl)
    then show ?thesis using old pinv_logD(1,2) [OF inv, of v] mono cand by (fastforce simp: inv_vote_def)
  qed (use old in \<open>auto simp: inv_vote_def\<close>)
qed

lemma step_inv_grant:
  assumes inv: "pinv S a" and st: "pstep S a b"
  shows "inv_grant b"
proof -
  have old: "\<exists>vl. pVote b v t = Some (c, vl)" if "v \<in> pGrant a c t" for v c t
    using pinv_grantD [OF inv that] pstep_pext [OF inv st] by (auto simp: pext_def)
  show ?thesis using st
  proof cases
    case (elect n t)
    then have "pVote b n t = Some (n, pLog a n)" by simp
    then show ?thesis
      using old grant_future [OF inv, of n t] elect by (auto simp: inv_grant_def split: if_splits)
  next
    case (grant v t c vl)
    then show ?thesis using old by (auto simp: inv_grant_def split: if_splits)
  qed (use old in \<open>auto simp: inv_grant_def\<close>)
qed

text \<open>What a step may do to the leader's log of a term that already has a leader.\<close>

lemma step_llog:
  assumes inv: "pinv S a" and st: "pstep S a b" and "pLead a t = Some c"
  shows "pLLog b t = pLLog a t \<or> (pTerm a c = t \<and> (\<exists>e. leTerm e = t \<and>
      leIndex e = int (length (pLLog a t)) \<and> pLLog b t = pLLog a t @ [e] \<and> pLog b c = pLLog a t @ [e]))"
  using st
proof cases
  case (client c' t' e)
  then show ?thesis using assms(3) leader_log [OF inv, of c'] by (cases "t = t'") auto
qed (use assms(3) in auto)

lemma step_leader_log:
  assumes inv: "pinv S a" and st: "pstep S a b"
    and "pLead a t = Some c" and "pTerm b c = t"
  shows "pLog b c = pLLog b t"
proof -
  have t: "pTerm a c = t"
    using pinv_leadD(1) [OF inv assms(3)] pstep_pext [OF inv st] assms(4)
    by (metis order_antisym pext_def)
  have old: "pLog a c = pLLog a t" using pinv_leadD(6) [OF inv assms(3) t] .
  show ?thesis using st
  proof cases
    case (lead c' t' e)
    then show ?thesis using old t assms(3) by (cases "c = c'") auto
  next
    case (client c' t' e)
    have "c = c' \<longleftrightarrow> t' = t" using client(3,4) assms(3) t by (metis option.inject)
    then show ?thesis unfolding client(1) using old by simp
  next
    case (accept n t' l es)
    have "c \<noteq> n" using accept(3-5) assms(3) t by (metis option.inject)
    then show ?thesis unfolding accept(1) using old by simp
  qed (use old assms(3,4) t in simp_all)
qed

lemma step_inv_lead_old:
  assumes inv: "pinv S a" and st: "pstep S a b" and ld: "pLead a t = Some c"
  shows "wf_log (pLLog b t) \<and> cons_log b (pLLog b t)
    \<and> (\<exists>cl. pCand b c t = Some cl \<and> prefix cl (pLLog b t) \<and> length cl < length (pLLog b t)
         \<and> (\<forall>i. length cl \<le> i \<longrightarrow> i < length (pLLog b t) \<longrightarrow> leTerm (pLLog b t ! i) = t))"
proof -
  note ext = pstep_pext [OF inv st]
  note old = pinv_leadD [OF inv ld]
  obtain cl where cl: "pCand a c t = Some cl" "prefix cl (pLLog a t)" "length cl < length (pLLog a t)"
      "\<forall>i. length cl \<le> i \<longrightarrow> i < length (pLLog a t) \<longrightarrow> leTerm (pLLog a t ! i) = t"
    using old(7) by blast
  have cl': "pCand b c t = Some cl" using cl(1) ext by (simp add: pext_def)
  have cons: "cons_log b (pLLog a t)" using cons_log_mono [OF ext old(5)] .
  consider "pLLog b t = pLLog a t"
    | e where "leTerm e = t" "leIndex e = int (length (pLLog a t))" "pLLog b t = pLLog a t @ [e]"
    using step_llog [OF inv st ld] by blast
  then show ?thesis
  proof cases
    case 1
    then show ?thesis using old(4) cons cl cl' by auto
  next
    case (2 e)
    have "wf_log (pLLog b t)"
      unfolding 2(3) using old(4) 2 cand_term_pos [OF inv ld] by (intro wf_log_append) auto
    moreover have "cons_log b (pLLog b t)"
      unfolding 2(3) using cons 2 ld ext by (intro cons_log_append) (auto simp: pext_def)
    moreover have "prefix cl (pLLog b t)" using cl(2) 2(3) by simp
    moreover have "\<forall>i. length cl \<le> i \<longrightarrow> i < length (pLLog b t) \<longrightarrow> leTerm (pLLog b t ! i) = t"
      using cl(4) 2 by (auto simp: nth_append less_Suc_eq)
    ultimately show ?thesis using cl' cl(3) 2(3) by auto
  qed
qed

lemma step_inv_lead:
  assumes inv: "pinv S a" and st: "pstep S a b"
  shows "inv_lead S b"
  unfolding inv_lead_def
proof (intro allI impI)
  fix t c assume lb: "pLead b t = Some c"
  note ext = pstep_pext [OF inv st]
  show "t \<le> pTerm b c \<and> quorum S (pElect b t) \<and> pElect b t \<subseteq> pGrant b c t
     \<and> wf_log (pLLog b t) \<and> cons_log b (pLLog b t) \<and> (pTerm b c = t \<longrightarrow> pLog b c = pLLog b t)
     \<and> (\<exists>cl. pCand b c t = Some cl \<and> prefix cl (pLLog b t) \<and> length cl < length (pLLog b t)
         \<and> (\<forall>i. length cl \<le> i \<longrightarrow> i < length (pLLog b t) \<longrightarrow> leTerm (pLLog b t ! i) = t))"
  proof (cases "pLead a t = Some c")
    case True
    note old = pinv_leadD [OF inv True]
    have "t \<le> pTerm b c" using old(1) ext unfolding pext_def by (meson order_trans)
    moreover have "pElect b t = pElect a t" "pGrant a c t \<subseteq> pGrant b c t"
      using True ext by (auto simp: pext_def)
    moreover have "pTerm b c = t \<longrightarrow> pLog b c = pLLog b t"
      using step_leader_log [OF inv st True] by blast
    ultimately show ?thesis using old(2,3) step_inv_lead_old [OF inv st True] by auto
  next
    case False
    from st show ?thesis
    proof cases
      case (lead c' t' e)
      then have eq: "c' = c" "t' = t" using lb False by (auto split: if_splits)
      have "wf_log (pLLog b t) \<and> cons_log b (pLLog b t)"
        using step_inv_logs [OF inv st] lead eq by (auto simp: inv_logs_def split: if_splits)
      then show ?thesis using lead eq by (auto simp: nth_append less_Suc_eq)
    qed (use lb False in auto)
  qed
qed

text \<open>
  A leader's log that misses the prefix up to an entry of an earlier term keeps
  missing it: it only grows by entries of its own term.
\<close>

lemma step_llog_not_prefix:
  assumes inv: "pinv S a" and st: "pstep S a b" and ld: "pLead a u = Some c" and "t < u"
    and P: "xs \<noteq> []" "leTerm (last xs) = t" "\<not> prefix xs (pLLog a u)"
  shows "\<not> prefix xs (pLLog b u)"
proof -
  consider "pLLog b u = pLLog a u" | e where "leTerm e = u" "pLLog b u = pLLog a u @ [e]"
    using step_llog [OF inv st ld] by blast
  then show ?thesis
  proof cases
    case (2 e)
    show ?thesis
    proof
      assume "prefix xs (pLLog b u)"
      then have "xs = pLLog a u @ [e]" using 2(2) P(3) by simp
      then show False using P(2) 2(1) \<open>t < u\<close> by simp
    qed
  qed (use P in simp)
qed

lemma last_take_Suc: "i < length xs \<Longrightarrow> last (take (Suc i) xs) = xs ! i"
  by (simp add: take_Suc_conv_app_nth)

lemma step_ack_ok:
  assumes inv: "pinv S a" and st: "pstep S a b" and ld: "pLead a t \<noteq> None"
    and i: "i < length (pLLog a t)" "leTerm (pLLog a t ! i) = t"
    and ok: "ack_ok a xs t i T" and "T \<le> T'"
  shows "ack_ok b xs t i T'"
proof -
  note ext = pstep_pext [OF inv st]
  have P: "take (Suc i) (pLLog b t) = take (Suc i) (pLLog a t)"
    using pext_llog_take [OF ext ld, of "Suc i"] i(1) by simp
  have last: "leTerm (last (take (Suc i) (pLLog a t))) = t" "take (Suc i) (pLLog a t) \<noteq> []"
    using i by (auto simp: last_take_Suc)
  from ok consider "prefix (take (Suc i) (pLLog a t)) xs"
    | u c where "t < u" "u \<le> T" "pLead a u = Some c" "\<not> prefix (take (Suc i) (pLLog a t)) (pLLog a u)"
    unfolding ack_ok_def by blast
  then show ?thesis
  proof cases
    case 1
    then show ?thesis by (simp add: ack_ok_def P)
  next
    case (2 u c)
    have "\<not> prefix (take (Suc i) (pLLog a t)) (pLLog b u)"
      using step_llog_not_prefix [OF inv st 2(3,1) last(2,1) 2(4)] .
    moreover have "pLead b u \<noteq> None" using 2(3) ext by (simp add: pext_def)
    ultimately show ?thesis using 2(1,2) \<open>T \<le> T'\<close> unfolding ack_ok_def P by (meson order_trans)
  qed
qed

text \<open>The log a follower keeps or takes over still holds what it held, or a newer leader does not.\<close>

lemma accept_ack_ok:
  assumes inv: "pinv S a" and ld: "pLead a T = Some l" and es: "prefix es (pLLog a T)"
    and t: "t \<le> T" "pLead a t \<noteq> None" and ok: "ack_ok a xs t i T"
  shows "ack_ok a (if prefix es xs then xs else es) t i T"
proof (cases "prefix es xs")
  case True
  then show ?thesis using ok by simp
next
  case False
  let ?P = "take (Suc i) (pLLog a t)"
  consider (later) u where "t < u" "u \<le> T" "pLead a u \<noteq> None" "\<not> prefix ?P (pLLog a u)"
    | (holds) "prefix ?P xs" "prefix ?P (pLLog a T)"
    using ok t ld take_is_prefix unfolding ack_ok_def by (metis option.distinct(1) order.refl order_less_le)
  then show ?thesis
  proof cases
    case later
    then show ?thesis unfolding ack_ok_def by blast
  next
    case holds
    then have "prefix ?P es \<or> prefix es ?P" using es prefix_same_cases by blast
    then have "prefix ?P es" using holds(1) False prefix_order.trans by blast
    then show ?thesis using False by (simp add: ack_ok_def)
  qed
qed

lemma step_log_ack_ok:
  assumes inv: "pinv S a" and st: "pstep S a b" and ak: "(n, t, m) \<in> pAck a"
    and i: "i \<le> m" "leTerm (pLLog a t ! i) = t"
  shows "ack_ok b (pLog b n) t i (pTerm b n)"
proof -
  note A = pinv_ackD [OF inv ak]
  have il: "i < length (pLLog a t)" using i(1) A(2) by simp
  have T: "pTerm a n \<le> pTerm b n" using pstep_pext [OF inv st] by (simp add: pext_def)
  note old = step_ack_ok [OF inv st A(1) il i(2) _ T]
  have base: "ack_ok a (pLog a n) t i (pTerm a n)" using A(4) i by blast
  have app: "ack_ok a (pLog a n @ [e]) t i (pTerm a n)" for e
    using base unfolding ack_ok_def by (meson prefix_order.trans prefixI)
  show ?thesis using st
  proof cases
    case (lead c t' e)
    then show ?thesis using old [OF base] old [OF app [of e]] by auto
  next
    case (client c t' e)
    then show ?thesis using old [OF base] old [OF app [of e]] by auto
  next
    case (accept n' t' l es)
    show ?thesis
    proof (cases "n' = n")
      case True
      have "ack_ok a (if prefix es (pLog a n) then pLog a n else es) t i (pTerm a n)"
        using accept A(1,3) base True by (intro accept_ack_ok [OF inv]) auto
      moreover have "pLog b n = (if prefix es (pLog a n) then pLog a n else es)"
        using accept True by simp
      ultimately show ?thesis using old by metis
    qed (use old [OF base] accept in simp)
  qed (use old [OF base] in simp_all)
qed

lemma step_vote_ack_ok:
  assumes inv: "pinv S a" and st: "pstep S a b" and ak: "(n, t, m) \<in> pAck a"
    and i: "i \<le> m" "leTerm (pLLog a t ! i) = t"
    and vt: "pVote b n t' = Some (c, vl)" "t < t'" and el: "pLead b t' = None \<or> n \<in> pElect b t'"
  shows "ack_ok b vl t i (t' - 1)"
proof -
  note A = pinv_ackD [OF inv ak]
  have il: "i < length (pLLog a t)" using i(1) A(2) by simp
  note old = step_ack_ok [OF inv st A(1) il i(2) _ order.refl]
  note ext = pstep_pext [OF inv st]
  show ?thesis
  proof (cases "pVote a n t'")
    case (Some x)
    then have v: "pVote a n t' = Some (c, vl)" using vt(1) ext unfolding pext_def by metis
    have "pLead a t' = None \<or> n \<in> pElect a t'"
      using el ext by (cases "pLead a t'") (auto simp: pext_def)
    then show ?thesis using old A(5) [OF i v vt(2)] by blast
  next
    case None
    have base: "ack_ok a (pLog a n) t i (pTerm a n)" using A(4) i by blast
    from st show ?thesis
    proof cases
      case (elect n' t'')
      then have "n' = n" "t' = pTerm a n + 1" "vl = pLog a n"
        using None vt(1) by (auto split: if_splits)
      then show ?thesis using old [OF base] by simp
    next
      case (vote v t'' c' cl)
      then have eq: "v = n" "t'' = t'" "t' = pTerm a n" "vl = pLog a n"
        using None vt(1) by (auto split: if_splits)
      have "n \<notin> pElect a t'"
        if ld: "pLead a t' = Some l" for l
        using pinv_leadD(3) [OF inv ld] pinv_grantD [OF inv, of n l t'] None by auto
      moreover have "pLead b t' = pLead a t'" "pElect b t' = pElect a t'" using vote by simp_all
      ultimately have "pLead a t' = None" using el by (metis not_None_eq)
      then have "ack_ok a (pLog a n) t i (t' - 1)"
        using base eq(3) unfolding ack_ok_def
        by (metis order_less_le zle_diff1_eq)
      then show ?thesis using old eq(4) by simp
    qed (use None vt(1) in auto)
  qed
qed

lemma step_inv_ack:
  assumes inv: "pinv S a" and st: "pstep S a b"
  shows "inv_ack b"
  unfolding inv_ack_def
proof (intro allI impI, rule conjI)
  fix n t m assume mem: "(n, t, m) \<in> pAck b"
  note ext = pstep_pext [OF inv st]
  consider (old) "(n, t, m) \<in> pAck a"
    | (new) "pTerm a n = t" "pLead a t \<noteq> None" "m < length (pLLog a t)"
        "prefix (take (Suc m) (pLLog a t)) (pLog a n)" "b = a\<lparr>pAck := insert (n, t, m) (pAck a)\<rparr>"
    using st mem by cases auto
  note cases = this
  show "pLead b t \<noteq> None"
    using cases pinv_ackD(1) [OF inv, of n t m] ext by cases (auto simp: pext_def)
  show "m < length (pLLog b t) \<and> t \<le> pTerm b n \<and>
      (\<forall>i \<le> m. leTerm (pLLog b t ! i) = t \<longrightarrow> ack_ok b (pLog b n) t i (pTerm b n) \<and>
        (\<forall>t' c vl. pVote b n t' = Some (c, vl) \<longrightarrow> t < t' \<longrightarrow>
           pLead b t' = None \<or> n \<in> pElect b t' \<longrightarrow> ack_ok b vl t i (t' - 1)))"
    using cases
  proof cases
    case old
    note A = pinv_ackD(1-3) [OF inv old]
    have "pLLog b t ! i = pLLog a t ! i" if "i \<le> m" for i
      using that A pext_llog_nth [OF ext A(1)] by auto
    moreover have "m < length (pLLog b t)" using A(2) pext_llog_length [OF ext A(1)] by simp
    moreover have "t \<le> pTerm b n" using A(3) ext unfolding pext_def by (meson order_trans)
    ultimately show ?thesis
      using step_log_ack_ok [OF inv st old] step_vote_ack_ok [OF inv st old] by auto
  next
    case new
    have "ack_ok b (pLog b n) t i (pTerm b n)" if "i \<le> m" for i
    proof -
      have "prefix (take (Suc i) (pLLog a t)) (take (Suc m) (pLLog a t))"
        using that by (metis Suc_le_mono take_is_prefix take_take min.absorb1)
      then show ?thesis using new(4,5) prefix_order.trans by (auto simp: ack_ok_def)
    qed
    moreover have "pVote b n t' = None" if "t < t'" for t'
      using that new(1,5) pinv_futureD(2) [OF inv, of n t'] by simp
    ultimately show ?thesis using new by auto
  qed
qed

text \<open>A committed prefix survives the replacement of a follower's log.\<close>

lemma accept_keeps_commit:
  assumes inv: "pinv S a" and ld: "pLead a T = Some l" and es: "prefix es (pLLog a T)"
    and ch: "chosen S a t i" "k \<le> i" "t \<le> T" "take (Suc k) xs = take (Suc k) (pLLog a t)"
  shows "take (Suc k) (if prefix es xs then xs else es) = take (Suc k) (pLLog a t)"
proof (cases "prefix es xs")
  case True
  then show ?thesis using ch(4) by simp
next
  case False
  have i: "i < length (pLLog a t)" using ch(1) by (simp add: chosen_def)
  have "prefix (take (Suc i) (pLLog a t)) (pLLog a T)"
    using leader_completeness [OF inv ch(1), of T] ld ch(3) by (cases "t = T") (auto simp: take_is_prefix)
  then have "take (Suc i) (pLLog a t) = take (Suc i) (pLLog a T)"
    using prefix_take_prefix [of "take (Suc i) (pLLog a t)" "pLLog a T" "Suc i"] i by simp
  then have T: "take (Suc k) (pLLog a T) = take (Suc k) (pLLog a t)"
    using ch(2) take_eq_take_le [of "Suc i" "pLLog a t" "pLLog a T" "Suc k"] by simp
  have "Suc k \<le> length es"
  proof (rule ccontr)
    assume "\<not> Suc k \<le> length es"
    then have "es = take (length es) (take (Suc k) (pLLog a T))"
      using es prefix_iff_take [of es "pLLog a T"] by (simp add: min_def)
    then have "es = take (length es) (take (Suc k) xs)" using T ch(4) by simp
    then show False using False by (metis append_take_drop_id prefixI prefix_order.trans)
  qed
  then show ?thesis using False T prefix_take_prefix [OF es, of "Suc k"] by simp
qed

lemma pcommit_bound:
  assumes "pinv S a" shows "pCommit a n < length (pLog a n)"
proof (cases "pCommit a n = 0")
  case True
  then show ?thesis using pinv_logD(1) [OF assms, of n] by (simp add: wf_log_def)
next
  case False
  then obtain t i where ti: "chosen S a t i" "pCommit a n \<le> i"
      "take (Suc (pCommit a n)) (pLog a n) = take (Suc (pCommit a n)) (pLLog a t)"
    using pinv_commitD [OF assms] by metis
  have "Suc (pCommit a n) \<le> length (pLLog a t)" using ti(1,2) by (simp add: chosen_def)
  then show ?thesis using take_eq_length [OF ti(3)[symmetric]] by simp
qed

lemma accept_keeps_committed:
  assumes inv: "pinv S a" and ld: "pLead a (pTerm a n) = Some l"
    and es: "prefix es (pLLog a (pTerm a n))" "es \<noteq> []"
  shows "take (Suc (pCommit a n)) (if prefix es (pLog a n) then pLog a n else es)
    = take (Suc (pCommit a n)) (pLog a n)"
proof (cases "pCommit a n = 0")
  case True
  have wf: "wf_log (pLog a n)" "wf_log es"
    using pinv_logD(1) [OF inv] wf_log_prefix [OF es(1) pinv_leadD(4) [OF inv ld] es(2)] by auto
  then have "hd es = hd (pLog a n)" "pLog a n \<noteq> []"
    using es(2) by (auto simp: wf_log_def hd_conv_nth)
  then show ?thesis using True es(2) by (simp add: take_Suc)
next
  case False
  then obtain t i where ti: "chosen S a t i" "pCommit a n \<le> i" "t \<le> pTerm a n"
      "take (Suc (pCommit a n)) (pLog a n) = take (Suc (pCommit a n)) (pLLog a t)"
    using pinv_commitD [OF inv] by metis
  then show ?thesis using accept_keeps_commit [OF inv ld es(1) ti] by simp
qed

text \<open>No step changes the committed prefix of a log.\<close>

lemma step_keeps_committed:
  assumes inv: "pinv S a" and st: "pstep S a b"
  shows "take (Suc (pCommit a n)) (pLog b n) = take (Suc (pCommit a n)) (pLog a n)"
  using st
proof cases
  case (accept n' t l es)
  then show ?thesis using accept_keeps_committed [OF inv, of n l es] by auto
qed (use pcommit_bound [OF inv, of n] in auto)

lemma step_inv_commit:
  assumes inv: "pinv S a" and st: "pstep S a b"
  shows "inv_commit S b"
  unfolding inv_commit_def disj_imp
proof (intro allI impI)
  fix n assume k: "pCommit b n \<noteq> 0"
  note ext = pstep_pext [OF inv st]
  obtain t i where ti: "chosen S a t i" "pCommit b n \<le> i" "t \<le> pTerm a n"
      "take (Suc (pCommit b n)) (pLog b n) = take (Suc (pCommit b n)) (pLLog a t)"
  proof (cases "pCommit b n = pCommit a n")
    case True
    then obtain t i where "chosen S a t i" "pCommit a n \<le> i" "t \<le> pTerm a n"
        "take (Suc (pCommit a n)) (pLog a n) = take (Suc (pCommit a n)) (pLLog a t)"
      using pinv_commitD [OF inv] k by metis
    then show ?thesis using that [of t i] step_keeps_committed [OF inv st, of n] True by simp
  next
    case False
    from st show ?thesis
    proof cases
      case (commit n' t i k)
      then show ?thesis using that [of t i] False by (auto split: if_splits)
    qed (use False in auto)
  qed
  have "take (Suc (pCommit b n)) (pLLog b t) = take (Suc (pCommit b n)) (pLLog a t)"
    using ti(1,2) by (intro pext_llog_take [OF ext]) (auto simp: chosen_def)
  moreover have "t \<le> pTerm b n" using ti(3) ext unfolding pext_def by (meson order_trans)
  ultimately show "\<exists>t i. chosen S b t i \<and> pCommit b n \<le> i \<and> t \<le> pTerm b n
      \<and> take (Suc (pCommit b n)) (pLog b n) = take (Suc (pCommit b n)) (pLLog b t)"
    using ti chosen_mono [OF ext] by metis
qed

lemma pinv_step: "pinv S a \<Longrightarrow> pstep S a b \<Longrightarrow> pinv S b"
  unfolding pinv_def [of S b]
  by (simp add: step_inv_logs step_inv_future step_inv_cand step_inv_vote step_inv_grant
      step_inv_lead step_inv_ack step_inv_commit)

lemma pinv_init: "pinv S pinit"
  by (auto simp: pinv_def pinv_defs pinit_def wf_log_def cons_log_def sentinel_def)

subsection \<open>Runs and agreement\<close>

lemma pext_refl [simp]: "pext a a"
  by (simp add: pext_def)

lemma pext_trans:
  assumes "pext a b" "pext b c"
  shows "pext a c"
proof -
  have "pTerm a n \<le> pTerm c n" for n using assms unfolding pext_def by (meson order_trans)
  moreover have "pLead c t = Some l \<and> prefix (pLLog a t) (pLLog c t) \<and> pElect c t = pElect a t"
    if "pLead a t = Some l" for t l
    using assms that unfolding pext_def by (metis prefix_order.trans)
  ultimately show ?thesis using assms unfolding pext_def by (meson subset_trans)
qed

lemma psteps_inv: "(pstep S)\<^sup>*\<^sup>* a b \<Longrightarrow> pinv S a \<Longrightarrow> pinv S b \<and> pext a b"
proof (induction rule: rtranclp_induct)
  case (step b c)
  then show ?case using pinv_step pstep_pext pext_trans by blast
qed simp

text \<open>Log matching: two logs with an entry of one term at one index share the prefix up to it.\<close>

lemma plog_matching:
  assumes "pinv S a" "i < length (pLog a n)" "i < length (pLog a m)"
    "leTerm (pLog a n ! i) = leTerm (pLog a m ! i)"
  shows "take (Suc i) (pLog a n) = take (Suc i) (pLog a m)"
  using assms(2-4) pinv_logD(1,2) [OF assms(1)] by (intro cons_log_matching) auto

text \<open>Any two leaders' logs agree up to an index below both of two chosen entries.\<close>

lemma chosen_agree:
  assumes inv: "pinv S a" and "chosen S a t i" "chosen S a t' i'" "k \<le> i" "k \<le> i'"
  shows "take (Suc k) (pLLog a t) = take (Suc k) (pLLog a t')"
proof -
  have up: "take (Suc k) (pLLog a u) = take (Suc k) (pLLog a u')"
    if "u < u'" "chosen S a u j" "k \<le> j" "pLead a u' \<noteq> None" for u u' j
  proof -
    have "prefix (take (Suc j) (pLLog a u)) (pLLog a u')"
      using leader_completeness [OF inv that(2,1,4)] .
    moreover have "j < length (pLLog a u)" using that(2) by (simp add: chosen_def)
    ultimately show ?thesis
      using prefix_take_prefix [of "take (Suc j) (pLLog a u)" "pLLog a u'" "Suc k"] that(3) by simp
  qed
  show ?thesis
  proof (cases t t' rule: linorder_cases)
    case less
    then show ?thesis using up [OF less assms(2,4)] assms(3) by (simp add: chosen_def)
  next
    case greater
    then show ?thesis using up [OF greater assms(3,5)] assms(2) by (simp add: chosen_def)
  qed simp
qed

text \<open>State machine safety: committed prefixes agree.\<close>

lemma pcommit_agree:
  assumes inv: "pinv S a" and "k \<le> pCommit a n" "k \<le> pCommit a m"
  shows "take (Suc k) (pLog a n) = take (Suc k) (pLog a m)"
proof (cases "k = 0")
  case True
  have "pLog a n ! 0 = pLog a m ! 0" "pLog a n \<noteq> []" "pLog a m \<noteq> []"
    using pinv_logD(1) [OF inv] by (auto simp: wf_log_def)
  then show ?thesis using True by (simp add: take_Suc hd_conv_nth)
next
  case False
  have just: "\<exists>t i. chosen S a t i \<and> k \<le> i \<and> take (Suc k) (pLog a x) = take (Suc k) (pLLog a t)"
    if le: "k \<le> pCommit a x" for x
  proof -
    have "pCommit a x \<noteq> 0" using le False by simp
    then obtain t i where ti: "chosen S a t i" "pCommit a x \<le> i"
        "take (Suc (pCommit a x)) (pLog a x) = take (Suc (pCommit a x)) (pLLog a t)"
      using pinv_commitD [OF inv] by metis
    show ?thesis using ti le take_eq_take_le [OF ti(3), of "Suc k"] by (intro exI [of _ t] exI [of _ i]) auto
  qed
  show ?thesis
    using just [OF assms(2)] just [OF assms(3)] chosen_agree [OF inv] by metis
qed

end
