(* ===== verification/Raft_Cluster.thy ===== *)
theory Raft_Cluster
  imports Raft_Node
begin

text \<open>
  A cluster of Raft servers over the in-process network: \<^verbatim>\<open>raft/network.go\<close>,
  \<^verbatim>\<open>raft/transport.go\<close>, and the goroutines of \<^verbatim>\<open>raft/raft.go\<close> and
  \<^verbatim>\<open>raft/rpc_append.go\<close> that call through it.

  A remote call is a goroutine: it builds its arguments under the caller's lock,
  passes the network's admission checks, runs the handler under the callee's lock,
  passes the check after the handler, and handles the reply under the caller's lock.
  Between any two of these points every other goroutine may run, so each is a step
  of its own on the list \<open>cWire\<close> of calls in progress. A call is handled at most
  once and may be lost at either network check. Steps are deterministic given the
  event, which carries the clock readings and random numbers; an event that is not
  enabled leaves the state unchanged, and \<^const>\<open>None\<close> is a panic of a server.

  The goroutines that send AppendEntries (heartbeats and the broadcast of
  \<^verbatim>\<open>Start\<close>) recheck leadership and term under the lock; the model lets them run at
  any moment, which contains every schedule of the timers.
\<close>

subsection \<open>The simulated network\<close>

record Network =
  reliable :: bool
  longDelay :: bool
  registered :: "int \<Rightarrow> bool"
  connected :: "int \<Rightarrow> bool"

definition MakeNetwork :: Network where
  "MakeNetwork = \<lparr>reliable = True, longDelay = False,
     registered = (\<lambda>_. False), connected = (\<lambda>_. False)\<rparr>"

definition AddServer :: "int \<Rightarrow> Network \<Rightarrow> Network" where
  "AddServer i n = n\<lparr>registered := (registered n)(i := True), connected := (connected n)(i := True)\<rparr>"

definition SetReliable :: "bool \<Rightarrow> Network \<Rightarrow> Network" where
  "SetReliable r n = n\<lparr>reliable := r\<rparr>"

definition SetLongDelay :: "bool \<Rightarrow> Network \<Rightarrow> Network" where
  "SetLongDelay l n = n\<lparr>longDelay := l\<rparr>"

definition Connect :: "int \<Rightarrow> Network \<Rightarrow> Network" where
  "Connect i n = n\<lparr>connected := (connected n)(i := True)\<rparr>"

definition Disconnect :: "int \<Rightarrow> Network \<Rightarrow> Network" where
  "Disconnect i n = n\<lparr>connected := (connected n)(i := False)\<rparr>"

definition IsConnected :: "int \<Rightarrow> Network \<Rightarrow> bool" where
  "IsConnected i n = connected n i"

text \<open>
  \<^verbatim>\<open>Call\<close> before the handler: both ends connected, the peer known and, on an
  unreliable network, the message not dropped (\<^verbatim>\<open>rand.Intn(1000) < 100\<close>).
\<close>

definition Call_admit :: "int \<Rightarrow> int \<Rightarrow> int \<Rightarrow> Network \<Rightarrow> bool" where
  "Call_admit rnd from to n =
     (if \<not> connected n from \<or> \<not> connected n to \<or> \<not> registered n to then False
      else if \<not> reliable n then \<not> rnd mod 1000 < 100
      else True)"

text \<open>\<^verbatim>\<open>Call\<close> after the handler: the reply is lost when either end is down by now.\<close>

definition Call_return :: "int \<Rightarrow> int \<Rightarrow> Network \<Rightarrow> bool" where
  "Call_return from to n \<longleftrightarrow> connected n from \<and> connected n to"

subsection \<open>Calls in progress\<close>

text \<open>
  A call is a request on its way to the handler or a reply on its way back; the
  reply of an AppendEntries call comes with the arguments its goroutine still holds,
  the reply of a RequestVote call with the captured \<^verbatim>\<open>term\<close>.
\<close>

datatype 'c msg =
  VoteReq int int RequestVoteArgs
| VoteRep int int int RequestVoteReply
| AppReq int int "'c AppendEntriesArgs"
| AppRep int int "'c AppendEntriesArgs" AppendEntriesReply

fun msg_caller :: "'c msg \<Rightarrow> int" where
  "msg_caller (VoteReq f t args) = f"
| "msg_caller (VoteRep f t tm reply) = f"
| "msg_caller (AppReq f t args) = f"
| "msg_caller (AppRep f t args reply) = f"

fun msg_callee :: "'c msg \<Rightarrow> int" where
  "msg_callee (VoteReq f t args) = t"
| "msg_callee (VoteRep f t tm reply) = t"
| "msg_callee (AppReq f t args) = t"
| "msg_callee (AppRep f t args reply) = t"

fun is_request :: "'c msg \<Rightarrow> bool" where
  "is_request (VoteReq f t args) = True"
| "is_request (AppReq f t args) = True"
| "is_request _ = False"

text \<open>The program counter of the goroutine \<^verbatim>\<open>electionTicker\<close>.\<close>

datatype ticker = TkLoop | TkSleep | TkFire | TkDone

record 'c cluster =
  cNodes :: "int \<Rightarrow> 'c Raft"
  cTicker :: "int \<Rightarrow> ticker"
  cVotes :: "int \<Rightarrow> int \<Rightarrow> int"
  cWire :: "(bool \<times> 'c msg) list"
  cNet :: Network
  cApply :: "int \<Rightarrow> 'c ApplyMsg list"

text \<open>\<^verbatim>\<open>Make\<close> for every server of the group.\<close>

definition Make_cluster :: "int list \<Rightarrow> (int \<Rightarrow> draw) \<Rightarrow> 'c cluster" where
  "Make_cluster ps ds =
     \<lparr>cNodes = (\<lambda>n. newRaft (ds n) n ps), cTicker = (\<lambda>_. TkLoop), cVotes = (\<lambda>_ _. 0),
      cWire = [], cNet = foldl (\<lambda>nw p. AddServer p nw) MakeNetwork ps, cApply = (\<lambda>_. [])\<rparr>"

datatype 'c event =
  EvTick int int draw
| EvSend int int
| EvAdmit nat int
| EvHandle nat draw draw
| EvReturn nat
| EvReply nat draw
| EvStart int 'c
| EvApply int
| EvKill int
| EvConnect int
| EvDisconnect int
| EvReliable bool
| EvLongDelay bool

definition set_node :: "int \<Rightarrow> 'c Raft \<Rightarrow> 'c cluster \<Rightarrow> 'c cluster" where
  "set_node n rf s = s\<lparr>cNodes := (cNodes s)(n := rf)\<rparr>"

definition drop_call :: "nat \<Rightarrow> 'c cluster \<Rightarrow> 'c cluster" where
  "drop_call k s = s\<lparr>cWire := take k (cWire s) @ drop (Suc k) (cWire s)\<rparr>"

text \<open>One action of \<^verbatim>\<open>electionTicker\<close>: loop test, poll after the sleep, \<^verbatim>\<open>startElection\<close>.\<close>

definition step_tick :: "int \<Rightarrow> int \<Rightarrow> draw \<Rightarrow> 'c cluster \<Rightarrow> 'c cluster option" where
  "step_tick n now d s =
     (case cTicker s n of
        TkLoop \<Rightarrow> Some (s\<lparr>cTicker := (cTicker s)
                    (n := (if isKilled (cNodes s n) then TkDone else TkSleep))\<rparr>)
      | TkSleep \<Rightarrow> Some (s\<lparr>cTicker := (cTicker s)
                    (n := (if electionTicker now (cNodes s n) then TkFire else TkLoop))\<rparr>)
      | TkFire \<Rightarrow> do {
          (rf, reqs) \<leftarrow> startElection d (cNodes s n);
          Some (s\<lparr>cNodes := (cNodes s)(n := rf), cTicker := (cTicker s)(n := TkLoop),
                  cVotes := (cVotes s)(n := (cVotes s n)(currentTerm rf := 1)),
                  cWire := cWire s @ map (\<lambda>(p, args). (False, VoteReq n p args)) reqs\<rparr>)
        }
      | TkDone \<Rightarrow> Some s)"

text \<open>The first half of \<^verbatim>\<open>sendAppendEntriesTo(peer, term)\<close> in the server's current term.\<close>

definition step_send :: "int \<Rightarrow> int \<Rightarrow> 'c cluster \<Rightarrow> 'c cluster option" where
  "step_send n p s =
     (if p \<in> set (broadcastAppendEntries (cNodes s n))
      then do {
        r \<leftarrow> sendAppendEntriesTo p (currentTerm (cNodes s n)) (cNodes s n);
        (case r of
           None \<Rightarrow> Some s
         | Some args \<Rightarrow> Some (s\<lparr>cWire := cWire s @ [(False, AppReq n p args)]\<rparr>))
      }
      else Some s)"

text \<open>The admission checks of a request, and the check after the handler for a reply.\<close>

definition step_admit :: "nat \<Rightarrow> int \<Rightarrow> 'c cluster \<Rightarrow> 'c cluster option" where
  "step_admit k rnd s =
     (if k < length (cWire s) \<and> \<not> fst (cWire s ! k) \<and> is_request (snd (cWire s ! k))
      then (let m = snd (cWire s ! k) in
            if Call_admit rnd (msg_caller m) (msg_callee m) (cNet s)
            then Some (s\<lparr>cWire := (cWire s)[k := (True, m)]\<rparr>)
            else Some (drop_call k s))
      else Some s)"

definition step_return :: "nat \<Rightarrow> 'c cluster \<Rightarrow> 'c cluster option" where
  "step_return k s =
     (if k < length (cWire s) \<and> \<not> fst (cWire s ! k) \<and> \<not> is_request (snd (cWire s ! k))
      then (let m = snd (cWire s ! k) in
            if Call_return (msg_caller m) (msg_callee m) (cNet s)
            then Some (s\<lparr>cWire := (cWire s)[k := (True, m)]\<rparr>)
            else Some (drop_call k s))
      else Some s)"

text \<open>The handler of an admitted request, \<^verbatim>\<open>simTransport\<close>'s closures.\<close>

definition step_handle :: "nat \<Rightarrow> draw \<Rightarrow> draw \<Rightarrow> 'c cluster \<Rightarrow> 'c cluster option" where
  "step_handle k d1 d2 s =
     (if k < length (cWire s) \<and> fst (cWire s ! k)
      then (case snd (cWire s ! k) of
              VoteReq f t args \<Rightarrow> do {
                (rf, reply) \<leftarrow> RequestVote d1 d2 args (cNodes s t);
                Some (set_node t rf
                  (s\<lparr>cWire := (cWire s)[k := (False, VoteRep f t (rvTerm args) reply)]\<rparr>))
              }
            | AppReq f t args \<Rightarrow> do {
                (rf, reply) \<leftarrow> AppendEntries d1 d2 args (cNodes s t);
                Some (set_node t rf
                  (s\<lparr>cWire := (cWire s)[k := (False, AppRep f t args reply)]\<rparr>))
              }
            | _ \<Rightarrow> Some s)
      else Some s)"

text \<open>The caller's critical section for a returned reply.\<close>

definition step_reply :: "nat \<Rightarrow> draw \<Rightarrow> 'c cluster \<Rightarrow> 'c cluster option" where
  "step_reply k d s =
     (if k < length (cWire s) \<and> fst (cWire s ! k)
      then (case snd (cWire s ! k) of
              VoteRep c p term reply \<Rightarrow> do {
                (rf, v) \<leftarrow> handleVoteReply d term reply (cVotes s c term) (cNodes s c);
                Some (set_node c rf (drop_call k
                  (s\<lparr>cVotes := (cVotes s)(c := (cVotes s c)(term := v))\<rparr>)))
              }
            | AppRep l p args reply \<Rightarrow> do {
                rf \<leftarrow> handleAppendReply d p args reply (cNodes s l);
                Some (set_node l rf (drop_call k s))
              }
            | _ \<Rightarrow> Some s)
      else Some s)"

definition step_start :: "int \<Rightarrow> 'c \<Rightarrow> 'c cluster \<Rightarrow> 'c cluster option" where
  "step_start n c s = do {
     (rf, _) \<leftarrow> Start c (cNodes s n);
     Some (set_node n rf s)
   }"

definition step_apply :: "int \<Rightarrow> 'c cluster \<Rightarrow> 'c cluster option" where
  "step_apply n s = do {
     (rf, msgs) \<leftarrow> applyTicker (cNodes s n);
     Some (set_node n rf (s\<lparr>cApply := (cApply s)(n := cApply s n @ msgs)\<rparr>))
   }"

fun cstep :: "int list \<Rightarrow> 'c event \<Rightarrow> 'c cluster \<Rightarrow> 'c cluster option" where
  "cstep ps (EvTick n now d) s = (if n \<in> set ps then step_tick n now d s else Some s)"
| "cstep ps (EvSend n p) s = (if n \<in> set ps then step_send n p s else Some s)"
| "cstep ps (EvAdmit k rnd) s = step_admit k rnd s"
| "cstep ps (EvHandle k d1 d2) s = step_handle k d1 d2 s"
| "cstep ps (EvReturn k) s = step_return k s"
| "cstep ps (EvReply k d) s = step_reply k d s"
| "cstep ps (EvStart n c) s = (if n \<in> set ps then step_start n c s else Some s)"
| "cstep ps (EvApply n) s = (if n \<in> set ps then step_apply n s else Some s)"
| "cstep ps (EvKill n) s =
     (if n \<in> set ps then Some (set_node n (Kill (cNodes s n)) s) else Some s)"
| "cstep ps (EvConnect n) s = Some (s\<lparr>cNet := Connect n (cNet s)\<rparr>)"
| "cstep ps (EvDisconnect n) s = Some (s\<lparr>cNet := Disconnect n (cNet s)\<rparr>)"
| "cstep ps (EvReliable r) s = Some (s\<lparr>cNet := SetReliable r (cNet s)\<rparr>)"
| "cstep ps (EvLongDelay l) s = Some (s\<lparr>cNet := SetLongDelay l (cNet s)\<rparr>)"

text \<open>A run: the state after a sequence of events, \<^const>\<open>None\<close> if a server panicked.\<close>

fun crun :: "int list \<Rightarrow> 'c event list \<Rightarrow> 'c cluster \<Rightarrow> 'c cluster option" where
  "crun ps [] s = Some s"
| "crun ps (ev # evs) s = do { s' \<leftarrow> cstep ps ev s; crun ps evs s' }"

end
