(* ===== verification/Raft_Refinement.thy ===== *)
theory Raft_Refinement
  imports Raft_Protocol Raft_Cluster
begin

text \<open>
  The cluster of \<open>Raft_Cluster\<close> implements the protocol of \<open>Raft_Protocol\<close>: a
  simulation relation between cluster states and protocol states, one lemma per
  handler, and the facts the properties of the cluster rest on. Every event of a
  reachable cluster succeeds (no server panics) and is a sequence of protocol steps.
\<close>

subsection \<open>Handlers on well-formed logs\<close>

lemma wf_log_nth:
  assumes "wf_log xs" "i < length xs"
  shows "leIndex (xs ! i) = int i" "0 < i \<Longrightarrow> 0 < leTerm (xs ! i)"
  using assms by (auto simp: wf_log_def)

lemma wf_log_last:
  assumes "wf_log xs"
  shows "xs \<noteq> []" "0 < length xs" "go_last xs = Some (last xs)" "leIndex (last xs) = int (length xs) - 1"
proof -
  show ne: "xs \<noteq> []" using assms by (simp add: wf_log_def)
  then show "0 < length xs" "go_last xs = Some (last xs)" by (simp_all add: go_last_nonempty)
  show "leIndex (last xs) = int (length xs) - 1"
    using wf_log_nth(1) [OF assms, of "length xs - 1"] ne by (simp add: last_conv_nth of_nat_diff Suc_leI)
qed

lemma truncLoop_beyond:
  "wf_log xs \<Longrightarrow> length xs \<le> k \<Longrightarrow> truncLoop xs (int k) es = Some xs"
proof (induction es arbitrary: k)
  case (Cons e es)
  then show ?case using Cons.IH [of "Suc k"] by (simp add: wf_log_last algebra_simps)
qed simp

text \<open>
  The first loop of \<^verbatim>\<open>AppendEntries\<close> keeps a log that already contains the
  leader's entries, and otherwise cuts it back to a prefix of the leader's log.
\<close>

lemma truncLoop_merge:
  assumes "wf_log xs" "0 < k" "k \<le> length xs" "take k xs = take k es"
    and "\<And>i. i < length xs \<Longrightarrow> i < length es \<Longrightarrow> leTerm (xs ! i) = leTerm (es ! i) \<Longrightarrow>
      take (Suc i) xs = take (Suc i) es"
  shows "\<exists>ys. truncLoop xs (int k) (drop k es) = Some ys \<and>
    (if prefix es xs then ys = xs else prefix ys es \<and> k \<le> length ys)"
  using assms(2-4)
proof (induction "length es - k" arbitrary: k)
  case 0
  then have "es = take k xs" by simp
  then have "prefix es xs" by (metis take_is_prefix)
  then show ?case using 0 by simp
next
  case (Suc m)
  then have k: "k < length es" by simp
  show ?case
  proof (cases "k < length xs")
    case False
    then have "xs = take k es" using Suc.prems by simp
    then have "prefix xs es" "\<not> prefix es xs"
      using False k by (metis take_is_prefix, auto dest: prefix_length_le)
    then show ?thesis using truncLoop_beyond [OF assms(1), of k] False Suc by simp
  next
    case in_xs: True
    note step = Cons_nth_drop_Suc [OF k, symmetric]
    show ?thesis
    proof (cases "leTerm (xs ! k) = leTerm (es ! k)")
      case True
      then have "take (Suc k) xs = take (Suc k) es" using assms(5) in_xs k by blast
      then obtain ys where ys: "truncLoop xs (int (Suc k)) (drop (Suc k) es) = Some ys"
          "if prefix es xs then ys = xs else prefix ys es \<and> Suc k \<le> length ys"
        using Suc.hyps(1) [of "Suc k"] Suc.hyps(2) in_xs k by (metis Suc_diff_Suc Suc_inject Suc_leI zero_less_Suc)
      have "truncLoop xs (int k) (drop k es) = Some ys" using True in_xs ys(1) unfolding step
        by (simp add: wf_log_last [OF assms(1)] add.commute)
      then show ?thesis using ys(2) by (cases "prefix es xs") auto
    next
      case False
      then have "\<not> prefix es xs" using prefix_nth [of es xs k] k by auto
      moreover have "prefix (take k xs) es" using Suc.prems(3) by (metis take_is_prefix)
      ultimately show ?thesis using False in_xs unfolding step
        by (simp add: wf_log_last [OF assms(1)] go_nth_of_nat)
    qed
  qed
qed

lemma appendLoop_within:
  "wf_log xs \<Longrightarrow> k + length es \<le> length xs \<Longrightarrow> appendLoop xs (int k) es = Some xs"
proof (induction es arbitrary: k)
  case (Cons e es)
  then show ?case using Cons.IH [of "Suc k"] by (simp add: wf_log_last algebra_simps)
qed simp

lemma appendLoop_extend:
  assumes "wf_log es"
  shows "prefix ys es \<Longrightarrow> ys \<noteq> [] \<Longrightarrow> k \<le> length ys \<Longrightarrow> appendLoop ys (int k) (drop k es) = Some es"
proof (induction "length es - k" arbitrary: k ys)
  case 0
  then have "ys = take (length ys) es" "length es \<le> length ys"
    by (metis append_eq_conv_conj prefixE, simp)
  then have "ys = es" by simp
  then show ?case using 0 by simp
next
  case (Suc m)
  then have k: "k < length es" by simp
  have wf: "wf_log ys" using Suc.prems wf_log_prefix assms by blast
  note step = Cons_nth_drop_Suc [OF k, symmetric]
  show ?case
  proof (cases "k < length ys")
    case True
    then show ?thesis using Suc.hyps(1) [of "Suc k" ys] Suc.hyps(2) Suc.prems unfolding step
      by (simp add: wf_log_last [OF wf] algebra_simps)
  next
    case False
    then have k_eq: "k = length ys" using Suc.prems by simp
    have "prefix (ys @ [es ! k]) es"
      using Suc.prems(1) k unfolding k_eq by (metis append_one_prefix)
    then show ?thesis using Suc.hyps(1) [of "Suc k" "ys @ [es ! k]"] Suc.hyps(2) k_eq unfolding step
      by (simp add: wf_log_last [OF wf] algebra_simps)
  qed
qed

text \<open>
  Both loops together: the follower's log is kept when it extends what the leader
  sent, and becomes the leader's otherwise.
\<close>

lemma ae_merge:
  assumes "wf_log xs" "wf_log es" "p < length xs" "take (Suc p) xs = take (Suc p) es"
    and "\<And>i. i < length xs \<Longrightarrow> i < length es \<Longrightarrow> leTerm (xs ! i) = leTerm (es ! i) \<Longrightarrow>
      take (Suc i) xs = take (Suc i) es"
  shows "\<exists>ys. truncLoop xs (int p + 1) (drop (Suc p) es) = Some ys
    \<and> appendLoop ys (int p + 1) (drop (Suc p) es) = Some (if prefix es xs then xs else es)"
proof -
  obtain ys where ys: "truncLoop xs (int (Suc p)) (drop (Suc p) es) = Some ys"
      "if prefix es xs then ys = xs else prefix ys es \<and> Suc p \<le> length ys"
    using truncLoop_merge [OF assms(1), of "Suc p" es] assms(3-5) by auto
  have "appendLoop ys (int (Suc p)) (drop (Suc p) es) = Some (if prefix es xs then xs else es)"
  proof (cases "prefix es xs")
    case True
    moreover have "Suc p + length (drop (Suc p) es) \<le> length xs"
      using True prefix_length_le [OF True] assms(3) by simp
    ultimately show ?thesis using appendLoop_within [OF assms(1), of "Suc p"] ys(2) by simp
  next
    case False
    then show ?thesis using appendLoop_extend [OF assms(2), of ys "Suc p"] ys(2) by fastforce
  qed
  then show ?thesis using ys(1) by (auto simp: algebra_simps)
qed

subsection \<open>The simulation relation\<close>

definition vote_of :: "'c pstate \<Rightarrow> int \<Rightarrow> int" where
  "vote_of a n = (case pVote a n (pTerm a n) of None \<Rightarrow> -1 | Some (c, _) \<Rightarrow> c)"

text \<open>The maps of a leader: every next index is in range, every match index was acknowledged.\<close>

definition leader_ok :: "'c pstate \<Rightarrow> int \<Rightarrow> 'c Raft \<Rightarrow> bool" where
  "leader_ok a n rf \<longleftrightarrow> nextIndex rf \<noteq> None \<and> matchIndex rf \<noteq> None
     \<and> (\<forall>p \<in> set (peers rf). p \<noteq> n \<longrightarrow>
          1 \<le> gomap_get (nextIndex rf) p \<and> gomap_get (nextIndex rf) p \<le> int (length (rlog rf))
          \<and> (0 < gomap_get (matchIndex rf) p \<longrightarrow>
               (p, pTerm a n, nat (gomap_get (matchIndex rf) p)) \<in> pAck a))"

definition node_ok :: "int list \<Rightarrow> 'c pstate \<Rightarrow> int \<Rightarrow> 'c Raft \<Rightarrow> bool" where
  "node_ok ps a n rf \<longleftrightarrow> me rf = n \<and> peers rf = ps \<and> currentTerm rf = pTerm a n
     \<and> rlog rf = pLog a n \<and> votedFor rf = vote_of a n
     \<and> commitIndex rf = int (pCommit a n) \<and> 0 \<le> lastApplied rf \<and> lastApplied rf \<le> commitIndex rf
     \<and> (rstate rf = Leader \<longleftrightarrow> pLead a (pTerm a n) = Some n)
     \<and> (rstate rf = Candidate \<longrightarrow> pCand a n (pTerm a n) = Some (pLog a n))
     \<and> (rstate rf = Leader \<longrightarrow> leader_ok a n rf)"

text \<open>What a leader sends: its whole log \<open>es\<close> from some index on, with a justified commit index.\<close>

definition append_ok :: "int list \<Rightarrow> 'c pstate \<Rightarrow> 'c AppendEntriesArgs \<Rightarrow> 'c rlog \<Rightarrow> bool" where
  "append_ok ps a args es \<longleftrightarrow> es \<noteq> [] \<and> prefix es (pLLog a (aeTerm args))
     \<and> 0 \<le> aePrevLogIndex args \<and> nat (aePrevLogIndex args) < length es
     \<and> aePrevLogTerm args = leTerm (es ! nat (aePrevLogIndex args))
     \<and> aeEntries args = drop (Suc (nat (aePrevLogIndex args))) es
     \<and> 0 \<le> aeLeaderCommit args \<and> nat (aeLeaderCommit args) < length es
     \<and> (aeLeaderCommit args = 0 \<or> (\<exists>t i. chosen (set ps) a t i \<and> nat (aeLeaderCommit args) \<le> i
           \<and> t \<le> aeTerm args
           \<and> take (Suc (nat (aeLeaderCommit args))) es = take (Suc (nat (aeLeaderCommit args))) (pLLog a t)))"

text \<open>
  What a follower answers: a success acknowledges the last entry sent, a rejection
  names a later term or an index at or below the probed one and a term that the
  leader's log does not have from the probed index on.
\<close>

definition reply_ok :: "'c pstate \<Rightarrow> int \<Rightarrow> 'c AppendEntriesArgs \<Rightarrow> AppendEntriesReply \<Rightarrow> bool" where
  "reply_ok a p args reply \<longleftrightarrow>
     (let T = aeTerm args; prev = aePrevLogIndex args; l = prev + int (length (aeEntries args)) in
      0 \<le> prev \<and> nat l < length (pLLog a T)
      \<and> (if aerSuccess reply then (p, T, nat l) \<in> pAck a
         else T < aerTerm reply
           \<or> (1 \<le> aerConflictIndex reply \<and> aerConflictIndex reply \<le> prev \<and> aerConflictTerm reply \<noteq> T
              \<and> (\<forall>i. nat prev \<le> i \<longrightarrow> i < length (pLLog a T) \<longrightarrow>
                    leTerm (pLLog a T ! i) \<noteq> aerConflictTerm reply))))"

fun msg_ok :: "int list \<Rightarrow> 'c pstate \<Rightarrow> 'c msg \<Rightarrow> bool" where
  "msg_ok ps a (VoteReq c p args) \<longleftrightarrow> p \<in> set ps \<and> p \<noteq> c \<and> rvCandidateId args = c
     \<and> (\<exists>cl. pCand a c (rvTerm args) = Some cl
         \<and> rvLastLogIndex args = leIndex (last cl) \<and> rvLastLogTerm args = leTerm (last cl))"
| "msg_ok ps a (VoteRep c p t reply) \<longleftrightarrow> pCand a c t \<noteq> None
     \<and> (rvrVoteGranted reply \<longrightarrow> (\<exists>vl. pVote a p t = Some (c, vl)))"
| "msg_ok ps a (AppReq l p args) \<longleftrightarrow> p \<in> set ps \<and> p \<noteq> l \<and> pLead a (aeTerm args) = Some l
     \<and> (\<exists>es. append_ok ps a args es)"
| "msg_ok ps a (AppRep l p args reply) \<longleftrightarrow> p \<in> set ps \<and> p \<noteq> l \<and> pLead a (aeTerm args) = Some l
     \<and> reply_ok a p args reply"

text \<open>The votes still under way: candidate, term and voter of every vote call in progress.\<close>

fun vote_key :: "'c msg \<Rightarrow> (int \<times> int \<times> int) list" where
  "vote_key (VoteReq c p args) = [(c, rvTerm args, p)]"
| "vote_key (VoteRep c p t reply) = [(c, t, p)]"
| "vote_key _ = []"

definition vote_keys :: "(bool \<times> 'c msg) list \<Rightarrow> (int \<times> int \<times> int) list" where
  "vote_keys w = concat (map (\<lambda>x. vote_key (snd x)) w)"

definition votes_ok :: "'c pstate \<Rightarrow> 'c cluster \<Rightarrow> bool" where
  "votes_ok a s \<longleftrightarrow> (\<forall>c t. cVotes s c t = int (card (pGrant a c t)))
     \<and> distinct (vote_keys (cWire s)) \<and> (\<forall>c t p. (c, t, p) \<in> set (vote_keys (cWire s)) \<longrightarrow> p \<notin> pGrant a c t)"

text \<open>The messages a server has handed to its state machine.\<close>

definition applied_of :: "'c rlog \<Rightarrow> 'c ApplyMsg list" where
  "applied_of xs = map (\<lambda>e. \<lparr>amCommandValid = True, amCommand = leCommand e, amCommandIndex = leIndex e\<rparr>)
     (filter (\<lambda>e. leCommand e \<noteq> None) xs)"

definition apply_ok :: "'c Raft \<Rightarrow> 'c ApplyMsg list \<Rightarrow> bool" where
  "apply_ok rf msgs \<longleftrightarrow> msgs = applied_of (take (Suc (nat (lastApplied rf))) (rlog rf))"

definition sim :: "int list \<Rightarrow> 'c cluster \<Rightarrow> 'c pstate \<Rightarrow> bool" where
  "sim ps s a \<longleftrightarrow> pinv (set ps) a \<and> (\<forall>n. node_ok ps a n (cNodes s n)) \<and> votes_ok a s
     \<and> (\<forall>x \<in> set (cWire s). msg_ok ps a (snd x)) \<and> (\<forall>n. apply_ok (cNodes s n) (cApply s n))"

subsection \<open>Steps of one server leave the others alone\<close>

definition pframe :: "int \<Rightarrow> 'c pstate \<Rightarrow> 'c pstate \<Rightarrow> bool" where
  "pframe n a b \<longleftrightarrow> (\<forall>m. m \<noteq> n \<longrightarrow> pTerm b m = pTerm a m \<and> pLog b m = pLog a m \<and> pVote b m = pVote a m
     \<and> pCommit b m = pCommit a m \<and> (\<forall>t. pLead b t = Some m \<longleftrightarrow> pLead a t = Some m))"

lemma pframe_refl [simp]: "pframe n a a"
  by (simp add: pframe_def)

lemma pframe_trans: "pframe n a b \<Longrightarrow> pframe n b c \<Longrightarrow> pframe n a c"
  by (simp add: pframe_def)

lemma leader_ok_mono:
  "leader_ok a n rf \<Longrightarrow> pext a b \<Longrightarrow> pTerm b n = pTerm a n \<Longrightarrow> leader_ok b n rf"
  unfolding leader_ok_def pext_def by (metis subsetD)

lemma node_ok_frame:
  assumes "node_ok ps a m rf" "pframe n a b" "m \<noteq> n" "pext a b"
  shows "node_ok ps b m rf"
proof -
  have eq: "pTerm b m = pTerm a m" "pLog b m = pLog a m" "pVote b m = pVote a m" "pCommit b m = pCommit a m"
    "\<And>t. pLead b t = Some m \<longleftrightarrow> pLead a t = Some m"
    using assms(2,3) by (auto simp: pframe_def)
  have "pCand b m t = Some cl" if "pCand a m t = Some cl" for t cl
    using that assms(4) by (simp add: pext_def)
  then show ?thesis
    using assms(1) leader_ok_mono [OF _ assms(4), of m rf] eq by (auto simp: node_ok_def vote_of_def)
qed

text \<open>A server moves from \<open>rf\<close> to \<open>rf'\<close> while the protocol moves from \<open>a\<close> to \<open>b\<close>.\<close>

definition nstep :: "int list \<Rightarrow> int \<Rightarrow> 'c pstate \<Rightarrow> 'c Raft \<Rightarrow> 'c pstate \<Rightarrow> 'c Raft \<Rightarrow> bool" where
  "nstep ps n a rf b rf' \<longleftrightarrow> (pstep (set ps))\<^sup>*\<^sup>* a b \<and> pframe n a b \<and> pGrant b = pGrant a
     \<and> node_ok ps b n rf' \<and> lastApplied rf' = lastApplied rf
     \<and> take (Suc (nat (lastApplied rf))) (rlog rf') = take (Suc (nat (lastApplied rf))) (rlog rf)"

lemma nstep_trans:
  "nstep ps n a rf b rf' \<Longrightarrow> nstep ps n b rf' c rf'' \<Longrightarrow> nstep ps n a rf c rf''"
  unfolding nstep_def using pframe_trans by (metis rtranclp_trans)

lemma nstep_refl: "node_ok ps a n rf \<Longrightarrow> nstep ps n a rf a rf"
  by (simp add: nstep_def)

text \<open>One protocol step that keeps \<open>lastApplied\<close> keeps the applied prefix.\<close>

lemma nstepI:
  assumes "pinv (set ps) a" "node_ok ps a n rf" "pstep (set ps) a b" "pframe n a b" "pGrant b = pGrant a"
    and "node_ok ps b n rf'" "lastApplied rf' = lastApplied rf"
  shows "nstep ps n a rf b rf'"
proof -
  have "rlog rf = pLog a n" "rlog rf' = pLog b n" "Suc (nat (lastApplied rf)) \<le> Suc (pCommit a n)"
    using assms(2,6) by (auto simp: node_ok_def)
  then have "take (Suc (nat (lastApplied rf))) (rlog rf') = take (Suc (nat (lastApplied rf))) (rlog rf)"
    using take_eq_take_le [OF step_keeps_committed [OF assms(1,3), of n]] by simp
  then show ?thesis using assms by (auto simp: nstep_def)
qed

text \<open>Messages stay justified while the history grows.\<close>

lemma append_ok_mono:
  assumes "pext a b" "pLead a (aeTerm args) \<noteq> None" "append_ok ps a args es"
  shows "append_ok ps b args es"
proof -
  let ?k = "nat (aeLeaderCommit args)"
  have "prefix es (pLLog b (aeTerm args))"
    using assms unfolding append_ok_def pext_def by (meson not_None_eq prefix_order.trans)
  moreover have "\<exists>t i. chosen (set ps) b t i \<and> ?k \<le> i \<and> t \<le> aeTerm args
      \<and> take (Suc ?k) es = take (Suc ?k) (pLLog b t)" if nz: "aeLeaderCommit args \<noteq> 0"
  proof -
    obtain t i where ti: "chosen (set ps) a t i" "?k \<le> i" "t \<le> aeTerm args"
        "take (Suc ?k) es = take (Suc ?k) (pLLog a t)"
      using assms(3) nz unfolding append_ok_def by blast
    then have "take (Suc ?k) (pLLog b t) = take (Suc ?k) (pLLog a t)"
      by (intro pext_llog_take [OF assms(1)]) (auto simp: chosen_def)
    then show ?thesis using ti chosen_mono [OF assms(1) ti(1)] by metis
  qed
  ultimately show ?thesis using assms(3) unfolding append_ok_def by blast
qed

lemma llog_new_terms:
  assumes "pinv S a" "pinv S b" "pext a b" "pLead a t = Some c"
    and "length (pLLog a t) \<le> i" "i < length (pLLog b t)"
  shows "leTerm (pLLog b t ! i) = t"
proof -
  obtain cl where "pCand a c t = Some cl" "length cl < length (pLLog a t)"
    using pinv_leadD(7) [OF assms(1,4)] by blast
  moreover have "pLead b t = Some c" "pCand b c t = pCand a c t"
    using assms(3,4) calculation by (auto simp: pext_def)
  ultimately show ?thesis using pinv_leadD(7) [OF assms(2), of t c] assms(5,6) by auto
qed

lemma reply_ok_mono:
  assumes "pinv S a" "pinv S b" "pext a b" "pLead a (aeTerm args) \<noteq> None" "reply_ok a p args reply"
  shows "reply_ok b p args reply"
proof -
  let ?T = "aeTerm args"
  have len: "length (pLLog a ?T) \<le> length (pLLog b ?T)" "pAck a \<subseteq> pAck b"
    using assms(3) pext_llog_length [OF assms(3,4)] by (simp_all add: pext_def)
  have "leTerm (pLLog b ?T ! i) \<noteq> aerConflictTerm reply"
    if "aerConflictTerm reply \<noteq> ?T" "nat (aePrevLogIndex args) \<le> i" "i < length (pLLog b ?T)"
      "\<forall>i. nat (aePrevLogIndex args) \<le> i \<longrightarrow> i < length (pLLog a ?T) \<longrightarrow>
          leTerm (pLLog a ?T ! i) \<noteq> aerConflictTerm reply" for i
    using that llog_new_terms [OF assms(1-3), of ?T _ i] pext_llog_nth [OF assms(3,4), of i] assms(4)
    by (metis not_None_eq not_le)
  then show ?thesis using assms(5) len unfolding reply_ok_def Let_def by (auto split: if_splits)
qed

lemma msg_ok_mono:
  assumes "pinv (set ps) a" "pinv (set ps) b" "pext a b" "msg_ok ps a m"
  shows "msg_ok ps b m"
proof (cases m)
  case (VoteReq c p args)
  then show ?thesis using assms(3,4) by (auto simp: pext_def)
next
  case (VoteRep c p t reply)
  then show ?thesis using assms(3,4) by (auto simp: pext_def)
next
  case (AppReq l p args)
  moreover have "pLead b (aeTerm args) = Some l" using AppReq assms(3,4) by (simp add: pext_def)
  ultimately show ?thesis using assms(4) append_ok_mono [OF assms(3), of args ps] by auto
next
  case (AppRep l p args reply)
  moreover have "pLead b (aeTerm args) = Some l" using AppRep assms(3,4) by (simp add: pext_def)
  ultimately show ?thesis using assms(4) reply_ok_mono [OF assms(1-3), of args p reply] by simp
qed

text \<open>
  The assembly: one server moved with the protocol, the calls in progress are
  justified and the vote counters are right.
\<close>

lemma sim_update:
  assumes "sim ps s a" "(pstep (set ps))\<^sup>*\<^sup>* a b" "pframe n a b" "node_ok ps b n (cNodes s' n)"
    and "\<And>m. m \<noteq> n \<Longrightarrow> cNodes s' m = cNodes s m \<and> cApply s' m = cApply s m"
    and "apply_ok (cNodes s' n) (cApply s' n)" "votes_ok b s'"
    and "\<And>x. x \<in> set (cWire s') \<Longrightarrow> x \<in> set (cWire s) \<or> snd x \<in> snd ` set (cWire s) \<or> msg_ok ps b (snd x)"
  shows "sim ps s' b"
proof -
  have inv: "pinv (set ps) a" using assms(1) by (simp add: sim_def)
  have b: "pinv (set ps) b" "pext a b" using psteps_inv [OF assms(2) inv] by auto
  have "node_ok ps b m (cNodes s' m)" for m
    using assms(1,4,5) node_ok_frame [OF _ assms(3) _ b(2)] by (cases "m = n") (auto simp: sim_def)
  moreover have "apply_ok (cNodes s' m) (cApply s' m)" for m
    using assms(1,5,6) by (cases "m = n") (auto simp: sim_def)
  moreover have "msg_ok ps b (snd x)" if "x \<in> set (cWire s')" for x
    using assms(8) [OF that] msg_ok_mono [OF inv b] assms(1) by (auto simp: sim_def)
  ultimately show ?thesis using b(1) assms(7) by (simp add: sim_def)
qed

subsection \<open>Voting\<close>

lemma node_okD:
  assumes "node_ok ps a n rf"
  shows "me rf = n" "peers rf = ps" "currentTerm rf = pTerm a n" "rlog rf = pLog a n"
    "votedFor rf = vote_of a n" "commitIndex rf = int (pCommit a n)"
    "0 \<le> lastApplied rf" "lastApplied rf \<le> int (pCommit a n)"
    "rstate rf = Leader \<longleftrightarrow> pLead a (pTerm a n) = Some n"
    "rstate rf = Candidate \<Longrightarrow> pCand a n (pTerm a n) = Some (pLog a n)"
    "rstate rf = Leader \<Longrightarrow> leader_ok a n rf"
  using assms by (auto simp: node_ok_def)

lemma node_log:
  assumes "pinv S a" "node_ok ps a n rf"
  shows "wf_log (rlog rf)" "go_last (rlog rf) = Some (last (rlog rf))"
    "leIndex (last (rlog rf)) = int (length (rlog rf)) - 1"
    "lastLogInfo rf = Some (int (length (rlog rf)) - 1, leTerm (last (rlog rf)))"
proof -
  show wf: "wf_log (rlog rf)" using pinv_logD(1) [OF assms(1)] node_okD(4) [OF assms(2)] by simp
  note wf_log_last [OF wf]
  then show "go_last (rlog rf) = Some (last (rlog rf))" "leIndex (last (rlog rf)) = int (length (rlog rf)) - 1"
    "lastLogInfo rf = Some (int (length (rlog rf)) - 1, leTerm (last (rlog rf)))"
    by (simp_all add: lastLogInfo_def)
qed

lemma node_ok_timer:
  "node_ok ps a n (resetElectionTimer d rf) \<longleftrightarrow> node_ok ps a n rf"
  by (simp add: node_ok_def resetElectionTimer_def leader_ok_def)

lemma timer_simps [simp]:
  "currentTerm (resetElectionTimer d rf) = currentTerm rf" "rlog (resetElectionTimer d rf) = rlog rf"
  "votedFor (resetElectionTimer d rf) = votedFor rf" "me (resetElectionTimer d rf) = me rf"
  "peers (resetElectionTimer d rf) = peers rf" "rstate (resetElectionTimer d rf) = rstate rf"
  "commitIndex (resetElectionTimer d rf) = commitIndex rf"
  "lastApplied (resetElectionTimer d rf) = lastApplied rf"
  by (simp_all add: resetElectionTimer_def)

lemma nstep_timer: "nstep ps n a rf b rf' \<Longrightarrow> nstep ps n a rf b (resetElectionTimer d rf')"
  by (simp add: nstep_def node_ok_timer)

lemma lead_future: "pinv S a \<Longrightarrow> pTerm a n < t \<Longrightarrow> pLead a t \<noteq> Some n"
  using pinv_leadD(1) [of S a t n] by auto

lemma becomeFollower_nstep:
  assumes inv: "pinv (set ps) a" and ok: "node_ok ps a n rf" and n: "n \<in> set ps" and t: "pTerm a n < t"
  shows "\<exists>b. nstep ps n a rf b (becomeFollower d t rf) \<and> pTerm b n = t"
proof -
  let ?b = "a\<lparr>pTerm := (pTerm a)(n := t)\<rparr>"
  have "node_ok ps ?b n (becomeFollower d t rf)"
    using ok pinv_futureD(2) [OF inv t] lead_future [OF inv t]
    by (auto simp: node_ok_def becomeFollower_def vote_of_def resetElectionTimer_def)
  then have "nstep ps n a rf ?b (becomeFollower d t rf)"
    by (intro nstepI [OF inv ok bump [OF n t]]) (auto simp: pframe_def becomeFollower_def)
  then show ?thesis by (intro exI [of _ ?b]) simp
qed

text \<open>The common start of both handlers: catch up with a later term.\<close>

lemma catch_up_nstep:
  assumes inv: "pinv (set ps) a" and ok: "node_ok ps a n rf" and n: "n \<in> set ps"
  obtains b where "nstep ps n a rf b (if t > currentTerm rf then becomeFollower d t rf else rf)"
    "pinv (set ps) b" "pext a b" "t \<le> pTerm b n"
proof (cases "t > currentTerm rf")
  case True
  then have "pTerm a n < t" using node_okD(3) [OF ok] by simp
  then obtain b where b: "nstep ps n a rf b (becomeFollower d t rf)" "pTerm b n = t"
    using becomeFollower_nstep [OF inv ok n] by blast
  then have "pinv (set ps) b" "pext a b" using psteps_inv [OF _ inv] by (auto simp: nstep_def)
  then show ?thesis using that b True by simp
next
  case False
  then show ?thesis using that [of a] nstep_refl [OF ok] inv node_okD(3) [OF ok] by simp
qed

lemma vote_of_none:
  assumes "pinv (set ps) a" "\<forall>p \<in> set ps. 0 \<le> p" "vote_of a n = -1"
  shows "pVote a n (pTerm a n) = None"
proof (rule ccontr)
  assume "pVote a n (pTerm a n) \<noteq> None"
  then obtain c vl where v: "pVote a n (pTerm a n) = Some (c, vl)" by auto
  then have "c \<in> set ps" using pinv_voteD(4) [OF assms(1) v] pinv_candD(1) [OF assms(1)] by blast
  then show False using assms(2,3) v by (auto simp: vote_of_def)
qed

lemma vote_nstep:
  assumes inv: "pinv (set ps) a" and ok: "node_ok ps a v rf" and v: "v \<in> set ps"
    and pos: "\<forall>p \<in> set ps. 0 \<le> p" and cl: "pCand a c (pTerm a v) = Some cl"
    and up: "uptodate cl (pLog a v)" and can: "votedFor rf = -1 \<or> votedFor rf = c"
  shows "\<exists>b vl. nstep ps v a rf b (rf\<lparr>votedFor := c\<rparr>) \<and> pVote b v (pTerm a v) = Some (c, vl)
    \<and> pTerm b v = pTerm a v"
proof (cases "pVote a v (pTerm a v)")
  case None
  let ?b = "a\<lparr>pVote := (pVote a)(v := (pVote a v)(pTerm a v \<mapsto> (c, pLog a v)))\<rparr>"
  have "node_ok ps ?b v (rf\<lparr>votedFor := c\<rparr>)"
    using ok by (auto simp: node_ok_def vote_of_def leader_ok_def)
  then have "nstep ps v a rf ?b (rf\<lparr>votedFor := c\<rparr>)"
    by (intro nstepI [OF inv ok vote [OF v refl None cl up]]) (auto simp: pframe_def)
  then show ?thesis by (intro exI [of _ ?b]) auto
next
  case (Some x)
  then obtain c' vl where x: "pVote a v (pTerm a v) = Some (c', vl)" by (cases x) auto
  have "c' \<in> set ps" using pinv_voteD(4) [OF inv x] pinv_candD(1) [OF inv] by blast
  then have "c' = c" using can x pos node_okD(5) [OF ok] by (auto simp: vote_of_def)
  moreover have "rf\<lparr>votedFor := c\<rparr> = rf" using x calculation node_okD(5) [OF ok] by (simp add: vote_of_def)
  ultimately show ?thesis using nstep_refl [OF ok] x by (metis (no_types))
qed

lemma RequestVote_nstep:
  assumes inv: "pinv (set ps) a" and ok: "node_ok ps a n rf" and pos: "\<forall>p \<in> set ps. 0 \<le> p"
    and msg: "msg_ok ps a (VoteReq c n args)"
  shows "\<exists>rf' reply b. RequestVote d1 d2 args rf = Some (rf', reply) \<and> nstep ps n a rf b rf'
    \<and> msg_ok ps b (VoteRep c n (rvTerm args) reply)"
proof -
  let ?t = "rvTerm args"
  define rf1 where "rf1 = (if ?t > currentTerm rf then becomeFollower d1 ?t rf else rf)"
  have n: "n \<in> set ps" and c: "rvCandidateId args = c" using msg by simp_all
  obtain b where b: "nstep ps n a rf b rf1" "pinv (set ps) b" "pext a b" "?t \<le> pTerm b n"
    using catch_up_nstep [OF inv ok n, of ?t] unfolding rf1_def by blast
  then have ok1: "node_ok ps b n rf1" by (simp add: nstep_def)
  have msg1: "msg_ok ps b (VoteReq c n args)" using msg_ok_mono [OF inv b(2,3) msg] .
  then obtain cl where cl: "pCand b c ?t = Some cl" "rvLastLogIndex args = leIndex (last cl)"
      "rvLastLogTerm args = leTerm (last cl)" by auto
  have idx: "leIndex (last cl) = int (length cl) - 1"
    using wf_log_last(4) pinv_candD(4) [OF b(2) cl(1)] by blast
  note rf1s = node_okD(3,4) [OF ok1] node_log(4) [OF b(2) ok1]
  show ?thesis
  proof (cases "?t < pTerm b n")
    case True
    then show ?thesis using b(1) rf1s(1) cl(1) by (auto simp: RequestVote_def Let_def rf1_def [symmetric])
  next
    case False
    then have t: "pTerm b n = ?t" using b(4) by simp
    define votes where "votes \<longleftrightarrow> (votedFor rf1 = -1 \<or> votedFor rf1 = c) \<and> uptodate cl (pLog b n)"
    have eq: "RequestVote d1 d2 args rf = Some
        (if votes then (resetElectionTimer d2 (rf1\<lparr>votedFor := c\<rparr>), \<lparr>rvrTerm = ?t, rvrVoteGranted = True\<rparr>)
         else (rf1, \<lparr>rvrTerm = ?t, rvrVoteGranted = False\<rparr>))"
      unfolding RequestVote_def Let_def rf1_def [symmetric] rf1s t bind.bind_lunit prod.case votes_def uptodate_def
      by (auto simp: cl idx c)
    show ?thesis
    proof (cases votes)
      case True
      then obtain b2 vl where b2: "nstep ps n b rf1 b2 (rf1\<lparr>votedFor := c\<rparr>)"
          "pVote b2 n ?t = Some (c, vl)"
        using vote_nstep [OF b(2) ok1 n pos, of c cl] cl(1) t by (auto simp: votes_def)
      moreover have "pext b b2" using b2(1) psteps_inv [OF _ b(2)] by (simp add: nstep_def)
      ultimately have "nstep ps n a rf b2 (resetElectionTimer d2 (rf1\<lparr>votedFor := c\<rparr>))"
          "msg_ok ps b2 (VoteRep c n ?t \<lparr>rvrTerm = ?t, rvrVoteGranted = True\<rparr>)"
        using nstep_timer [OF nstep_trans [OF b(1)]] cl(1) by (auto simp: pext_def)
      then show ?thesis using eq unfolding if_P [OF True] by blast
    next
      case False
      then show ?thesis using eq b(1) cl(1) unfolding if_not_P [OF False] by auto
    qed
  qed
qed

subsection \<open>Appending\<close>

lemma conflictLoop_le: "conflictLoop xs t k \<le> k"
  by (induction xs t k rule: conflictLoop.induct) auto

lemma conflictLoop_pos: "leTerm (xs ! 0) \<noteq> t \<Longrightarrow> 0 < k \<Longrightarrow> 0 < conflictLoop xs t k"
proof (induction xs t k rule: conflictLoop.induct)
  case (2 xs t i)
  then show ?case by (cases i) auto
qed simp

lemma llog_term_nonneg:
  assumes "pinv S a" "pLead a t = Some l" "i < length (pLLog a t)"
  shows "0 \<le> leTerm (pLLog a t ! i)"
  using pinv_leadD(4) [OF assms(1,2)] assms(3) by (cases i) (auto simp: wf_log_def sentinel_def less_imp_le)

text \<open>A term mismatch at an index: the leader has no entry of the follower's term from there on.\<close>

lemma mismatch_terms:
  assumes inv: "pinv S a" and ld: "pLead a T = Some l"
    and p: "p < length (pLog a n)" "p < length (pLLog a T)"
    and ne: "leTerm (pLog a n ! p) \<noteq> leTerm (pLLog a T ! p)"
  shows "0 < p" "leTerm (pLog a n ! p) \<noteq> T"
    "p \<le> i \<Longrightarrow> i < length (pLLog a T) \<Longrightarrow> leTerm (pLLog a T ! i) \<noteq> leTerm (pLog a n ! p)"
proof -
  let ?t = "leTerm (pLog a n ! p)"
  have wf: "pLog a n ! 0 = sentinel" "pLLog a T ! 0 = sentinel"
    using pinv_logD(1) [OF inv, of n] pinv_leadD(4) [OF inv ld] by (auto simp: wf_log_def)
  show p0: "0 < p" using ne wf by (cases p) auto
  then have n: "take (Suc p) (pLog a n) = take (Suc p) (pLLog a ?t)"
    using pinv_logD(2) [OF inv, of n] p(1) by (simp add: cons_log_def)
  then have at_p: "pLog a n ! p = pLLog a ?t ! p" by (metis lessI nth_take)
  then show "?t \<noteq> T" using ne by auto
  assume i: "p \<le> i" "i < length (pLLog a T)"
  show "leTerm (pLLog a T ! i) \<noteq> ?t"
  proof
    assume t: "leTerm (pLLog a T ! i) = ?t"
    have "take (Suc i) (pLLog a T) = take (Suc i) (pLLog a ?t)"
      using pinv_leadD(5) [OF inv ld] i p0 t by (auto simp: cons_log_def)
    then have "pLLog a T ! p = pLLog a ?t ! p" using i(1) by (metis le_imp_less_Suc nth_take)
    then show False using ne at_p by metis
  qed
qed

lemma node_ok_ack: "node_ok ps a n rf \<Longrightarrow> node_ok ps (a\<lparr>pAck := insert x (pAck a)\<rparr>) n rf"
  by (auto simp: node_ok_def vote_of_def leader_ok_def)

lemma ack_nstep:
  assumes inv: "pinv (set ps) a" and ok: "node_ok ps a n rf" and n: "n \<in> set ps"
    and "pLead a (pTerm a n) \<noteq> None" "m < length (pLLog a (pTerm a n))"
    and "prefix (take (Suc m) (pLLog a (pTerm a n))) (pLog a n)"
  shows "nstep ps n a rf (a\<lparr>pAck := insert (n, pTerm a n, m) (pAck a)\<rparr>) rf"
  by (rule nstepI [OF inv ok pstep.ack [OF n refl assms(4-6)]])
    (auto simp: pframe_def node_ok_ack [OF ok])

lemma commit_nstep:
  assumes inv: "pinv (set ps) a" and ok: "node_ok ps a n rf" and n: "n \<in> set ps"
    and "chosen (set ps) a t i" "k \<le> i" "t \<le> pTerm a n"
    and "take (Suc k) (pLog a n) = take (Suc k) (pLLog a t)" "pCommit a n \<le> k"
  shows "nstep ps n a rf (a\<lparr>pCommit := (pCommit a)(n := k)\<rparr>) (rf\<lparr>commitIndex := int k\<rparr>)"
  using ok assms(8)
  by (intro nstepI [OF inv ok pstep.commit [OF n assms(4-8)]])
    (auto simp: pframe_def node_ok_def vote_of_def leader_ok_def)

lemma accept_nstep:
  assumes inv: "pinv (set ps) a" and ok: "node_ok ps a n rf" and n: "n \<in> set ps"
    and ld: "pLead a (pTerm a n) = Some l" "l \<noteq> n" and fol: "rstate rf = Follower"
    and es: "prefix es (pLLog a (pTerm a n))" "es \<noteq> []"
    and ys: "ys = (if prefix es (pLog a n) then pLog a n else es)"
  shows "nstep ps n a rf (a\<lparr>pLog := (pLog a)(n := ys)\<rparr>) (rf\<lparr>rlog := ys\<rparr>)"
  using ok fol unfolding ys
  by (intro nstepI [OF inv ok pstep.accept [OF n refl ld es]])
    (auto simp: pframe_def node_ok_def vote_of_def)

text \<open>
  A successful \<^verbatim>\<open>AppendEntries\<close> is three protocol steps: adopt the leader's entries,
  acknowledge the last of them, advance the commit index.
\<close>

lemma append_success_nstep:
  assumes inv: "pinv (set ps) a" and ok: "node_ok ps a n rf" and n: "n \<in> set ps"
    and ld: "pLead a (aeTerm args) = Some l" "l \<noteq> n" and fol: "rstate rf = Follower"
    and T: "pTerm a n = aeTerm args" and es: "append_ok ps a args es"
    and ys: "ys = (if prefix es (pLog a n) then pLog a n else es)"
  shows "\<exists>b. nstep ps n a rf b (rf\<lparr>rlog := ys, commitIndex := max (commitIndex rf) (aeLeaderCommit args)\<rparr>)
    \<and> (n, aeTerm args, length es - 1) \<in> pAck b"
proof -
  let ?T = "aeTerm args" and ?k = "nat (aeLeaderCommit args)"
  let ?a1 = "a\<lparr>pLog := (pLog a)(n := ys)\<rparr>"
  let ?a2 = "?a1\<lparr>pAck := insert (n, ?T, length es - 1) (pAck ?a1)\<rparr>"
  have e: "prefix es (pLLog a ?T)" "es \<noteq> []" "?k < length es" "0 \<le> aeLeaderCommit args"
    using es by (auto simp: append_ok_def)
  have s1: "nstep ps n a rf ?a1 (rf\<lparr>rlog := ys\<rparr>)"
    using accept_nstep [OF inv ok n, of l es ys] ld fol T e ys by simp
  then have a1: "pinv (set ps) ?a1" "node_ok ps ?a1 n (rf\<lparr>rlog := ys\<rparr>)"
    using psteps_inv [OF _ inv] by (auto simp: nstep_def)
  have pre: "prefix es ys" using ys by simp
  have "take (length es) (pLLog a ?T) = es" using e(1) by (auto simp: prefix_def)
  then have s2: "nstep ps n ?a1 (rf\<lparr>rlog := ys\<rparr>) ?a2 (rf\<lparr>rlog := ys\<rparr>)"
    using ack_nstep [OF a1 n, of "length es - 1"] ld T e pre prefix_length_le [OF e(1)] by auto
  note s12 = nstep_trans [OF s1 s2]
  then have a2: "pinv (set ps) ?a2" "pext a ?a2" "node_ok ps ?a2 n (rf\<lparr>rlog := ys\<rparr>)"
    using psteps_inv [OF _ inv] by (auto simp: nstep_def)
  show ?thesis
  proof (cases "aeLeaderCommit args \<le> commitIndex rf")
    case True
    then show ?thesis using s12 by (intro exI [of _ ?a2]) (auto simp: max_def)
  next
    case False
    then have k: "pCommit a n \<le> ?k" "aeLeaderCommit args \<noteq> 0" using node_okD(6) [OF ok] by auto
    then obtain t i where ti: "chosen (set ps) ?a2 t i" "?k \<le> i" "t \<le> ?T"
        "take (Suc ?k) es = take (Suc ?k) (pLLog ?a2 t)"
      using append_ok_mono [OF a2(2) _ es] ld(1) unfolding append_ok_def by auto
    moreover have "take (Suc ?k) ys = take (Suc ?k) es"
      using prefix_take_prefix [OF pre, of "Suc ?k"] e(3) by simp
    ultimately have "nstep ps n ?a2 (rf\<lparr>rlog := ys\<rparr>) (?a2\<lparr>pCommit := (pCommit ?a2)(n := ?k)\<rparr>)
        (rf\<lparr>rlog := ys, commitIndex := int ?k\<rparr>)"
      using commit_nstep [OF a2(1,3) n ti(1,2)] k T by simp
    then show ?thesis using nstep_trans [OF s12] False e(4)
      by (intro exI [of _ "?a2\<lparr>pCommit := (pCommit ?a2)(n := ?k)\<rparr>"]) (auto simp: max_def)
  qed
qed

lemma append_okD:
  assumes "append_ok ps a args es"
  shows "aePrevLogIndex args + int (length (aeEntries args)) = int (length es) - 1"
    "nat (aePrevLogIndex args) < length (pLLog a (aeTerm args))"
    "length es \<le> length (pLLog a (aeTerm args))"
    "aePrevLogTerm args = leTerm (pLLog a (aeTerm args) ! nat (aePrevLogIndex args))"
    "0 \<le> aePrevLogIndex args"
    "nat (aePrevLogIndex args + int (length (aeEntries args))) < length (pLLog a (aeTerm args))"
proof -
  have es: "prefix es (pLLog a (aeTerm args))" "nat (aePrevLogIndex args) < length es" "0 \<le> aePrevLogIndex args"
    using assms by (auto simp: append_ok_def)
  then show *: "aePrevLogIndex args + int (length (aeEntries args)) = int (length es) - 1"
    using assms by (auto simp: append_ok_def of_nat_diff Suc_leI)
  show "0 \<le> aePrevLogIndex args" by fact
  show len: "length es \<le> length (pLLog a (aeTerm args))" using prefix_length_le [OF es(1)] .
  then show "nat (aePrevLogIndex args) < length (pLLog a (aeTerm args))" using es(2) by simp
  show "aePrevLogTerm args = leTerm (pLLog a (aeTerm args) ! nat (aePrevLogIndex args))"
    using assms prefix_nth [OF es(1,2)] by (auto simp: append_ok_def)
  show "nat (aePrevLogIndex args + int (length (aeEntries args))) < length (pLLog a (aeTerm args))"
    unfolding * using len es(2) by simp
qed

text \<open>A rejection for a missing or mismatching previous entry is a justified reply.\<close>

lemma reject_short_ok:
  assumes inv: "pinv (set ps) a" and ld: "pLead a (aeTerm args) = Some l" and es: "append_ok ps a args es"
    and "1 \<le> k" "k \<le> aePrevLogIndex args"
  shows "reply_ok a n args \<lparr>aerTerm = t, aerSuccess = False, aerConflictIndex = k, aerConflictTerm = -1\<rparr>"
proof -
  have "leTerm (pLLog a (aeTerm args) ! i) \<noteq> -1" if "i < length (pLLog a (aeTerm args))" for i
    using llog_term_nonneg [OF inv ld that] by auto
  then show ?thesis using append_okD(5,6) [OF es] assms(4,5) cand_term_pos [OF inv ld]
    by (simp add: reply_ok_def Let_def)
qed

lemma reject_mismatch_ok:
  assumes inv: "pinv (set ps) a" and ld: "pLead a (aeTerm args) = Some l" and es: "append_ok ps a args es"
    and p: "nat (aePrevLogIndex args) < length (pLog a n)"
    and ne: "leTerm (pLog a n ! nat (aePrevLogIndex args)) \<noteq> aePrevLogTerm args"
  shows "reply_ok a n args \<lparr>aerTerm = t, aerSuccess = False,
    aerConflictIndex = int (conflictLoop (pLog a n) (leTerm (pLog a n ! nat (aePrevLogIndex args)))
      (nat (aePrevLogIndex args))),
    aerConflictTerm = leTerm (pLog a n ! nat (aePrevLogIndex args))\<rparr>"
proof -
  let ?p = "nat (aePrevLogIndex args)" and ?t = "leTerm (pLog a n ! nat (aePrevLogIndex args))"
  note mm = mismatch_terms [OF inv ld p append_okD(2) [OF es]]
  have ne': "?t \<noteq> leTerm (pLLog a (aeTerm args) ! ?p)" using ne append_okD(4) [OF es] by simp
  have "0 < ?t" "leTerm (pLog a n ! 0) = 0"
    using pinv_logD(1) [OF inv, of n] p mm(1) [OF ne'] by (auto simp: wf_log_def sentinel_def)
  then have "0 < conflictLoop (pLog a n) ?t ?p" using mm(1) [OF ne'] by (intro conflictLoop_pos) auto
  moreover have le: "int (conflictLoop (pLog a n) ?t ?p) \<le> aePrevLogIndex args"
    using conflictLoop_le [of "pLog a n" ?t ?p] append_okD(5) [OF es] by linarith
  ultimately show ?thesis
    using append_okD(5,6) [OF es] mm(2,3) [OF ne'] le by (simp add: reply_ok_def Let_def)
qed

lemma appendLog_reject:
  assumes inv: "pinv (set ps) a" and ok: "node_ok ps a n rf"
    and ld: "pLead a (aeTerm args) = Some l" and es: "append_ok ps a args es"
    and p: "p = nat (aePrevLogIndex args)"
    and no: "length (rlog rf) \<le> p \<or> leTerm (rlog rf ! p) \<noteq> aePrevLogTerm args"
  shows "\<exists>reply. appendLog args rf = Some (rf, reply) \<and> reply_ok a n args reply"
proof (cases "p < length (rlog rf)")
  case False
  have p0: "aePrevLogIndex args = int p" using es by (simp add: append_ok_def p)
  have "reply_ok a n args \<lparr>aerTerm = currentTerm rf, aerSuccess = False,
      aerConflictIndex = int (length (rlog rf)), aerConflictTerm = -1\<rparr>"
    using False wf_log_last(2) [OF node_log(1) [OF inv ok]]
    by (intro reject_short_ok [OF inv ld es]) (auto simp: p0 Suc_le_eq)
  then show ?thesis using False by (auto simp: appendLog_def node_log [OF inv ok] p0)
next
  case True
  have p0: "aePrevLogIndex args = int p" using es by (simp add: append_ok_def p)
  have log: "pLog a n = rlog rf" using node_okD(4) [OF ok] by simp
  have "reply_ok a n args \<lparr>aerTerm = currentTerm rf, aerSuccess = False,
      aerConflictIndex = int (conflictLoop (rlog rf) (leTerm (rlog rf ! p)) p),
      aerConflictTerm = leTerm (rlog rf ! p)\<rparr>"
    using reject_mismatch_ok [OF inv ld es, of n "currentTerm rf"] True no by (simp add: log p0)
  then show ?thesis using True no by (auto simp: appendLog_def node_log [OF inv ok] p0)
qed

lemma appendLog_accept:
  assumes inv: "pinv (set ps) a" and ok: "node_ok ps a n rf"
    and ld: "pLead a (aeTerm args) = Some l" and es: "append_ok ps a args es"
    and p: "p = nat (aePrevLogIndex args)"
    and yes: "p < length (rlog rf)" "leTerm (rlog rf ! p) = aePrevLogTerm args"
  shows "appendLog args rf = Some
    (rf\<lparr>rlog := (if prefix es (rlog rf) then rlog rf else es),
        commitIndex := max (commitIndex rf) (aeLeaderCommit args)\<rparr>,
     \<lparr>aerTerm = currentTerm rf, aerSuccess = True, aerConflictIndex = 0, aerConflictTerm = 0\<rparr>)"
proof -
  define ys where "ys = (if prefix es (rlog rf) then rlog rf else es)"
  note log = node_log [OF inv ok]
  have e: "aePrevLogIndex args = int p" "p < length es" "aeEntries args = drop (Suc p) es"
      "prefix es (pLLog a (aeTerm args))" "es \<noteq> []" "aePrevLogTerm args = leTerm (es ! p)"
    using es by (auto simp: append_ok_def p)
  have wf: "wf_log es" "cons_log a es"
    using wf_log_prefix [OF e(4) pinv_leadD(4) [OF inv ld] e(5)]
      cons_log_prefix [OF e(4) pinv_leadD(5) [OF inv ld]] by auto
  have match: "take (Suc i) (rlog rf) = take (Suc i) es"
    if "i < length (rlog rf)" "i < length es" "leTerm (rlog rf ! i) = leTerm (es ! i)" for i
    using cons_log_matching [OF log(1) wf(1) _ wf(2) that] pinv_logD(2) [OF inv, of n] node_okD(4) [OF ok]
    by simp
  have at_p: "take (Suc p) (rlog rf) = take (Suc p) es" using match [OF yes(1) e(2)] yes(2) e(6) by simp
  obtain us where us: "truncLoop (rlog rf) (int p + 1) (drop (Suc p) es) = Some us"
      "appendLoop us (int p + 1) (drop (Suc p) es) = Some ys"
    using ae_merge [OF log(1) wf(1) yes(1) at_p match] unfolding ys_def by blast
  have ys: "wf_log ys" "prefix es ys" using log(1) wf(1) by (auto simp: ys_def)
  have "(if aeLeaderCommit args > commitIndex rf
        then (if aeLeaderCommit args < leIndex (last ys) then aeLeaderCommit args else leIndex (last ys))
        else commitIndex rf) = max (commitIndex rf) (aeLeaderCommit args)"
    using es wf_log_last(4) [OF ys(1)] prefix_length_le [OF ys(2)] by (auto simp: append_ok_def)
  then show ?thesis
    using yes us wf_log_last(3) [OF ys(1)] e by (simp add: appendLog_def log Let_def ys_def [symmetric])
qed

lemma appendLog_nstep:
  assumes inv: "pinv (set ps) a" and ok: "node_ok ps a n rf" and n: "n \<in> set ps"
    and ld: "pLead a (aeTerm args) = Some l" "l \<noteq> n" and fol: "rstate rf = Follower"
    and T: "pTerm a n = aeTerm args" and es: "append_ok ps a args es"
  shows "\<exists>rf' reply b. appendLog args rf = Some (rf', reply) \<and> nstep ps n a rf b rf' \<and> reply_ok b n args reply"
proof (cases "length (rlog rf) \<le> nat (aePrevLogIndex args) \<or>
    leTerm (rlog rf ! nat (aePrevLogIndex args)) \<noteq> aePrevLogTerm args")
  case True
  then show ?thesis using appendLog_reject [OF inv ok ld(1) es refl] nstep_refl [OF ok] by blast
next
  case False
  obtain b where b: "nstep ps n a rf b (rf\<lparr>rlog := (if prefix es (rlog rf) then rlog rf else es),
        commitIndex := max (commitIndex rf) (aeLeaderCommit args)\<rparr>)" "(n, aeTerm args, length es - 1) \<in> pAck b"
    using append_success_nstep [OF inv ok n ld fol T es refl] unfolding node_okD(4) [OF ok] by blast
  have "pext a b" using b(1) psteps_inv [OF _ inv] by (simp add: nstep_def)
  then have "append_ok ps b args es" using append_ok_mono [OF _ _ es] ld(1) by simp
  then have "reply_ok b n args
      \<lparr>aerTerm = currentTerm rf, aerSuccess = True, aerConflictIndex = 0, aerConflictTerm = 0\<rparr>"
    using append_okD(1,5,6) [of ps b args es] b(2) by (simp add: reply_ok_def Let_def nat_diff_distrib')
  then show ?thesis using appendLog_accept [OF inv ok ld(1) es refl] False b(1) by auto
qed

lemma AppendEntries_nstep:
  assumes inv: "pinv (set ps) a" and ok: "node_ok ps a n rf"
    and msg: "msg_ok ps a (AppReq l n args)"
  shows "\<exists>rf' reply b. AppendEntries d1 d2 args rf = Some (rf', reply) \<and> nstep ps n a rf b rf'
    \<and> msg_ok ps b (AppRep l n args reply)"
proof -
  let ?t = "aeTerm args"
  define rf1 where "rf1 = (if ?t > currentTerm rf then becomeFollower d1 ?t rf else rf)"
  have n: "n \<in> set ps" using msg by simp
  obtain b where b: "nstep ps n a rf b rf1" "pinv (set ps) b" "pext a b" "?t \<le> pTerm b n"
    using catch_up_nstep [OF inv ok n, of ?t] unfolding rf1_def by blast
  then have ok1: "node_ok ps b n rf1" by (simp add: nstep_def)
  have msg1: "msg_ok ps b (AppReq l n args)" using msg_ok_mono [OF inv b(2,3) msg] .
  then obtain es where es: "append_ok ps b args es" and ld: "pLead b ?t = Some l" "l \<noteq> n" by auto
  note rf1s = node_okD(3,4) [OF ok1]
  show ?thesis
  proof (cases "?t < pTerm b n")
    case True
    have "reply_ok b n args \<lparr>aerTerm = pTerm b n, aerSuccess = False, aerConflictIndex = 0, aerConflictTerm = 0\<rparr>"
      using True append_okD(5,6) [OF es] by (simp add: reply_ok_def Let_def)
    then show ?thesis using True b(1) rf1s(1) ld n by (auto simp: AppendEntries_def Let_def rf1_def [symmetric])
  next
    case False
    then have t: "pTerm b n = ?t" using b(4) by simp
    define rf2 where "rf2 = resetElectionTimer d2 (rf1\<lparr>rstate := Follower\<rparr>)"
    have s2: "nstep ps n b rf1 b rf2"
      using ok1 ld t by (auto simp: nstep_def node_ok_def rf2_def resetElectionTimer_def)
    then have ok2: "node_ok ps b n rf2" by (simp add: nstep_def)
    have fol: "rstate rf2 = Follower" by (simp add: rf2_def)
    have eq: "AppendEntries d1 d2 args rf = appendLog args rf2"
      using rf1s(1) t by (simp add: AppendEntries_def Let_def rf1_def [symmetric] rf2_def)
    obtain rf' reply c where c: "AppendEntries d1 d2 args rf = Some (rf', reply)"
        "nstep ps n b rf2 c rf'" "reply_ok c n args reply"
      using appendLog_nstep [OF b(2) ok2 n ld fol t es] eq by metis
    have "pext b c" using c(2) psteps_inv [OF _ b(2)] by (simp add: nstep_def)
    then have "msg_ok ps c (AppRep l n args reply)" using ld n c(3) by (auto simp: pext_def)
    then show ?thesis using c(1) nstep_trans [OF nstep_trans [OF b(1) s2] c(2)] by blast
  qed
qed

subsection \<open>Elections\<close>

lemma startElection_sim:
  assumes inv: "pinv (set ps) a" and ok: "node_ok ps a n rf" and n: "n \<in> set ps"
  shows "\<exists>rf' b args. startElection d rf = Some (rf', map (\<lambda>p. (p, args)) (filter (\<lambda>p. p \<noteq> n) ps))
    \<and> pstep (set ps) a b \<and> pframe n a b \<and> node_ok ps b n rf'
    \<and> lastApplied rf' = lastApplied rf \<and> rlog rf' = rlog rf
    \<and> currentTerm rf' = pTerm a n + 1 \<and> rvTerm args = pTerm a n + 1
    \<and> pGrant b = (pGrant a)(n := (pGrant a n)(pTerm a n + 1 := {n}))
    \<and> (\<forall>p \<in> set ps. p \<noteq> n \<longrightarrow> msg_ok ps b (VoteReq n p args))"
proof -
  let ?t = "pTerm a n + 1"
  let ?b = "a\<lparr>pTerm := (pTerm a)(n := ?t),
      pVote := (pVote a)(n := (pVote a n)(?t \<mapsto> (n, pLog a n))),
      pCand := (pCand a)(n := (pCand a n)(?t \<mapsto> pLog a n)),
      pGrant := (pGrant a)(n := (pGrant a n)(?t := {n}))\<rparr>"
  let ?rf = "resetElectionTimer d (rf\<lparr>rstate := Candidate, currentTerm := currentTerm rf + 1, votedFor := me rf\<rparr>)"
  let ?args = "\<lparr>rvTerm = ?t, rvCandidateId = n, rvLastLogIndex = leIndex (last (pLog a n)),
      rvLastLogTerm = leTerm (last (pLog a n))\<rparr>"
  have "lastLogInfo ?rf = lastLogInfo rf" by (simp add: lastLogInfo_def)
  then have "startElection d rf = Some (?rf, map (\<lambda>p. (p, ?args)) (filter (\<lambda>p. p \<noteq> n) ps))"
    using node_log(3,4) [OF inv ok] node_okD [OF ok] by (simp add: startElection_def Let_def)
  moreover have "pstep (set ps) a ?b" by (rule pstep.elect [OF n refl])
  moreover have "node_ok ps ?b n ?rf"
    using ok lead_future [OF inv, of n ?t] by (auto simp: node_ok_def vote_of_def resetElectionTimer_def)
  moreover have "\<forall>p \<in> set ps. p \<noteq> n \<longrightarrow> msg_ok ps ?b (VoteReq n p ?args)" by simp
  ultimately show ?thesis using node_okD(3) [OF ok]
    by (intro exI [of _ ?rf] exI [of _ ?b] exI [of _ ?args]) (simp add: pframe_def)
qed

lemma foldl_upd_const:
  "foldl (\<lambda>m p. m(p \<mapsto> v)) m0 ps x = (if x \<in> set ps then Some v else m0 x)"
  by (induction ps arbitrary: m0) auto

lemma grant_finite: "pinv (set ps) a \<Longrightarrow> pGrant a c t \<subseteq> set ps \<and> finite (pGrant a c t)"
  using pinv_grantD [of "set ps" a] pinv_voteD(1) [of "set ps" a]
  by (metis List.finite_set finite_subset subsetI)

lemma majority_quorum:
  assumes "distinct ps" "Q \<subseteq> set ps" "int (length ps) div 2 + 1 \<le> int (card Q)"
  shows "quorum (set ps) Q"
  using assms by (auto simp: quorum_def distinct_card)

lemma no_rival:
  assumes inv: "pinv S a" and "quorum S (pGrant a c t)" and "pLead a t \<noteq> Some c"
  shows "pLead a t = None"
proof (rule ccontr)
  assume "pLead a t \<noteq> None"
  then obtain c' where c': "pLead a t = Some c'" by blast
  obtain v where "v \<in> pGrant a c t" "v \<in> pGrant a c' t"
    using maj.quorum_intersect [OF assms(2) pinv_leadD(2) [OF inv c']] pinv_leadD(3) [OF inv c'] by blast
  then have "c = c'" using pinv_grantD [OF inv] by (metis Pair_inject option.inject)
  then show False using c' assms(3) by simp
qed

lemma becomeLeader_nstep:
  assumes inv: "pinv (set ps) a" and ok: "node_ok ps a c rf" and cand: "rstate rf = Candidate"
    and q: "quorum (set ps) (pGrant a c (pTerm a c))"
  shows "\<exists>rf' b. becomeLeader rf = Some rf' \<and> nstep ps c a rf b rf'"
proof -
  let ?t = "pTerm a c" and ?e = "\<lparr>leTerm = pTerm a c, leIndex = int (length (pLog a c)), leCommand = None\<rparr>"
  let ?b = "a\<lparr>pLead := (pLead a)(?t \<mapsto> c), pElect := (pElect a)(?t := pGrant a c ?t),
      pLLog := (pLLog a)(?t := pLog a c @ [?e]), pLog := (pLog a)(c := pLog a c @ [?e])\<rparr>"
  have cl: "pCand a c ?t = Some (pLog a c)" and nl: "pLead a ?t \<noteq> Some c"
    using node_okD(9,10) [OF ok] cand by auto
  have none: "pLead a ?t = None" using no_rival [OF inv q nl] .
  obtain rf' where rf': "becomeLeader rf = Some rf'" "rstate rf' = Leader" "rlog rf' = pLog a c @ [?e]"
      "nextIndex rf' \<noteq> None" "matchIndex rf' \<noteq> None"
      "\<And>p. p \<in> set ps \<Longrightarrow> gomap_get (nextIndex rf') p = int (length (pLog a c))"
      "\<And>p. p \<noteq> c \<Longrightarrow> gomap_get (matchIndex rf') p = 0"
      "me rf' = me rf" "peers rf' = ps" "currentTerm rf' = currentTerm rf" "votedFor rf' = votedFor rf"
      "commitIndex rf' = commitIndex rf" "lastApplied rf' = lastApplied rf"
    using node_log(2,3) [OF inv ok] node_okD(1-4) [OF ok]
    by (simp add: becomeLeader_def Let_def foldl_upd_const gomap_get_def split: option.split)
  have "leader_ok ?b c rf'"
    using rf'(3-7,9) wf_log_last(2) [OF pinv_logD(1) [OF inv, of c]] by (auto simp: leader_ok_def Suc_le_eq)
  then have "node_ok ps ?b c rf'"
    using node_okD [OF ok] rf' by (simp add: node_ok_def vote_of_def)
  then have "nstep ps c a rf ?b rf'"
    using none by (intro nstepI [OF inv ok pstep.lead [OF pinv_candD(1) [OF inv cl] refl none cl q]])
      (auto simp: pframe_def rf')
  then show ?thesis using rf'(1) by blast
qed

lemma node_ok_grant: "node_ok ps (a\<lparr>pGrant := G\<rparr>) n rf \<longleftrightarrow> node_ok ps a n rf"
  by (simp add: node_ok_def vote_of_def leader_ok_def)

text \<open>Counting one vote: a grant, and the step to leader when the count reaches the majority.\<close>

lemma count_vote_sim:
  assumes inv: "pinv (set ps) a" and ok: "node_ok ps a c rf" and dist: "distinct ps"
    and cand: "rstate rf = Candidate" "currentTerm rf = t" and v: "pVote a p t = Some (c, vl)"
    and new: "p \<notin> pGrant a c t" and votes: "votes = int (card (pGrant a c t))"
  shows "\<exists>rf' b. (if votes + 1 \<ge> majority rf \<and> rstate rf = Candidate
        then map_option (\<lambda>rf'. (rf', votes + 1)) (becomeLeader rf) else Some (rf, votes + 1)) = Some (rf', votes + 1)
    \<and> nstep ps c (a\<lparr>pGrant := (pGrant a)(c := (pGrant a c)(t := insert p (pGrant a c t)))\<rparr>) rf b rf'"
proof -
  let ?a = "a\<lparr>pGrant := (pGrant a)(c := (pGrant a c)(t := insert p (pGrant a c t)))\<rparr>"
  have "pstep (set ps) a ?a" by (rule pstep.grant [OF v])
  then have inv1: "pinv (set ps) ?a" using pinv_step [OF inv] by blast
  have ok1: "node_ok ps ?a c rf" using ok by (simp add: node_ok_grant)
  have t: "pTerm ?a c = t" using node_okD(3) [OF ok] cand(2) by simp
  have card: "int (card (pGrant ?a c t)) = votes + 1" "pGrant ?a c t \<subseteq> set ps"
    using new votes grant_finite [OF inv, of c t] pinv_voteD(1) [OF inv v] by auto
  show ?thesis
  proof (cases "votes + 1 \<ge> majority rf")
    case True
    then have "quorum (set ps) (pGrant ?a c (pTerm ?a c))"
      using majority_quorum [OF dist card(2)] card(1) node_okD(2) [OF ok] t by (simp add: majority_def)
    then obtain rf' b where "becomeLeader rf = Some rf'" "nstep ps c ?a rf b rf'"
      using becomeLeader_nstep [OF inv1 ok1 cand(1)] by blast
    then show ?thesis using True cand(1) by auto
  next
    case False
    then show ?thesis using nstep_refl [OF ok1] by auto
  qed
qed

lemma handleVoteReply_sim:
  assumes inv: "pinv (set ps) a" and ok: "node_ok ps a c rf" and dist: "distinct ps"
    and msg: "msg_ok ps a (VoteRep c p t reply)"
    and new: "p \<notin> pGrant a c t" and votes: "votes = int (card (pGrant a c t))"
  shows "\<exists>rf' v a' b. handleVoteReply d t reply votes rf = Some (rf', v) \<and> (pstep (set ps))\<^sup>*\<^sup>* a a'
    \<and> pframe c a a' \<and> nstep ps c a' rf b rf'
    \<and> (a' = a \<and> v = votes
       \<or> v = votes + 1 \<and> a' = a\<lparr>pGrant := (pGrant a)(c := (pGrant a c)(t := insert p (pGrant a c t)))\<rparr>)"
proof -
  have c: "c \<in> set ps" using msg pinv_candD(1) [OF inv] by fastforce
  consider "rvrTerm reply > currentTerm rf"
    | "\<not> rvrTerm reply > currentTerm rf" "rstate rf \<noteq> Candidate \<or> currentTerm rf \<noteq> t \<or> \<not> rvrVoteGranted reply"
    | "\<not> rvrTerm reply > currentTerm rf" "rstate rf = Candidate" "currentTerm rf = t" "rvrVoteGranted reply"
    by blast
  then show ?thesis
  proof cases
    case 1
    then obtain b where "nstep ps c a rf b (becomeFollower d (rvrTerm reply) rf)"
      using becomeFollower_nstep [OF inv ok c, of "rvrTerm reply" d] node_okD(3) [OF ok] by auto
    then show ?thesis using 1 by (intro exI [of _ a] exI) (auto simp: handleVoteReply_def)
  next
    case 2
    then show ?thesis using nstep_refl [OF ok] by (intro exI [of _ a] exI) (auto simp: handleVoteReply_def)
  next
    case 3
    then obtain vl where vl: "pVote a p t = Some (c, vl)" using msg by auto
    let ?a = "a\<lparr>pGrant := (pGrant a)(c := (pGrant a c)(t := insert p (pGrant a c t)))\<rparr>"
    obtain rf' b where "handleVoteReply d t reply votes rf = Some (rf', votes + 1)" "nstep ps c ?a rf b rf'"
      using count_vote_sim [OF inv ok dist 3(2,3) vl new votes] 3 unfolding handleVoteReply_def Let_def by auto
    then show ?thesis using pstep.grant [OF vl, of "set ps"]
      by (intro exI [of _ rf'] exI [of _ "votes + 1"] exI [of _ ?a] exI [of _ b]) (auto simp: pframe_def)
  qed
qed

subsection \<open>Replication by the leader\<close>

lemma advanceLoop_result:
  assumes "0 \<le> commitIndex rf" "n < int (length (rlog rf))"
  shows "\<exists>k. advanceLoop rf n = Some k \<and> (k = commitIndex rf
    \<or> commitIndex rf < k \<and> k \<le> n \<and> leTerm (rlog rf ! nat k) = currentTerm rf \<and> majority rf \<le> replicaCount rf k)"
  using assms
proof (induction rf n rule: advanceLoop.induct)
  case (1 rf n)
  show ?case
  proof (cases "n > commitIndex rf")
    case True
    then have e: "go_nth (rlog rf) n = Some (rlog rf ! nat n)" using 1(3,4) by (simp add: go_nth_in)
    show ?thesis
    proof (cases "leTerm (rlog rf ! nat n) = currentTerm rf \<and> majority rf \<le> replicaCount rf n")
      case found: True
      then show ?thesis using True e by (subst advanceLoop.simps) auto
    next
      case False
      have lt: "n - 1 < int (length (rlog rf))" using 1(4) by simp
      obtain k where k: "advanceLoop rf (n - 1) = Some k" "k = commitIndex rf \<or> commitIndex rf < k \<and> k \<le> n - 1
          \<and> leTerm (rlog rf ! nat k) = currentTerm rf \<and> majority rf \<le> replicaCount rf k"
        using 1(1) [OF True e _ 1(3) lt] 1(2) [OF True e _ _ 1(3) lt] False by blast
      have "advanceLoop rf n = advanceLoop rf (n - 1)"
        using True e False by (subst advanceLoop.simps) simp
      then show ?thesis using k by auto
    qed
  next
    case False
    then show ?thesis by (subst advanceLoop.simps) auto
  qed
qed

text \<open>The peers counted for an index, with the leader, form a quorum that acknowledged it.\<close>

lemma replicas_chosen:
  assumes inv: "pinv (set ps) a" and ok: "node_ok ps a n rf" and n: "n \<in> set ps" and dist: "distinct ps"
    and ld: "rstate rf = Leader" and k: "0 < k" "nat k < length (rlog rf)"
    and t: "leTerm (rlog rf ! nat k) = currentTerm rf" and m: "majority rf \<le> replicaCount rf k"
    and self: "(n, pTerm a n, nat k) \<in> pAck a"
  shows "chosen (set ps) a (pTerm a n) (nat k)"
proof -
  let ?P = "filter (\<lambda>p. p \<noteq> n \<and> k \<le> gomap_get (matchIndex rf) p) ps"
  have lead: "pLead a (pTerm a n) = Some n" using node_okD(9) [OF ok] ld by simp
  have log: "rlog rf = pLLog a (pTerm a n)" using node_okD(4) [OF ok] leader_log [OF inv lead] by simp
  have "card (insert n (set ?P)) = Suc (length ?P)"
    using dist by (simp add: distinct_card [symmetric])
  then have "quorum (set ps) (insert n (set ?P))"
    using m n node_okD(1,2) [OF ok] dist
    by (intro majority_quorum) (auto simp: majority_def replicaCount_def)
  moreover have "\<exists>j \<ge> nat k. (p, pTerm a n, j) \<in> pAck a" if "p \<in> insert n (set ?P)" for p
  proof (cases "p = n")
    case False
    then have "k \<le> gomap_get (matchIndex rf) p" "p \<in> set ps" using that by auto
    then have "(p, pTerm a n, nat (gomap_get (matchIndex rf) p)) \<in> pAck a"
      using node_okD(11) [OF ok ld] node_okD(2) [OF ok] k False by (auto simp: leader_ok_def)
    then show ?thesis using \<open>k \<le> _\<close> by (meson nat_mono)
  qed (use self in blast)
  ultimately show ?thesis
    using lead k t log node_okD(3) [OF ok] unfolding chosen_def by auto
qed

lemma advanceCommitIndex_nstep:
  assumes inv: "pinv (set ps) a" and ok: "node_ok ps a n rf" and n: "n \<in> set ps" and dist: "distinct ps"
    and ld: "rstate rf = Leader"
  shows "\<exists>rf' b. advanceCommitIndex rf = Some rf' \<and> nstep ps n a rf b rf'"
proof -
  have ci: "0 \<le> commitIndex rf" using node_okD(6) [OF ok] by simp
  obtain k where k: "advanceLoop rf (int (length (rlog rf)) - 1) = Some k"
      "k = commitIndex rf \<or> commitIndex rf < k \<and> k \<le> int (length (rlog rf)) - 1
        \<and> leTerm (rlog rf ! nat k) = currentTerm rf \<and> majority rf \<le> replicaCount rf k"
    using advanceLoop_result [OF ci, of "int (length (rlog rf)) - 1"] by auto
  have eq: "advanceCommitIndex rf = Some (rf\<lparr>commitIndex := k\<rparr>)"
    using k(1) node_log(2,3) [OF inv ok] by (simp add: advanceCommitIndex_def)
  show ?thesis
  proof (cases "k = commitIndex rf")
    case True
    then show ?thesis using eq nstep_refl [OF ok] by auto
  next
    case False
    then have k': "commitIndex rf < k" "nat k < length (rlog rf)" "leTerm (rlog rf ! nat k) = currentTerm rf"
        "majority rf \<le> replicaCount rf k" "0 < k" using k(2) ci by auto
    have lead: "pLead a (pTerm a n) = Some n" using node_okD(9) [OF ok] ld by simp
    have log: "rlog rf = pLog a n" "pLog a n = pLLog a (pTerm a n)"
      using node_okD(4) [OF ok] leader_log [OF inv lead] by simp_all
    let ?b = "a\<lparr>pAck := insert (n, pTerm a n, nat k) (pAck a)\<rparr>"
    have s1: "nstep ps n a rf ?b rf"
      using ack_nstep [OF inv ok n, of "nat k"] lead log k'(2) by (simp add: take_is_prefix)
    then have b: "pinv (set ps) ?b" "node_ok ps ?b n rf"
      using psteps_inv [OF _ inv] by (auto simp: nstep_def)
    have "chosen (set ps) ?b (pTerm ?b n) (nat k)"
      using replicas_chosen [OF b n dist ld] k' by simp
    then have "nstep ps n ?b rf (?b\<lparr>pCommit := (pCommit ?b)(n := nat k)\<rparr>) (rf\<lparr>commitIndex := int (nat k)\<rparr>)"
      using commit_nstep [OF b n, of "pTerm ?b n" "nat k" "nat k"] log k'(1) node_okD(6) [OF ok] by simp
    then show ?thesis using eq nstep_trans [OF s1] k'(5) by auto
  qed
qed

lemma lastIdxLoop_result:
  "k \<le> length xs \<Longrightarrow> lastIdxLoop xs t k = -1 \<or>
     (0 \<le> lastIdxLoop xs t k \<and> lastIdxLoop xs t k < int k \<and> leTerm (xs ! nat (lastIdxLoop xs t k)) = t)"
  by (induction xs t k rule: lastIdxLoop.induct) auto

text \<open>Updating the maps for one peer keeps a leader a leader.\<close>

lemma leader_maps_nstep:
  assumes ok: "node_ok ps a l rf" and ld: "rstate rf = Leader" and p: "p \<noteq> l"
    and ni: "1 \<le> i" "i \<le> int (length (rlog rf))"
    and mi: "m = gomap_get (matchIndex rf) p \<or> (p, pTerm a l, nat m) \<in> pAck a"
  obtains nm mm where "gomap_put (nextIndex rf) p i = Some nm" "gomap_put (matchIndex rf) p m = Some mm"
    "nstep ps l a rf a (rf\<lparr>nextIndex := nm\<rparr>)" "nstep ps l a rf a (rf\<lparr>matchIndex := mm, nextIndex := nm\<rparr>)"
proof -
  obtain f g where fg: "nextIndex rf = Some f" "matchIndex rf = Some g"
    using node_okD(11) [OF ok ld] by (auto simp: leader_ok_def)
  have "leader_ok a l (rf\<lparr>nextIndex := Some (f(p \<mapsto> i))\<rparr>)"
      "leader_ok a l (rf\<lparr>matchIndex := Some (g(p \<mapsto> m)), nextIndex := Some (f(p \<mapsto> i))\<rparr>)"
    using node_okD(11) [OF ok ld] fg ni mi p node_okD(2) [OF ok]
    by (auto simp: leader_ok_def gomap_get_upd)
  then show ?thesis
    using that [of "Some (f(p \<mapsto> i))" "Some (g(p \<mapsto> m))"] fg ok
    by (auto simp: gomap_put_def nstep_def node_ok_def)
qed

text \<open>A rejection in the current term moves the next index to the probed index or below it.\<close>

lemma reject_backoff:
  assumes inv: "pinv (set ps) a" and ok: "node_ok ps a l rf" and ld: "rstate rf = Leader"
    and T: "currentTerm rf = aeTerm args" and msg: "msg_ok ps a (AppRep l p args reply)"
    and rej: "\<not> aerSuccess reply" "\<not> aerTerm reply > currentTerm rf"
  shows "\<exists>i nm. handleAppendReply d p args reply rf = Some (rf\<lparr>nextIndex := nm\<rparr>)
    \<and> gomap_put (nextIndex rf) p i = Some nm \<and> 1 \<le> i \<and> i \<le> aePrevLogIndex args
    \<and> nstep ps l a rf a (rf\<lparr>nextIndex := nm\<rparr>)"
proof -
  have lead: "pLead a (pTerm a l) = Some l" using node_okD(9) [OF ok] ld by simp
  have log: "rlog rf = pLLog a (aeTerm args)"
    using node_okD(3,4) [OF ok] leader_log [OF inv lead] T by simp
  have r: "1 \<le> aerConflictIndex reply" "aerConflictIndex reply \<le> aePrevLogIndex args"
      "nat (aePrevLogIndex args + int (length (aeEntries args))) < length (rlog rf)"
      "\<forall>i. nat (aePrevLogIndex args) \<le> i \<longrightarrow> i < length (rlog rf) \<longrightarrow> leTerm (rlog rf ! i) \<noteq> aerConflictTerm reply"
    using msg rej T unfolding log by (auto simp: reply_ok_def Let_def)
  define j where "j = lastIdxLoop (rlog rf) (aerConflictTerm reply) (length (rlog rf))"
  have j: "j = -1 \<or> 0 \<le> j \<and> j < aePrevLogIndex args"
    using lastIdxLoop_result [OF order_refl, of "rlog rf" "aerConflictTerm reply"] r(4)
    unfolding j_def [symmetric] by (metis nat_int nat_le_eq_zle nat_less_iff not_le)
  define i where "i = (if aerConflictTerm reply = -1 then aerConflictIndex reply
    else if j \<ge> 0 then j + 1 else aerConflictIndex reply)"
  have i: "1 \<le> i" "i \<le> aePrevLogIndex args" using r(1,2) j by (auto simp: i_def)
  then have "i \<le> int (length (rlog rf))" using r(3) by linarith
  then obtain nm mm where nm: "gomap_put (nextIndex rf) p i = Some nm" "nstep ps l a rf a (rf\<lparr>nextIndex := nm\<rparr>)"
    using leader_maps_nstep [OF ok ld _ i(1), of p] msg by (metis msg_ok.simps(4))
  have "handleAppendReply d p args reply rf = Some (rf\<lparr>nextIndex := nm\<rparr>)"
    using rej ld T nm(1) by (auto simp: handleAppendReply_def Let_def i_def j_def split: if_splits)
  then show ?thesis using nm i by blast
qed

lemma handleAppendReply_nstep:
  assumes inv: "pinv (set ps) a" and ok: "node_ok ps a l rf" and dist: "distinct ps"
    and msg: "msg_ok ps a (AppRep l p args reply)"
  shows "\<exists>rf' b. handleAppendReply d p args reply rf = Some rf' \<and> nstep ps l a rf b rf'"
proof -
  have l: "l \<in> set ps" using msg pinv_leadD(7) [OF inv] pinv_candD(1) [OF inv] by fastforce
  consider "aerTerm reply > currentTerm rf"
    | "\<not> aerTerm reply > currentTerm rf" "rstate rf \<noteq> Leader \<or> currentTerm rf \<noteq> aeTerm args"
    | "\<not> aerTerm reply > currentTerm rf" "rstate rf = Leader" "currentTerm rf = aeTerm args" "aerSuccess reply"
    | "\<not> aerTerm reply > currentTerm rf" "rstate rf = Leader" "currentTerm rf = aeTerm args" "\<not> aerSuccess reply"
    by blast
  then show ?thesis
  proof cases
    case 1
    then show ?thesis
      using becomeFollower_nstep [OF inv ok l, of "aerTerm reply" d] node_okD(3) [OF ok]
      by (auto simp: handleAppendReply_def)
  next
    case 2
    then show ?thesis using nstep_refl [OF ok] by (auto simp: handleAppendReply_def)
  next
    case 3
    let ?m = "aePrevLogIndex args + int (length (aeEntries args))"
    define m where "m = (if ?m > gomap_get (matchIndex rf) p then ?m else gomap_get (matchIndex rf) p)"
    have lead: "pLead a (pTerm a l) = Some l" using node_okD(9) [OF ok] 3 by simp
    have r: "0 \<le> ?m" "?m < int (length (rlog rf))" "(p, pTerm a l, nat ?m) \<in> pAck a" "p \<noteq> l"
      using msg 3 node_okD(3,4) [OF ok] leader_log [OF inv lead] by (auto simp: reply_ok_def Let_def)
    then have m: "1 \<le> ?m + 1" "?m + 1 \<le> int (length (rlog rf))"
        "m = gomap_get (matchIndex rf) p \<or> (p, pTerm a l, nat m) \<in> pAck a" by (simp_all add: m_def)
    obtain nm mm where maps: "gomap_put (nextIndex rf) p (?m + 1) = Some nm"
        "gomap_put (matchIndex rf) p m = Some mm" "nstep ps l a rf a (rf\<lparr>nextIndex := nm\<rparr>)"
        "nstep ps l a rf a (rf\<lparr>matchIndex := mm, nextIndex := nm\<rparr>)"
      using leader_maps_nstep [OF ok 3(2) r(4) m] by blast
    define rf1 where "rf1 = (if ?m > gomap_get (matchIndex rf) p
      then rf\<lparr>matchIndex := mm, nextIndex := nm\<rparr> else rf\<lparr>nextIndex := nm\<rparr>)"
    have s1: "nstep ps l a rf a rf1" using maps(3,4) by (simp add: rf1_def)
    then have ok1: "node_ok ps a l rf1" "rstate rf1 = Leader" using 3(2) by (auto simp: nstep_def rf1_def)
    have "handleAppendReply d p args reply rf = advanceCommitIndex rf1"
      using 3 maps(1,2) by (auto simp: handleAppendReply_def Let_def rf1_def m_def)
    then show ?thesis
      using advanceCommitIndex_nstep [OF inv ok1(1) l dist ok1(2)] nstep_trans [OF s1] by metis
  next
    case 4
    then show ?thesis using reject_backoff [OF inv ok 4(2,3) msg 4(4,1)] by blast
  qed
qed

lemma Start_nstep:
  assumes inv: "pinv (set ps) a" and ok: "node_ok ps a n rf"
  shows "\<exists>rf' r b. Start c rf = Some (rf', r) \<and> nstep ps n a rf b rf'"
proof (cases "rstate rf = Leader")
  case False
  then show ?thesis using nstep_refl [OF ok] by (auto simp: Start_def)
next
  case True
  let ?e = "\<lparr>leTerm = pTerm a n, leIndex = int (length (pLog a n)), leCommand = Some c\<rparr>"
  let ?b = "a\<lparr>pLLog := (pLLog a)(pTerm a n := pLog a n @ [?e]), pLog := (pLog a)(n := pLog a n @ [?e])\<rparr>"
  have lead: "pLead a (pTerm a n) = Some n" using node_okD(9) [OF ok] True by simp
  then have n: "n \<in> set ps" using pinv_leadD(7) [OF inv] pinv_candD(1) [OF inv] by blast
  obtain g where g: "matchIndex rf = Some g" using node_okD(11) [OF ok True] by (auto simp: leader_ok_def)
  let ?rf = "rf\<lparr>rlog := rlog rf @ [?e], matchIndex := Some (g(n \<mapsto> int (length (pLog a n))))\<rparr>"
  have "Start c rf = Some (?rf, int (length (pLog a n)), pTerm a n, True)"
    using True g node_log(2,3) [OF inv ok] node_okD(1,3,4) [OF ok] by (simp add: Start_def Let_def)
  moreover have "leader_ok ?b n ?rf"
    using node_okD(11) [OF ok True] g by (auto simp: leader_ok_def)
  then have "node_ok ps ?b n ?rf" using ok True by (simp add: node_ok_def vote_of_def)
  then have "nstep ps n a rf ?b ?rf"
    by (intro nstepI [OF inv ok pstep.client [OF n refl lead]]) (auto simp: pframe_def)
  ultimately show ?thesis by blast
qed

lemma sendAppendEntriesTo_ok:
  assumes inv: "pinv (set ps) a" and ok: "node_ok ps a n rf" and p: "p \<in> set ps" "p \<noteq> n"
  shows "\<exists>r. sendAppendEntriesTo p (currentTerm rf) rf = Some r
    \<and> (\<forall>args. r = Some args \<longrightarrow> msg_ok ps a (AppReq n p args))"
proof (cases "rstate rf = Leader")
  case False
  then show ?thesis by (simp add: sendAppendEntriesTo_def)
next
  case True
  let ?es = "rlog rf" and ?k = "gomap_get (nextIndex rf) p"
  have lead: "pLead a (pTerm a n) = Some n" using node_okD(9) [OF ok] True by simp
  have log: "?es = pLLog a (pTerm a n)" "rlog rf = pLog a n" using node_okD(4) [OF ok] leader_log [OF inv lead] by simp_all
  have k: "1 \<le> ?k" "?k \<le> int (length ?es)"
    using node_okD(11) [OF ok True] p node_okD(2) [OF ok] by (auto simp: leader_ok_def)
  define args where "args = \<lparr>aeTerm = currentTerm rf, aeLeaderId = n, aePrevLogIndex = ?k - 1,
      aePrevLogTerm = leTerm (?es ! nat (?k - 1)), aeEntries = drop (nat ?k) ?es, aeLeaderCommit = commitIndex rf\<rparr>"
  have send: "sendAppendEntriesTo p (currentTerm rf) rf = Some (Some args)"
    using True k node_log(2,3) [OF inv ok] node_okD(1) [OF ok]
    by (simp add: sendAppendEntriesTo_def Let_def go_nth_in args_def)
  have c: "pCommit a n < length ?es" using pcommit_bound [OF inv, of n] log by simp
  have "commitIndex rf = 0 \<or> (\<exists>t i. chosen (set ps) a t i \<and> nat (commitIndex rf) \<le> i \<and> t \<le> currentTerm rf
      \<and> take (Suc (nat (commitIndex rf))) ?es = take (Suc (nat (commitIndex rf))) (pLLog a t))"
    unfolding node_okD(3,4,6) [OF ok] nat_int
    by (cases "pCommit a n = 0") (simp, use pinv_commitD [OF inv, of n] in blast)
  moreover have "?es \<noteq> []" "nat (?k - 1) < length ?es" using k wf_log_last(1) [OF node_log(1) [OF inv ok]] by auto
  ultimately have "append_ok ps a args ?es"
    using k c log(1) node_okD(3,6) [OF ok] by (simp add: append_ok_def args_def Suc_nat_eq_nat_zadd1)
  then have "msg_ok ps a (AppReq n p args)"
    using p lead node_okD(3) [OF ok] by (auto simp: args_def)
  then show ?thesis using send by simp
qed

subsection \<open>Applying\<close>

lemma applied_of_append [simp]: "applied_of (xs @ ys) = applied_of xs @ applied_of ys"
  by (simp add: applied_of_def)

lemma applyTicker_result:
  assumes "0 \<le> lastApplied rf" "lastApplied rf \<le> commitIndex rf" "commitIndex rf < int (length (rlog rf))"
    and "apply_ok rf msgs0"
  shows "\<exists>msgs. applyTicker rf = Some (rf\<lparr>lastApplied := commitIndex rf\<rparr>, msgs)
    \<and> apply_ok (rf\<lparr>lastApplied := commitIndex rf\<rparr>) (msgs0 @ msgs)"
  using assms
proof (induction rf arbitrary: msgs0 rule: applyTicker.induct)
  case (1 rf)
  show ?case
  proof (cases "lastApplied rf < commitIndex rf")
    case False
    then have "rf\<lparr>lastApplied := commitIndex rf\<rparr> = rf" using 1(4) by simp
    then show ?thesis using False 1(6) by (subst applyTicker.simps) simp
  next
    case True
    let ?rf1 = "rf\<lparr>lastApplied := lastApplied rf + 1\<rparr>" and ?k = "nat (lastApplied rf + 1)"
    let ?e = "rlog rf ! ?k"
    have e: "go_nth (rlog ?rf1) (lastApplied ?rf1) = Some ?e" using True 1(3,5) by (simp add: go_nth_in)
    have "take (Suc ?k) (rlog rf) = take (Suc (nat (lastApplied rf))) (rlog rf) @ [?e]"
      using True 1(3,5) by (simp add: nat_add_distrib take_Suc_conv_app_nth)
    then have ap: "apply_ok ?rf1 (msgs0 @ applied_of [?e])" using 1(6) by (simp add: apply_ok_def)
    have b: "0 \<le> lastApplied ?rf1" "lastApplied ?rf1 \<le> commitIndex ?rf1" "commitIndex ?rf1 < int (length (rlog ?rf1))"
      using True 1(3,5) by auto
    show ?thesis
    proof (cases "leCommand ?e")
      case None
      obtain msgs where "applyTicker ?rf1 = Some (rf\<lparr>lastApplied := commitIndex rf\<rparr>, msgs)"
          "apply_ok (rf\<lparr>lastApplied := commitIndex rf\<rparr>) (msgs0 @ msgs)"
        using 1(1) [OF True refl e None b ap] None by (auto simp: applied_of_def)
      then show ?thesis using True e None by (subst applyTicker.simps) (simp add: Let_def)
    next
      case (Some c)
      obtain msgs where "applyTicker ?rf1 = Some (rf\<lparr>lastApplied := commitIndex rf\<rparr>, msgs)"
          "apply_ok (rf\<lparr>lastApplied := commitIndex rf\<rparr>) ((msgs0 @ applied_of [?e]) @ msgs)"
        using 1(2) [OF True refl e Some b ap] by auto
      then show ?thesis using True e Some by (subst applyTicker.simps) (simp add: Let_def applied_of_def)
    qed
  qed
qed

end
