(* ===== verification/Raft_Safety.thy ===== *)
theory Raft_Safety
  imports Raft_Refinement
begin

text \<open>
  The events of the cluster under the simulation of \<open>Raft_Refinement\<close>, runs of
  the cluster, and the Raft properties of the running code: no server panics, at most
  one leader per term, log matching, committed entries are never lost or contradicted,
  and every server applies the same commands in the same order.
\<close>

subsection \<open>Events without a server step\<close>

lemma vote_keys_append [simp]: "vote_keys (xs @ ys) = vote_keys xs @ vote_keys ys"
  by (simp add: vote_keys_def)

lemma vote_keys_split:
  "k < length w \<Longrightarrow> vote_keys w = vote_keys (take k w) @ vote_key (snd (w ! k)) @ vote_keys (drop (Suc k) w)"
  using id_take_nth_drop [of k w] by (metis vote_keys_append append_Cons append_Nil
      concat.simps list.simps(9) vote_keys_def)

lemma vote_keys_update:
  assumes "k < length w" "vote_key (snd x) = vote_key (snd (w ! k))"
  shows "vote_keys (w[k := x]) = vote_keys w"
proof -
  have "vote_keys (w[k := x]) = vote_keys (take k w) @ vote_key (snd x) @ vote_keys (drop (Suc k) w)"
    using assms(1) by (simp add: upd_conv_take_nth_drop vote_keys_def)
  then show ?thesis using vote_keys_split [OF assms(1)] assms(2) by simp
qed

lemma votes_ok_update:
  "votes_ok a s \<Longrightarrow> k < length (cWire s) \<Longrightarrow> vote_key (snd x) = vote_key (snd (cWire s ! k)) \<Longrightarrow>
     votes_ok a (s\<lparr>cWire := (cWire s)[k := x]\<rparr>)"
  by (simp add: votes_ok_def vote_keys_update)

lemma votes_ok_drop:
  assumes "votes_ok a s" "k < length (cWire s)"
  shows "votes_ok a (drop_call k s)"
proof -
  let ?w = "vote_keys (cWire s)" and ?w' = "vote_keys (cWire (drop_call k s))"
  have w': "?w' = vote_keys (take k (cWire s)) @ vote_keys (drop (Suc k) (cWire s))" by (simp add: drop_call_def)
  have "distinct ?w" using assms(1) by (simp add: votes_ok_def)
  then have "distinct ?w'" "set ?w' \<subseteq> set ?w"
    unfolding w' vote_keys_split [OF assms(2)] by auto
  moreover have "cVotes (drop_call k s) = cVotes s" by (simp add: drop_call_def)
  ultimately show ?thesis using assms(1) unfolding votes_ok_def by (simp add: subset_iff)
qed

lemma sim_local:
  assumes "sim ps s a" "cNodes s' = cNodes s" "cApply s' = cApply s" "votes_ok a s'"
    and "snd ` set (cWire s') \<subseteq> snd ` set (cWire s)"
  shows "sim ps s' a"
proof -
  have "msg_ok ps a (snd x)" if "x \<in> set (cWire s')" for x
  proof -
    have "snd x \<in> snd ` set (cWire s)" using subsetD [OF assms(5) imageI [OF that]] .
    then obtain y where "snd x = snd y" "y \<in> set (cWire s)" by (rule imageE)
    then show ?thesis using assms(1) by (simp add: sim_def)
  qed
  then show ?thesis using assms(1-4) by (simp add: sim_def)
qed

lemma sim_wire: "sim ps s a \<Longrightarrow> k < length (cWire s) \<Longrightarrow> msg_ok ps a (snd (cWire s ! k))"
  by (auto simp: sim_def)

lemma sim_drop: "sim ps s a \<Longrightarrow> k < length (cWire s) \<Longrightarrow> sim ps (drop_call k s) a"
proof (rule sim_local)
  show "snd ` set (cWire (drop_call k s)) \<subseteq> snd ` set (cWire s)"
    using set_take_subset [of k "cWire s"] set_drop_subset [of "Suc k" "cWire s"] by (auto simp: drop_call_def)
qed (auto simp: votes_ok_drop sim_def, simp_all add: drop_call_def)

lemma sim_flag:
  assumes "sim ps s a" "k < length (cWire s)"
  shows "sim ps (s\<lparr>cWire := (cWire s)[k := (f, snd (cWire s ! k))]\<rparr>) a"
proof (rule sim_local [OF assms(1)])
  show "votes_ok a (s\<lparr>cWire := (cWire s)[k := (f, snd (cWire s ! k))]\<rparr>)"
    using assms by (intro votes_ok_update) (auto simp: sim_def)
  show "snd ` set (cWire (s\<lparr>cWire := (cWire s)[k := (f, snd (cWire s ! k))]\<rparr>)) \<subseteq> snd ` set (cWire s)"
    using set_update_subset_insert [of "cWire s" k "(f, snd (cWire s ! k))"] assms(2) by fastforce
qed simp_all

definition progress :: "int list \<Rightarrow> 'c pstate \<Rightarrow> 'c cluster option \<Rightarrow> bool" where
  "progress ps a r \<longleftrightarrow> (\<exists>s' b. r = Some s' \<and> (pstep (set ps))\<^sup>*\<^sup>* a b \<and> sim ps s' b)"

lemma progress_same [intro]: "sim ps s a \<Longrightarrow> progress ps a (Some s)"
  by (auto simp: progress_def)

lemma sim_net: "sim ps s a \<Longrightarrow> sim ps (s\<lparr>cNet := nw\<rparr>) a"
  by (rule sim_local) (auto simp: sim_def votes_ok_def)

lemma admit_progress: "sim ps s a \<Longrightarrow> progress ps a (step_admit k rnd s)"
  by (auto simp: step_admit_def Let_def intro: sim_flag sim_drop)

lemma return_progress: "sim ps s a \<Longrightarrow> progress ps a (step_return k s)"
  by (auto simp: step_return_def Let_def intro: sim_flag sim_drop)

subsection \<open>Events that move a server\<close>

text \<open>One server moved by \<^const>\<open>nstep\<close>; the vote counters and calls need a separate argument.\<close>

lemma sim_nstep:
  assumes sim: "sim ps s a" and st: "nstep ps n a (cNodes s n) b rf'"
    and s': "cNodes s' = (cNodes s)(n := rf')" "cApply s' = cApply s" "votes_ok b s'"
    and w: "\<And>x. x \<in> set (cWire s') \<Longrightarrow> snd x \<in> snd ` set (cWire s) \<or> msg_ok ps b (snd x)"
  shows "sim ps s' b"
proof (rule sim_update [OF sim, of b n])
  show "apply_ok (cNodes s' n) (cApply s' n)"
    using sim st by (auto simp: sim_def nstep_def apply_ok_def s'(1,2))
qed (use st s' w in \<open>auto simp: nstep_def\<close>)

lemma votes_ok_grant: "votes_ok a s \<Longrightarrow> pGrant b = pGrant a \<Longrightarrow> votes_ok b s"
  by (simp add: votes_ok_def)

lemma votes_ok_nodes [simp]:
  "votes_ok a (set_node n rf s) = votes_ok a s" "votes_ok a (s\<lparr>cApply := x\<rparr>) = votes_ok a s"
  by (simp_all add: votes_ok_def set_node_def)

lemma handle_progress:
  assumes sim: "sim ps s a" and pos: "\<forall>p \<in> set ps. 0 \<le> p"
  shows "progress ps a (step_handle k d1 d2 s)"
proof (cases "k < length (cWire s) \<and> fst (cWire s ! k) \<and> is_request (snd (cWire s ! k))")
  case True
  then have k: "k < length (cWire s)" by simp
  note ok = sim[unfolded sim_def] and msg = sim_wire [OF sim k]
  have fin: "progress ps a (Some (set_node t rf' (s\<lparr>cWire := (cWire s)[k := (False, m)]\<rparr>)))"
    if "nstep ps t a (cNodes s t) b rf'" "msg_ok ps b m" "vote_key m = vote_key (snd (cWire s ! k))" for t rf' b m
  proof -
    have "votes_ok b (s\<lparr>cWire := (cWire s)[k := (False, m)]\<rparr>)"
      using that ok k by (intro votes_ok_update votes_ok_grant [of a s b]) (auto simp: nstep_def)
    then have "sim ps (set_node t rf' (s\<lparr>cWire := (cWire s)[k := (False, m)]\<rparr>)) b"
      using that(2) set_update_subset_insert [of "cWire s" k "(False, m)"]
      by (intro sim_nstep [OF sim that(1)]) (auto simp: set_node_def votes_ok_def)
    then show ?thesis using that(1) by (auto simp: progress_def nstep_def)
  qed
  show ?thesis
  proof (cases "snd (cWire s ! k)")
    case (VoteReq c p args)
    then obtain rf' reply b where "RequestVote d1 d2 args (cNodes s p) = Some (rf', reply)"
        "nstep ps p a (cNodes s p) b rf'" "msg_ok ps b (VoteRep c p (rvTerm args) reply)"
      using RequestVote_nstep [of ps a p "cNodes s p" c args d1 d2] ok pos msg by metis
    then show ?thesis using fin VoteReq True by (simp add: step_handle_def)
  next
    case (AppReq l p args)
    then obtain rf' reply b where "AppendEntries d1 d2 args (cNodes s p) = Some (rf', reply)"
        "nstep ps p a (cNodes s p) b rf'" "msg_ok ps b (AppRep l p args reply)"
      using AppendEntries_nstep [of ps a p "cNodes s p" l args d1 d2] ok msg by metis
    then show ?thesis using fin AppReq True by (simp add: step_handle_def)
  qed (use True in auto)
next
  case False
  then show ?thesis using sim by (auto simp: step_handle_def split: msg.split)
qed

lemma wire_key_cand:
  assumes "sim ps s a" "(c, t, p) \<in> set (vote_keys (cWire s))"
  shows "pCand a c t \<noteq> None"
proof -
  obtain x where x: "x \<in> set (cWire s)" "(c, t, p) \<in> set (vote_key (snd x))"
    using assms(2) by (auto simp: vote_keys_def)
  then have "msg_ok ps a (snd x)" using assms(1) by (simp add: sim_def)
  then show ?thesis using x(2) by (cases "snd x") auto
qed

lemma vote_keys_requests:
  "vote_keys (map (\<lambda>(p, args). (False, VoteReq n p args)) (map (\<lambda>p. (p, args)) ps))
     = map (\<lambda>p. (n, rvTerm args, p)) ps"
  by (induction ps) (auto simp: vote_keys_def)

lemma election_votes_ok:
  assumes sim: "sim ps s a" and dist: "distinct ps"
    and G: "pGrant b = (pGrant a)(n := (pGrant a n)(pTerm a n + 1 := {n}))"
    and t: "rvTerm args = pTerm a n + 1"
    and s': "cVotes s' = (cVotes s)(n := (cVotes s n)(pTerm a n + 1 := 1))"
      "cWire s' = cWire s @ map (\<lambda>(p, args). (False, VoteReq n p args)) (map (\<lambda>p. (p, args)) (filter (\<lambda>p. p \<noteq> n) ps))"
  shows "votes_ok b s'"
proof -
  let ?new = "map (\<lambda>p. (n, pTerm a n + 1, p)) (filter (\<lambda>p. p \<noteq> n) ps)"
  have keys: "vote_keys (cWire s') = vote_keys (cWire s) @ ?new"
    using s'(2) vote_keys_requests [of n args] t by simp
  have ok: "votes_ok a s" using sim by (simp add: sim_def)
  have fresh: "(n, pTerm a n + 1, p) \<notin> set (vote_keys (cWire s))" for p
    using wire_key_cand [OF sim] pinv_futureD(3) [of "set ps" a n] sim by (fastforce simp: sim_def)
  have "distinct ?new" using dist by (simp add: distinct_map inj_on_def)
  then have "distinct (vote_keys (cWire s'))" using ok fresh unfolding keys by (auto simp: votes_ok_def)
  moreover have "p \<notin> pGrant b c t" if "(c, t, p) \<in> set (vote_keys (cWire s'))" for c t p
    using that ok fresh unfolding keys G by (auto simp: votes_ok_def)
  moreover have "cVotes s' c t = int (card (pGrant b c t))" for c t
    using ok unfolding s'(1) G by (auto simp: votes_ok_def)
  ultimately show ?thesis by (simp add: votes_ok_def)
qed

lemma fire_progress:
  assumes sim: "sim ps s a" and dist: "distinct ps" and n: "n \<in> set ps" and fire: "cTicker s n = TkFire"
  shows "progress ps a (step_tick n now d s)"
proof -
  have ok: "pinv (set ps) a" "node_ok ps a n (cNodes s n)" using sim by (auto simp: sim_def)
  obtain rf' b args where e: "startElection d (cNodes s n) = Some (rf', map (\<lambda>p. (p, args)) (filter (\<lambda>p. p \<noteq> n) ps))"
      "pstep (set ps) a b" "pframe n a b" "node_ok ps b n rf'" "lastApplied rf' = lastApplied (cNodes s n)"
      "rlog rf' = rlog (cNodes s n)" "currentTerm rf' = pTerm a n + 1" "rvTerm args = pTerm a n + 1"
      "pGrant b = (pGrant a)(n := (pGrant a n)(pTerm a n + 1 := {n}))"
      "\<And>p. p \<in> set ps \<Longrightarrow> p \<noteq> n \<Longrightarrow> msg_ok ps b (VoteReq n p args)"
    using startElection_sim [OF ok n, of d] by blast
  define s' where "s' = s\<lparr>cNodes := (cNodes s)(n := rf'), cTicker := (cTicker s)(n := TkLoop),
      cVotes := (cVotes s)(n := (cVotes s n)(currentTerm rf' := 1)),
      cWire := cWire s @ map (\<lambda>(p, args). (False, VoteReq n p args)) (map (\<lambda>p. (p, args)) (filter (\<lambda>p. p \<noteq> n) ps))\<rparr>"
  have "step_tick n now d s = Some s'" using fire e(1) by (simp add: step_tick_def s'_def)
  moreover have "votes_ok b s'"
    by (rule election_votes_ok [OF sim dist e(9,8)]) (simp_all add: s'_def e(7))
  then have "sim ps s' b"
  proof (intro sim_update [OF sim, of b n s'])
    show "apply_ok (cNodes s' n) (cApply s' n)"
      using sim e(5,6) by (simp add: s'_def apply_ok_def sim_def)
    show "x \<in> set (cWire s) \<or> snd x \<in> snd ` set (cWire s) \<or> msg_ok ps b (snd x)" if "x \<in> set (cWire s')" for x
      using that e(10) by (auto simp: s'_def)
  qed (use e in \<open>auto simp: s'_def\<close>)
  ultimately show ?thesis using e(2) by (auto simp: progress_def)
qed

lemma tick_progress:
  assumes sim: "sim ps s a" and "distinct ps" "n \<in> set ps"
  shows "progress ps a (step_tick n now d s)"
proof -
  have "sim ps (s\<lparr>cTicker := tk\<rparr>) a" for tk
    by (rule sim_local [OF sim]) (use sim in \<open>auto simp: sim_def votes_ok_def\<close>)
  then show ?thesis using fire_progress [OF assms] sim
    by (cases "cTicker s n") (auto simp: step_tick_def)
qed

lemma send_progress:
  assumes sim: "sim ps s a"
  shows "progress ps a (step_send n p s)"
proof (cases "p \<in> set ps \<and> p \<noteq> n")
  case True
  have ok: "pinv (set ps) a" "node_ok ps a n (cNodes s n)" using sim by (auto simp: sim_def)
  obtain r where r: "sendAppendEntriesTo p (currentTerm (cNodes s n)) (cNodes s n) = Some r"
      "\<And>args. r = Some args \<Longrightarrow> msg_ok ps a (AppReq n p args)"
    using sendAppendEntriesTo_ok [OF ok] True by blast
  have br: "p \<in> set (broadcastAppendEntries (cNodes s n))"
    using True node_okD(1,2) [OF ok(2)] by (simp add: broadcastAppendEntries_def)
  show ?thesis
  proof (cases r)
    case None
    then show ?thesis using r(1) br sim by (auto simp: step_send_def)
  next
    case (Some args)
    have "sim ps (s\<lparr>cWire := cWire s @ [(False, AppReq n p args)]\<rparr>) a"
      using sim r(2) [OF Some] by (auto simp: sim_def votes_ok_def vote_keys_def)
    then show ?thesis using r(1) br Some by (auto simp: step_send_def)
  qed
next
  case False
  then have "p \<notin> set (broadcastAppendEntries (cNodes s n))"
    using node_okD(1,2) [of ps a n "cNodes s n"] sim by (auto simp: broadcastAppendEntries_def sim_def)
  then show ?thesis using sim by (auto simp: step_send_def)
qed

text \<open>Counting the vote of a returned call removes the call, so no vote is counted twice.\<close>

lemma counted_votes_ok:
  assumes ok: "votes_ok a s" and k: "k < length (cWire s)" and m: "snd (cWire s ! k) = VoteRep c p t reply"
    and a': "a' = a \<and> v = cVotes s c t \<or> v = cVotes s c t + 1 \<and> finite (pGrant a c t)
      \<and> a' = a\<lparr>pGrant := (pGrant a)(c := (pGrant a c)(t := insert p (pGrant a c t)))\<rparr>"
  shows "p \<notin> pGrant a c t" "votes_ok a' (drop_call k (s\<lparr>cVotes := (cVotes s)(c := (cVotes s c)(t := v))\<rparr>))"
proof -
  let ?s = "s\<lparr>cVotes := (cVotes s)(c := (cVotes s c)(t := v))\<rparr>"
  let ?w = "vote_keys (take k (cWire s)) @ vote_keys (drop (Suc k) (cWire s))"
  have key: "vote_keys (cWire s) = vote_keys (take k (cWire s)) @ (c, t, p) # vote_keys (drop (Suc k) (cWire s))"
    using vote_keys_split [OF k] m by simp
  show p: "p \<notin> pGrant a c t" using ok unfolding votes_ok_def key by auto
  have w: "vote_keys (cWire (drop_call k ?s)) = ?w" by (simp add: drop_call_def)
  have "distinct (vote_keys (cWire s))" using ok by (simp add: votes_ok_def)
  then have d: "distinct ?w" "(c, t, p) \<notin> set ?w" unfolding key by auto
  have old: "p' \<notin> pGrant a c' t'" if "(c', t', p') \<in> set ?w" for c' t' p'
    using ok that unfolding votes_ok_def key by auto
  have "p' \<notin> pGrant a' c' t'" if "(c', t', p') \<in> set ?w" for c' t' p'
    using old [OF that] d(2) that a' by (auto split: if_splits)
  moreover have "cVotes (drop_call k ?s) c' t' = int (card (pGrant a' c' t'))" for c' t'
    using ok a' p by (auto simp: votes_ok_def drop_call_def)
  ultimately show "votes_ok a' (drop_call k ?s)" using d(1) unfolding votes_ok_def w by blast
qed

lemma voteRep_progress:
  assumes sim: "sim ps s a" and dist: "distinct ps"
    and k: "k < length (cWire s)" "fst (cWire s ! k)" and m: "snd (cWire s ! k) = VoteRep c p t reply"
  shows "progress ps a (step_reply k d s)"
proof -
  have ok: "pinv (set ps) a" "node_ok ps a c (cNodes s c)" "votes_ok a s" using sim by (auto simp: sim_def)
  have new: "p \<notin> pGrant a c t" "cVotes s c t = int (card (pGrant a c t))"
    using counted_votes_ok(1) [OF ok(3) k(1) m, of a "cVotes s c t"] ok(3) by (auto simp: votes_ok_def)
  have msg: "msg_ok ps a (VoteRep c p t reply)" using sim_wire [OF sim k(1)] m by simp
  obtain rf' v a' b where h: "handleVoteReply d t reply (cVotes s c t) (cNodes s c) = Some (rf', v)"
      "(pstep (set ps))\<^sup>*\<^sup>* a a'" "pframe c a a'" "nstep ps c a' (cNodes s c) b rf'"
      "a' = a \<and> v = cVotes s c t \<or> v = cVotes s c t + 1
        \<and> a' = a\<lparr>pGrant := (pGrant a)(c := (pGrant a c)(t := insert p (pGrant a c t)))\<rparr>"
    using handleVoteReply_sim [OF ok(1,2) dist msg new, of d] by blast
  let ?s = "drop_call k (s\<lparr>cVotes := (cVotes s)(c := (cVotes s c)(t := v))\<rparr>)"
  have "votes_ok a' ?s"
    using counted_votes_ok(2) [OF ok(3) k(1) m] h(5) grant_finite [OF ok(1), of c t] by blast
  then have "votes_ok b (set_node c rf' ?s)" using h(4) votes_ok_grant by (auto simp: nstep_def)
  moreover have ab: "(pstep (set ps))\<^sup>*\<^sup>* a b" "pframe c a b" "node_ok ps b c rf'"
    using h(2-4) pframe_trans by (auto simp: nstep_def)
  moreover have "x \<in> set (cWire s)" if "x \<in> set (cWire (set_node c rf' ?s))" for x
    using that by (auto simp: set_node_def drop_call_def dest: in_set_takeD in_set_dropD)
  ultimately have "sim ps (set_node c rf' ?s) b"
    using sim h(4) by (intro sim_update [OF sim ab(1,2)])
      (auto simp: set_node_def drop_call_def sim_def apply_ok_def nstep_def)
  then show ?thesis using h(1) ab(1) k m by (auto simp: progress_def step_reply_def)
qed

lemma reply_progress:
  assumes sim: "sim ps s a" and dist: "distinct ps"
  shows "progress ps a (step_reply k d s)"
proof (cases "k < length (cWire s) \<and> fst (cWire s ! k)")
  case True
  then have k: "k < length (cWire s)" "fst (cWire s ! k)" by auto
  show ?thesis
  proof (cases "snd (cWire s ! k)")
    case (VoteRep c p t reply)
    then show ?thesis using voteRep_progress [OF sim dist k] by blast
  next
    case (AppRep l p args reply)
    have ok: "pinv (set ps) a" "node_ok ps a l (cNodes s l)" "votes_ok a s" using sim by (auto simp: sim_def)
    have msg: "msg_ok ps a (AppRep l p args reply)" using sim_wire [OF sim k(1)] AppRep by simp
    obtain rf' b where h: "handleAppendReply d p args reply (cNodes s l) = Some rf'" "nstep ps l a (cNodes s l) b rf'"
      using handleAppendReply_nstep [OF ok(1,2) dist msg, of d] by blast
    have "votes_ok b (drop_call k s)"
      using votes_ok_drop [OF ok(3) k(1)] votes_ok_grant h(2) by (auto simp: nstep_def)
    then have "sim ps (set_node l rf' (drop_call k s)) b"
      using sim by (intro sim_nstep [OF sim h(2)])
        (auto simp: set_node_def drop_call_def votes_ok_def dest: in_set_takeD in_set_dropD)
    then show ?thesis using h AppRep k by (auto simp: step_reply_def progress_def nstep_def)
  qed (use k sim in \<open>auto simp: step_reply_def\<close>)
next
  case False
  then show ?thesis using sim by (auto simp: step_reply_def)
qed

lemma start_progress:
  assumes sim: "sim ps s a"
  shows "progress ps a (step_start n c s)"
proof -
  have ok: "pinv (set ps) a" "node_ok ps a n (cNodes s n)" "votes_ok a s" using sim by (auto simp: sim_def)
  obtain rf' r b where h: "Start c (cNodes s n) = Some (rf', r)" "nstep ps n a (cNodes s n) b rf'"
    using Start_nstep [OF ok(1,2), of c] by blast
  have "votes_ok b (set_node n rf' s)" using ok(3) h(2) votes_ok_grant by (auto simp: nstep_def)
  then have "sim ps (set_node n rf' s) b"
    by (intro sim_nstep [OF sim h(2)]) (auto simp: set_node_def)
  then show ?thesis using h by (auto simp: step_start_def progress_def nstep_def)
qed

lemma apply_progress:
  assumes sim: "sim ps s a"
  shows "progress ps a (step_apply n s)"
proof -
  let ?rf = "cNodes s n"
  have ok: "pinv (set ps) a" "node_ok ps a n ?rf" "votes_ok a s" "apply_ok ?rf (cApply s n)"
    using sim by (auto simp: sim_def)
  have ci: "0 \<le> lastApplied ?rf" "lastApplied ?rf \<le> commitIndex ?rf" "commitIndex ?rf < int (length (rlog ?rf))"
    using node_okD [OF ok(2)] pcommit_bound [OF ok(1), of n] by auto
  obtain msgs where m: "applyTicker ?rf = Some (?rf\<lparr>lastApplied := commitIndex ?rf\<rparr>, msgs)"
      "apply_ok (?rf\<lparr>lastApplied := commitIndex ?rf\<rparr>) (cApply s n @ msgs)"
    using applyTicker_result [OF ci ok(4)] by blast
  let ?s = "set_node n (?rf\<lparr>lastApplied := commitIndex ?rf\<rparr>) (s\<lparr>cApply := (cApply s)(n := cApply s n @ msgs)\<rparr>)"
  have "node_ok ps a n (?rf\<lparr>lastApplied := commitIndex ?rf\<rparr>)" using ok(2) by (auto simp: node_ok_def leader_ok_def)
  then have "sim ps ?s a"
    using m(2) ok(3) by (intro sim_update [OF sim, of a n]) (auto simp: set_node_def votes_ok_def)
  then show ?thesis using m(1) by (auto simp: step_apply_def)
qed

lemma kill_progress:
  assumes sim: "sim ps s a"
  shows "progress ps a (Some (set_node n (Kill (cNodes s n)) s))"
proof -
  have "node_ok ps a n (cNodes s n)" "apply_ok (cNodes s n) (cApply s n)" using sim by (simp_all add: sim_def)
  then have "node_ok ps a n (Kill (cNodes s n))" "apply_ok (Kill (cNodes s n)) (cApply s n)"
    by (auto simp: node_ok_def Kill_def leader_ok_def apply_ok_def)
  then have "sim ps (set_node n (Kill (cNodes s n)) s) a"
    using sim by (intro sim_update [OF sim, of a n]) (auto simp: set_node_def votes_ok_def sim_def)
  then show ?thesis by blast
qed

subsection \<open>Runs\<close>

lemma cstep_progress:
  assumes "sim ps s a" "distinct ps" "\<forall>p \<in> set ps. 0 \<le> p"
  shows "progress ps a (cstep ps ev s)"
  by (cases ev) (simp_all add: assms tick_progress [OF assms(1,2)] send_progress [OF assms(1)]
      admit_progress [OF assms(1)] handle_progress [OF assms(1,3)] return_progress [OF assms(1)]
      reply_progress [OF assms(1,2)] start_progress [OF assms(1)] apply_progress [OF assms(1)]
      kill_progress [OF assms(1)] progress_same [OF assms(1)] progress_same [OF sim_net [OF assms(1)]])

lemma sim_init: "sim ps (Make_cluster ps ds :: 'c cluster) pinit"
proof -
  have "node_ok ps pinit n (newRaft (ds n) n ps :: 'c Raft)" for n
    by (simp add: node_ok_def newRaft_def pinit_def vote_of_def sentinel_def resetElectionTimer_def)
  moreover have "votes_ok pinit (Make_cluster ps ds :: 'c cluster)"
    by (simp add: votes_ok_def Make_cluster_def vote_keys_def pinit_def)
  ultimately show ?thesis
    by (simp add: sim_def Make_cluster_def pinv_init apply_ok_def applied_of_def newRaft_def resetElectionTimer_def)
qed

lemma crun_sim:
  assumes "distinct ps" "\<forall>p \<in> set ps. 0 \<le> p"
  shows "sim ps s a \<Longrightarrow> \<exists>s' b. crun ps evs s = Some s' \<and> (pstep (set ps))\<^sup>*\<^sup>* a b \<and> sim ps s' b"
proof (induction evs arbitrary: s a)
  case (Cons ev evs)
  obtain s1 a1 where 1: "cstep ps ev s = Some s1" "(pstep (set ps))\<^sup>*\<^sup>* a a1" "sim ps s1 a1"
    using cstep_progress [OF Cons.prems assms, of ev] unfolding progress_def by blast
  obtain s2 b where "crun ps evs s1 = Some s2" "(pstep (set ps))\<^sup>*\<^sup>* a1 b" "sim ps s2 b"
    using Cons.IH [OF 1(3)] by blast
  then show ?case using 1(1) rtranclp_trans [OF 1(2)] by auto
qed auto

text \<open>A run of the cluster seen through the protocol, at two moments.\<close>

lemma crun_two:
  assumes "distinct ps" "\<forall>p \<in> set ps. 0 \<le> p"
    and "crun ps evs1 (Make_cluster ps ds) = Some s" "crun ps evs2 s = Some s'"
  obtains a b where "sim ps s a" "sim ps s' b" "(pstep (set ps))\<^sup>*\<^sup>* a b" "pinv (set ps) a" "pinv (set ps) b" "pext a b"
proof -
  obtain a where a: "sim ps s a" using crun_sim [OF assms(1,2) sim_init, of evs1 ds] assms(3) by auto
  obtain b where b: "(pstep (set ps))\<^sup>*\<^sup>* a b" "sim ps s' b"
    using crun_sim [OF assms(1,2) a, of evs2] assms(4) by auto
  then show ?thesis using that [of a b] a psteps_inv [OF b(1)] by (auto simp: sim_def)
qed

lemma sim_node:
  assumes "sim ps s a"
  shows "rlog (cNodes s n) = pLog a n" "currentTerm (cNodes s n) = pTerm a n"
    "commitIndex (cNodes s n) = int (pCommit a n)"
    "rstate (cNodes s n) = Leader \<longleftrightarrow> pLead a (pTerm a n) = Some n"
    "0 \<le> lastApplied (cNodes s n)" "lastApplied (cNodes s n) \<le> int (pCommit a n)"
    "cApply s n = applied_of (take (Suc (nat (lastApplied (cNodes s n)))) (pLog a n))"
proof -
  have "node_ok ps a n (cNodes s n)" "apply_ok (cNodes s n) (cApply s n)" using assms by (simp_all add: sim_def)
  note node = node_okD [OF this(1)] and app = this(2)
  show "rlog (cNodes s n) = pLog a n" "currentTerm (cNodes s n) = pTerm a n"
    "commitIndex (cNodes s n) = int (pCommit a n)"
    "rstate (cNodes s n) = Leader \<longleftrightarrow> pLead a (pTerm a n) = Some n"
    "0 \<le> lastApplied (cNodes s n)" "lastApplied (cNodes s n) \<le> int (pCommit a n)"
    by (fact node)+
  show "cApply s n = applied_of (take (Suc (nat (lastApplied (cNodes s n)))) (pLog a n))"
    using app node(4) by (simp add: apply_ok_def)
qed

lemma psteps_committed:
  assumes "(pstep S)\<^sup>*\<^sup>* a b" "pinv S a"
  shows "pCommit a n \<le> pCommit b n \<and> take (Suc (pCommit a n)) (pLog b n) = take (Suc (pCommit a n)) (pLog a n)"
  using assms
proof (induction rule: rtranclp_induct)
  case (step b c)
  then have inv: "pinv S b" using psteps_inv by blast
  have "pCommit b n \<le> pCommit c n" using step(2) by cases auto
  moreover have "take (Suc (pCommit a n)) (pLog c n) = take (Suc (pCommit a n)) (pLog b n)"
    using take_eq_take_le [OF step_keeps_committed [OF inv step(2), of n]] step by simp
  ultimately show ?case using step by simp
qed simp

lemma applied_of_prefix: "prefix xs ys \<Longrightarrow> prefix (applied_of xs) (applied_of ys)"
  by (auto simp: prefix_def)

lemma sim_applied_comparable:
  assumes "sim ps s a"
  shows "prefix (cApply s n) (cApply s m) \<or> prefix (cApply s m) (cApply s n)"
proof -
  have inv: "pinv (set ps) a" using assms by (simp add: sim_def)
  have cmp: "prefix (cApply s x) (cApply s y)" if "lastApplied (cNodes s x) \<le> lastApplied (cNodes s y)" for x y
  proof -
    let ?i = "nat (lastApplied (cNodes s x))" and ?j = "nat (lastApplied (cNodes s y))"
    have "?i \<le> ?j" "?i \<le> pCommit a x" "?i \<le> pCommit a y"
      using that sim_node(5,6) [OF assms, of x] sim_node(5,6) [OF assms, of y] by auto
    then have eq: "take (Suc ?i) (pLog a x) = take (Suc ?i) (pLog a y)" and le: "Suc ?i \<le> Suc ?j"
      using pcommit_agree [OF inv, of ?i x y] by simp_all
    show ?thesis unfolding sim_node(7) [OF assms] eq
      using applied_of_prefix [OF take_is_prefix [of "Suc ?i" "take (Suc ?j) (pLog a y)"]] le
      by (simp add: min.absorb1)
  qed
  show ?thesis using cmp [of n m] cmp [of m n] by linarith
qed

lemma committed_in_leader:
  assumes inv: "pinv S a" "pinv S b" and ext: "pext a b" and ld: "pLead b (pTerm b m) = Some m"
    and i: "i \<le> pCommit a n" and t: "pTerm a n \<le> pTerm b m"
  shows "i < length (pLog b m) \<and> take (Suc i) (pLog b m) = take (Suc i) (pLog a n)"
proof -
  have log: "pLog b m = pLLog b (pTerm b m)" using leader_log [OF inv(2) ld] .
  have eq: "take (Suc i) (pLLog b (pTerm b m)) = take (Suc i) (pLog a n)"
  proof (cases "i = 0")
    case True
    have "pLLog b (pTerm b m) ! 0 = pLog a n ! 0" "pLLog b (pTerm b m) \<noteq> []" "pLog a n \<noteq> []"
      using pinv_leadD(4) [OF inv(2) ld] pinv_logD(1) [OF inv(1), of n] by (auto simp: wf_log_def)
    then show ?thesis using True by (simp add: take_Suc hd_conv_nth)
  next
    case False
    then obtain u j where u: "chosen S a u j" "pCommit a n \<le> j" "u \<le> pTerm a n"
        "take (Suc (pCommit a n)) (pLog a n) = take (Suc (pCommit a n)) (pLLog a u)"
      using pinv_commitD [OF inv(1), of n] i by (metis le_zero_eq)
    have ch: "chosen S b u j" using chosen_mono [OF ext u(1)] .
    have j: "j < length (pLLog a u)" "pLead a u \<noteq> None" using u(1) by (auto simp: chosen_def)
    have "take (Suc i) (pLog a n) = take (Suc i) (pLLog a u)" using take_eq_take_le [OF u(4)] i by simp
    also have "\<dots> = take (Suc i) (pLLog b u)" using pext_llog_take [OF ext j(2), of "Suc i"] j(1) i u(2) by simp
    also have "\<dots> = take (Suc i) (pLLog b (pTerm b m))"
    proof (cases "u = pTerm b m")
      case False
      then have "prefix (take (Suc j) (pLLog b u)) (pLLog b (pTerm b m))"
        using leader_completeness [OF inv(2) ch, of "pTerm b m"] ld t u(3) by simp
      moreover have "Suc i \<le> length (take (Suc j) (pLLog b u))" using ch i u(2) by (simp add: chosen_def)
      ultimately show ?thesis using prefix_take_prefix i u(2) by fastforce
    qed simp
    finally show ?thesis by simp
  qed
  have "Suc i \<le> length (pLog a n)" using pcommit_bound [OF inv(1), of n] i by simp
  then have "i < length (pLog b m)" using take_eq_length [OF eq[symmetric]] log by simp
  then show ?thesis using eq log by simp
qed

text \<open>Only the apply loop of a server touches what it has delivered, and only at the end.\<close>

lemma cstep_applied_grows:
  assumes "cstep ps ev s = Some s'"
  shows "prefix (cApply s n) (cApply s' n)"
  using assms
  by (cases ev) (auto simp: step_tick_def step_send_def step_admit_def step_handle_def step_return_def
      step_reply_def step_start_def step_apply_def set_node_def drop_call_def Let_def
      split: if_splits ticker.splits msg.splits option.splits bind_splits)

lemma crun_applied_grows:
  "crun ps evs s = Some s' \<Longrightarrow> prefix (cApply s n) (cApply s' n)"
proof (induction evs arbitrary: s)
  case (Cons ev evs)
  then obtain s1 where "cstep ps ev s = Some s1" "crun ps evs s1 = Some s'"
    by (auto split: bind_splits)
  then show ?case using Cons.IH cstep_applied_grows prefix_order.trans by blast
qed simp

subsection \<open>The commit rule\<close>

lemma advanceLoop_max:
  assumes "0 \<le> commitIndex rf" "n < int (length (rlog rf))"
  shows "advanceLoop rf n = Some (Max (insert (commitIndex rf) {i. commitIndex rf < i \<and> i \<le> n
    \<and> leTerm (rlog rf ! nat i) = currentTerm rf \<and> majority rf \<le> replicaCount rf i}))"
    (is "_ = Some (Max (insert _ (?A n)))")
  using assms(2)
proof (induction "nat (n - commitIndex rf)" arbitrary: n)
  case 0
  then have A: "?A n = {}" and n: "\<not> n > commitIndex rf" by auto
  show ?case unfolding A using n by (subst advanceLoop.simps) simp
next
  case (Suc m)
  then have n: "n > commitIndex rf" by simp
  have fin: "finite (insert (commitIndex rf) (?A n))"
    by (rule finite_subset [of _ "{commitIndex rf..n}"]) (use n in auto)
  have e: "go_nth (rlog rf) n = Some (rlog rf ! nat n)" using n assms(1) Suc.prems by (simp add: go_nth_in)
  show ?case
  proof (cases "n \<in> ?A n")
    case True
    then have "Max (insert (commitIndex rf) (?A n)) = n" by (intro Max_eqI [OF fin]) auto
    then show ?thesis using True n e by (subst advanceLoop.simps) simp
  next
    case False
    then have "?A (n - 1) = ?A n" by (auto simp: order_le_less)
    moreover have "advanceLoop rf n = advanceLoop rf (n - 1)"
      using False n e by (subst advanceLoop.simps) auto
    moreover have "m = nat (n - 1 - commitIndex rf)" "n - 1 < int (length (rlog rf))" using Suc by simp_all
    ultimately show ?thesis using Suc.hyps(1) [of "n - 1"] by simp
  qed
qed

subsection \<open>A cluster of one\<close>

definition lonely :: "int \<Rightarrow> 'c cluster \<Rightarrow> bool" where
  "lonely p s \<longleftrightarrow> cWire s = [] \<and> rstate (cNodes s p) \<noteq> Leader"

lemma lonely_init: "lonely p (Make_cluster [p] ds)"
  by (simp add: lonely_def Make_cluster_def newRaft_def resetElectionTimer_def)

lemma startElection_lonely:
  assumes "startElection d rf = Some (rf', reqs)" "me rf = p" "peers rf = [p]"
  shows "reqs = [] \<and> rstate rf' \<noteq> Leader"
  using assms by (auto simp: startElection_def Let_def split: bind_splits)

lemma applyTicker_rstate: "applyTicker rf = Some (rf', ms) \<Longrightarrow> rstate rf' = rstate rf"
proof (induction rf arbitrary: rf' ms rule: applyTicker.induct)
  case (1 rf)
  from 1(3) show ?case
    by (subst (asm) applyTicker.simps) (auto simp: Let_def split: if_splits option.splits dest: 1(1,2))
qed

lemma cstep_lonely:
  assumes sim: "sim [p] s a" and l: "lonely p s" and st: "cstep [p] ev s = Some s'"
  shows "lonely p s'"
proof -
  have node: "me (cNodes s p) = p" "peers (cNodes s p) = [p]"
    using sim node_okD(1,2) [of "[p]" a p "cNodes s p"] by (auto simp: sim_def)
  show ?thesis
  proof (cases ev)
    case (EvTick n now d)
    have "reqs = [] \<and> rstate rf' \<noteq> Leader" if "startElection d (cNodes s p) = Some (rf', reqs)" for rf' reqs
      using startElection_lonely [OF that node] .
    then show ?thesis using EvTick st l
      by (auto simp: lonely_def step_tick_def split: if_splits ticker.splits bind_splits)
  next
    case (EvApply n)
    then show ?thesis using st l applyTicker_rstate
      by (fastforce simp: lonely_def step_apply_def set_node_def split: if_splits bind_splits)
  qed (use st l node in \<open>auto simp: lonely_def step_send_def step_admit_def step_handle_def step_return_def
      step_reply_def step_start_def Start_def set_node_def Kill_def broadcastAppendEntries_def
      split: if_splits bind_splits\<close>)
qed

lemma crun_lonely:
  assumes "0 \<le> p"
  shows "lonely p s \<Longrightarrow> sim [p] s a \<Longrightarrow> crun [p] evs s = Some s' \<Longrightarrow> \<exists>b. sim [p] s' b \<and> lonely p s'"
proof (induction evs arbitrary: s a)
  case (Cons ev evs)
  obtain s1 b where s1: "cstep [p] ev s = Some s1" "sim [p] s1 b"
    using cstep_progress [OF Cons.prems(2), of ev] assms unfolding progress_def by auto
  then have "lonely p s1" using cstep_lonely [OF Cons.prems(2,1)] by blast
  then show ?case using Cons.IH [OF _ s1(2)] Cons.prems(3) s1(1) by simp
qed auto

subsection \<open>A concrete run\<close>

text \<open>
  Three servers: server 0 is elected by server 1, accepts a command, replicates it to
  server 1, commits and applies it; in the second part server 1 learns the commit index
  from the next heartbeat and applies the command.
\<close>

definition demo_first :: "int event list" where
  "demo_first = [EvTick 0 0 (0, 0), EvTick 0 700000000 (0, 0), EvTick 0 700000000 (700000000, 0),
     EvAdmit 0 500, EvHandle 0 (0, 0) (0, 0), EvReturn 0, EvReply 0 (0, 0), EvStart 0 42,
     EvSend 0 1, EvAdmit 1 500, EvHandle 1 (0, 0) (0, 0), EvReturn 1, EvReply 1 (0, 0), EvApply 0]"

definition demo_second :: "int event list" where
  "demo_second = [EvSend 0 1, EvAdmit 1 500, EvHandle 1 (0, 0) (0, 0), EvApply 1]"

definition demo_start :: "int cluster" where
  "demo_start = Make_cluster [0, 1, 2] (\<lambda>_. (0, 0))"

definition demo_mid :: "int cluster" where
  "demo_mid = the (crun [0, 1, 2] demo_first demo_start)"

definition demo_end :: "int cluster" where
  "demo_end = the (crun [0, 1, 2] demo_second demo_mid)"

lemma demo_run:
  "crun [0, 1, 2] demo_first (Make_cluster [0, 1, 2] (\<lambda>_. (0, 0))) = Some demo_mid"
  "crun [0, 1, 2] demo_second demo_mid = Some demo_end"
proof -
  have "crun [0, 1, 2] demo_first demo_start \<noteq> None" by code_simp
  then show "crun [0, 1, 2] demo_first (Make_cluster [0, 1, 2] (\<lambda>_. (0, 0))) = Some demo_mid"
    by (auto simp: demo_mid_def demo_start_def)
  have "crun [0, 1, 2] demo_second demo_mid \<noteq> None" by code_simp
  then show "crun [0, 1, 2] demo_second demo_mid = Some demo_end" by (auto simp: demo_end_def)
qed

subsection \<open>Properties\<close>

text \<open>
  C1: Every schedule of the cluster (timers, message loss, reordering and delays, client
  commands, kills) runs without a panic of any server, and is a sequence of steps of the
  Raft protocol: the state reached is related to a protocol state reachable from the
  initial one.
\<close>

theorem cluster_refines_protocol:
  assumes "distinct ps" "\<forall>p \<in> set ps. 0 \<le> p"
  shows "\<exists>s a. crun ps evs (Make_cluster ps ds) = Some s \<and> (pstep (set ps))\<^sup>*\<^sup>* pinit a \<and> sim ps s a"
  using crun_sim [OF assms sim_init] by blast

theorem cluster_refines_protocol_witness:
  "\<exists>s a. crun [0, 1, 2] demo_first (Make_cluster [0, 1, 2] (\<lambda>_. (0, 0))) = Some s
     \<and> (pstep (set [0, 1, 2]))\<^sup>*\<^sup>* pinit a \<and> sim [0, 1, 2] s a"
  by (rule cluster_refines_protocol) auto

text \<open>C8: Election safety: two servers that are leaders in the same term are the same server.\<close>

theorem election_safety:
  assumes "distinct ps" "\<forall>p \<in> set ps. 0 \<le> p"
    and "crun ps evs (Make_cluster ps ds) = Some s"
    and "rstate (cNodes s n) = Leader" "rstate (cNodes s m) = Leader"
    and "currentTerm (cNodes s n) = currentTerm (cNodes s m)"
  shows "n = m"
proof -
  obtain a where a: "sim ps s a" using crun_sim [OF assms(1,2) sim_init, of evs ds] assms(3) by auto
  then show ?thesis using assms(4-6) sim_node(2,4) [OF a] by (metis option.inject)
qed

theorem election_safety_witness:
  "rstate (cNodes demo_mid 0) = Leader \<and> currentTerm (cNodes demo_mid 1) = currentTerm (cNodes demo_mid 0)
     \<and> rstate (cNodes demo_mid 1) \<noteq> Leader"
proof -
  have "rstate (cNodes demo_mid 0) = Leader" "currentTerm (cNodes demo_mid 1) = currentTerm (cNodes demo_mid 0)"
    by code_simp+
  then show ?thesis using election_safety [OF _ _ demo_run(1), of 0 1] by auto
qed

text \<open>
  C10: Log matching: when two servers' logs have an entry of the same term at the same
  index, they agree on that entry and on all entries before it.
\<close>

theorem log_matching:
  assumes "distinct ps" "\<forall>p \<in> set ps. 0 \<le> p"
    and "crun ps evs (Make_cluster ps ds) = Some s"
    and "i < length (rlog (cNodes s n))" "i < length (rlog (cNodes s m))"
    and "leTerm (rlog (cNodes s n) ! i) = leTerm (rlog (cNodes s m) ! i)"
  shows "take (Suc i) (rlog (cNodes s n)) = take (Suc i) (rlog (cNodes s m))"
proof -
  obtain a where a: "sim ps s a" using crun_sim [OF assms(1,2) sim_init, of evs ds] assms(3) by auto
  then show ?thesis using assms(4-6) plog_matching [of "set ps" a i n m]
    by (simp add: sim_node(1) [OF a] sim_def)
qed

theorem log_matching_witness:
  "take (Suc 2) (rlog (cNodes demo_mid 0)) = take (Suc 2) (rlog (cNodes demo_mid 1))"
proof -
  have "2 < length (rlog (cNodes demo_mid 0))" "2 < length (rlog (cNodes demo_mid 1))"
    "leTerm (rlog (cNodes demo_mid 0) ! 2) = leTerm (rlog (cNodes demo_mid 1) ! 2)" by code_simp+
  then show ?thesis using log_matching [OF _ _ demo_run(1), of 2 0 1] by auto
qed

text \<open>
  C9: Leader completeness: an entry that some server knows to be committed is in the log
  of every server that is leader, at that or any later moment, in the same or a later term,
  and at the same index.
\<close>

theorem leader_has_committed:
  assumes "distinct ps" "\<forall>p \<in> set ps. 0 \<le> p"
    and "crun ps evs1 (Make_cluster ps ds) = Some s" "crun ps evs2 s = Some s'"
    and "int i \<le> commitIndex (cNodes s n)"
    and "rstate (cNodes s' m) = Leader" "currentTerm (cNodes s n) \<le> currentTerm (cNodes s' m)"
  shows "i < length (rlog (cNodes s' m)) \<and> take (Suc i) (rlog (cNodes s' m)) = take (Suc i) (rlog (cNodes s n))"
proof -
  obtain a b where ab: "sim ps s a" "sim ps s' b" "pinv (set ps) a" "pinv (set ps) b" "pext a b"
    using crun_two [OF assms(1-4)] by blast
  have "pLead b (pTerm b m) = Some m" "i \<le> pCommit a n" "pTerm a n \<le> pTerm b m"
    using assms(5-7) sim_node(2,3,4) [OF ab(1)] sim_node(2,4) [OF ab(2)] by auto
  then show ?thesis
    using committed_in_leader [OF ab(3-5)] sim_node(1) [OF ab(1)] sim_node(1) [OF ab(2)] by simp
qed

theorem leader_has_committed_witness:
  "2 < length (rlog (cNodes demo_end 0)) \<and> take (Suc 2) (rlog (cNodes demo_end 0)) = take (Suc 2) (rlog (cNodes demo_mid 0))"
proof -
  have "int 2 \<le> commitIndex (cNodes demo_mid 0)" "rstate (cNodes demo_end 0) = Leader"
    "currentTerm (cNodes demo_mid 0) \<le> currentTerm (cNodes demo_end 0)" by code_simp+
  then show ?thesis using leader_has_committed [OF _ _ demo_run, of 2 0 0] by auto
qed

text \<open>
  C11: What a server has committed is stable: its term and commit index never decrease, and
  the entries up to its commit index never change, whatever happens afterwards.
\<close>

theorem committed_prefix_stable:
  assumes "distinct ps" "\<forall>p \<in> set ps. 0 \<le> p"
    and "crun ps evs1 (Make_cluster ps ds) = Some s" "crun ps evs2 s = Some s'"
    and "int k = commitIndex (cNodes s n)"
  shows "currentTerm (cNodes s n) \<le> currentTerm (cNodes s' n) \<and> int k \<le> commitIndex (cNodes s' n)
    \<and> take (Suc k) (rlog (cNodes s' n)) = take (Suc k) (rlog (cNodes s n))"
proof -
  obtain a b where ab: "sim ps s a" "sim ps s' b" "(pstep (set ps))\<^sup>*\<^sup>* a b" "pinv (set ps) a" "pext a b"
    using crun_two [OF assms(1-4)] by metis
  have "k = pCommit a n" using assms(5) sim_node(3) [OF ab(1)] by simp
  moreover have "pTerm a n \<le> pTerm b n" using ab(5) by (simp add: pext_def)
  ultimately show ?thesis
    using psteps_committed [OF ab(3,4), of n] sim_node(1-3) [OF ab(1)] sim_node(1-3) [OF ab(2)] by simp
qed

theorem committed_prefix_stable_witness:
  "currentTerm (cNodes demo_mid 0) \<le> currentTerm (cNodes demo_end 0) \<and> int 2 \<le> commitIndex (cNodes demo_end 0)
    \<and> take (Suc 2) (rlog (cNodes demo_end 0)) = take (Suc 2) (rlog (cNodes demo_mid 0))"
proof -
  have "int 2 = commitIndex (cNodes demo_mid 0)" by code_simp
  then show ?thesis using committed_prefix_stable [OF _ _ demo_run, of 2 0] by auto
qed

text \<open>
  C2: State machine safety: at any two moments of a run, of the commands any two servers
  have delivered on their apply channels one sequence is a prefix of the other: same
  commands, same indexes, same order, none skipped.
\<close>

theorem applied_sequences_agree:
  assumes "distinct ps" "\<forall>p \<in> set ps. 0 \<le> p"
    and "crun ps evs1 (Make_cluster ps ds) = Some s" "crun ps evs2 s = Some s'"
  shows "prefix (cApply s n) (cApply s' m) \<or> prefix (cApply s' m) (cApply s n)"
proof -
  obtain a b where ab: "sim ps s a" "sim ps s' b" "(pstep (set ps))\<^sup>*\<^sup>* a b" "pinv (set ps) a"
    using crun_two [OF assms] by metis
  have "prefix (cApply s n) (cApply s' n)" using crun_applied_grows [OF assms(4)] by blast
  then show ?thesis using sim_applied_comparable [OF ab(2), of n m]
    by (meson prefix_order.trans prefix_same_cases)
qed

theorem applied_sequences_agree_witness:
  "(prefix (cApply demo_mid 0) (cApply demo_end 1) \<or> prefix (cApply demo_end 1) (cApply demo_mid 0))
    \<and> cApply demo_end 1 = [\<lparr>amCommandValid = True, amCommand = Some 42, amCommandIndex = 2\<rparr>]"
proof -
  have "cApply demo_end 1 = [\<lparr>amCommandValid = True, amCommand = Some 42, amCommandIndex = 2\<rparr>]" by code_simp
  then show ?thesis using applied_sequences_agree [OF _ _ demo_run, of 0 1] by auto
qed

text \<open>
  C28: Fast backup makes progress: when a follower rejects an AppendEntries of the current
  term, handling the reply moves the leader's next index for it to at least 1 and at most
  the rejected previous index, so the next probe is strictly earlier.
\<close>

theorem rejection_backs_off:
  assumes "distinct ps" "\<forall>p \<in> set ps. 0 \<le> p"
    and "crun ps evs (Make_cluster ps ds) = Some s"
    and "k < length (cWire s)" "cWire s ! k = (True, AppRep l p args reply)"
    and "rstate (cNodes s l) = Leader" "currentTerm (cNodes s l) = aeTerm args"
    and "\<not> aerSuccess reply" "aerTerm reply \<le> currentTerm (cNodes s l)"
  shows "\<exists>s'. cstep ps (EvReply k d) s = Some s' \<and> 1 \<le> gomap_get (nextIndex (cNodes s' l)) p
    \<and> gomap_get (nextIndex (cNodes s' l)) p \<le> aePrevLogIndex args"
proof -
  obtain a where a: "sim ps s a" using crun_sim [OF assms(1,2) sim_init, of evs ds] assms(3) by auto
  have ok: "pinv (set ps) a" "node_ok ps a l (cNodes s l)" "msg_ok ps a (AppRep l p args reply)"
    using a sim_wire [OF a assms(4)] assms(5) by (auto simp: sim_def)
  obtain i nm where h: "handleAppendReply d p args reply (cNodes s l) = Some ((cNodes s l)\<lparr>nextIndex := nm\<rparr>)"
      "gomap_put (nextIndex (cNodes s l)) p i = Some nm" "1 \<le> i" "i \<le> aePrevLogIndex args"
    using reject_backoff [OF ok(1,2) assms(6,7) ok(3) assms(8), of d] assms(9) by auto
  then have "gomap_get nm p = i" using gomap_get_put [OF h(2), of p] by simp
  then show ?thesis using h assms(4,5) by (simp add: step_reply_def set_node_def)
qed

definition demo_reject_events :: "int event list" where
  "demo_reject_events = [EvTick 0 0 (0, 0), EvTick 0 700000000 (0, 0), EvTick 0 700000000 (700000000, 0),
     EvAdmit 0 500, EvHandle 0 (0, 0) (0, 0), EvReturn 0, EvReply 0 (0, 0),
     EvSend 0 1, EvAdmit 1 500, EvHandle 1 (0, 0) (0, 0), EvReturn 1, EvReply 1 (0, 0),
     EvTick 1 0 (0, 0), EvTick 1 2000000000 (0, 0), EvTick 1 2000000000 (2000000000, 0),
     EvAdmit 1 500, EvHandle 1 (0, 0) (0, 0), EvReturn 1, EvReply 1 (0, 0),
     EvSend 1 2, EvAdmit 2 500, EvHandle 2 (0, 0) (0, 0), EvReturn 2]"

definition demo_reject :: "int cluster" where
  "demo_reject = the (crun [0, 1, 2] demo_reject_events (Make_cluster [0, 1, 2] (\<lambda>_. (0, 0))))"

definition demo_reject_args :: "int AppendEntriesArgs" where
  "demo_reject_args = \<lparr>aeTerm = 2, aeLeaderId = 1, aePrevLogIndex = 1, aePrevLogTerm = 1,
     aeEntries = [\<lparr>leTerm = 2, leIndex = 2, leCommand = None\<rparr>], aeLeaderCommit = 0\<rparr>"

theorem rejection_backs_off_witness:
  "\<exists>s'. cstep [0, 1, 2] (EvReply 2 (0, 0)) demo_reject = Some s'
    \<and> 1 \<le> gomap_get (nextIndex (cNodes s' 1)) 2
    \<and> gomap_get (nextIndex (cNodes s' 1)) 2 \<le> aePrevLogIndex demo_reject_args"
proof (rule rejection_backs_off)
  show "crun [0, 1, 2] demo_reject_events (Make_cluster [0, 1, 2] (\<lambda>_. (0, 0))) = Some demo_reject"
  proof -
    have "crun [0, 1, 2] demo_reject_events (Make_cluster [0, 1, 2] (\<lambda>_. (0, 0))) \<noteq> None" by code_simp
    then show ?thesis by (auto simp: demo_reject_def)
  qed
  show "2 < length (cWire demo_reject)" by code_simp
  show "cWire demo_reject ! 2 = (True, AppRep 1 2 demo_reject_args
      \<lparr>aerTerm = 2, aerSuccess = False, aerConflictIndex = 1, aerConflictTerm = -1\<rparr>)" by code_simp
  show "rstate (cNodes demo_reject 1) = Leader" by code_simp
  show "currentTerm (cNodes demo_reject 1) = aeTerm demo_reject_args" by code_simp
  show "aerTerm \<lparr>aerTerm = 2, aerSuccess = False, aerConflictIndex = 1, aerConflictTerm = -1\<rparr>
      \<le> currentTerm (cNodes demo_reject 1)" by code_simp
qed simp_all

text \<open>
  The commit rule: a leader's \<^verbatim>\<open>advanceCommitIndex\<close> moves the commit index to the
  largest index of its log that holds an entry of its own term and is replicated on a
  majority, and leaves it alone when there is none above it.
\<close>

theorem advanceCommitIndex_max:
  assumes "wf_log (rlog rf)" "0 \<le> commitIndex rf" "commitIndex rf < int (length (rlog rf))"
  shows "advanceCommitIndex rf = Some (rf\<lparr>commitIndex :=
    Max (insert (commitIndex rf) {n. commitIndex rf < n \<and> n < int (length (rlog rf))
      \<and> leTerm (rlog rf ! nat n) = currentTerm rf \<and> majority rf \<le> replicaCount rf n})\<rparr>)"
proof -
  have "advanceLoop rf (int (length (rlog rf)) - 1) = Some (Max (insert (commitIndex rf)
      {n. commitIndex rf < n \<and> n \<le> int (length (rlog rf)) - 1
        \<and> leTerm (rlog rf ! nat n) = currentTerm rf \<and> majority rf \<le> replicaCount rf n}))"
    by (rule advanceLoop_max) (use assms in auto)
  then show ?thesis using wf_log_last [OF assms(1)] by (simp add: advanceCommitIndex_def)
qed

theorem advanceCommitIndex_max_witness:
  "\<exists>k. advanceCommitIndex (cNodes demo_mid 0) = Some ((cNodes demo_mid 0)\<lparr>commitIndex := k\<rparr>)"
proof -
  have "wf_log (rlog (cNodes demo_mid 0))" "0 \<le> commitIndex (cNodes demo_mid 0)"
    "commitIndex (cNodes demo_mid 0) < int (length (rlog (cNodes demo_mid 0)))" by code_simp+
  from advanceCommitIndex_max [OF this] show ?thesis by blast
qed

text \<open>
  A cluster of one server never has a leader: \<^verbatim>\<open>becomeLeader\<close> is only called from
  the goroutine that handles a peer's vote reply, and there is no peer, although the
  server's own vote is the majority of a one-server cluster.
\<close>

theorem single_server_never_leader:
  assumes "0 \<le> p" "crun [p] evs (Make_cluster [p] ds) = Some s"
  shows "rstate (cNodes s p) \<noteq> Leader"
proof -
  have "lonely p s" using crun_lonely [OF assms(1) lonely_init sim_init assms(2)] by blast
  then show ?thesis by (simp add: lonely_def)
qed

definition demo_alone :: "int event list" where
  "demo_alone = [EvTick 7 0 (0, 0), EvTick 7 900000000 (0, 0), EvTick 7 900000000 (0, 0)]"

theorem single_server_never_leader_witness:
  "\<exists>s :: int cluster. crun [7] demo_alone (Make_cluster [7] (\<lambda>_. (0, 0))) = Some s
     \<and> currentTerm (cNodes s 7) = 1 \<and> rstate (cNodes s 7) \<noteq> Leader"
proof -
  let ?r = "crun [7] demo_alone (Make_cluster [7] (\<lambda>_. (0, 0)) :: int cluster)"
  have "?r \<noteq> None" "currentTerm (cNodes (the ?r) 7) = 1" by code_simp+
  then obtain s where s: "?r = Some s" "currentTerm (cNodes s 7) = 1" by auto
  then show ?thesis using single_server_never_leader [OF _ s(1)] by auto
qed

end
