(* ===== verification/Wire_Bytes.thy ===== *)
theory Wire_Bytes
  imports Prelude
begin

text \<open>
  Fixed-width integers in byte slices, as \<^verbatim>\<open>encoding/binary\<close> reads and writes them:
  big endian for the storage and batch formats, little endian for the MongoDB wire
  protocol. A reader is given at least four bytes by every caller. The conversions between
  strings and byte slices are at the end.
\<close>

unbundle bit_operations_syntax

definition put_be32 :: "u32 \<Rightarrow> bytes" where
  "put_be32 w = [ucast (drop_bit 24 w), ucast (drop_bit 16 w), ucast (drop_bit 8 w), ucast w]"

fun get_be32 :: "bytes \<Rightarrow> u32" where
  "get_be32 (a # b # c # d # _) =
     ucast d OR push_bit 8 (ucast c) OR push_bit 16 (ucast b) OR push_bit 24 (ucast a)"
| "get_be32 _ = 0"

definition put_le32 :: "u32 \<Rightarrow> bytes" where
  "put_le32 w = [ucast w, ucast (drop_bit 8 w), ucast (drop_bit 16 w), ucast (drop_bit 24 w)]"

fun get_le32 :: "bytes \<Rightarrow> u32" where
  "get_le32 (a # b # c # d # _) =
     ucast a OR push_bit 8 (ucast b) OR push_bit 16 (ucast c) OR push_bit 24 (ucast d)"
| "get_le32 _ = 0"

lemma length_put32 [simp]: "length (put_be32 w) = 4" "length (put_le32 w) = 4"
  by (simp_all add: put_be32_def put_le32_def)

lemma put32_not_Nil [simp]: "put_be32 w \<noteq> []" "put_le32 w \<noteq> []"
  by (simp_all add: put_be32_def put_le32_def)

lemma join_bytes32:
  fixes w :: u32
  shows "ucast (ucast w :: byte) OR push_bit 8 (ucast (ucast (drop_bit 8 w) :: byte))
    OR push_bit 16 (ucast (ucast (drop_bit 16 w) :: byte))
    OR push_bit 24 (ucast (ucast (drop_bit 24 w) :: byte)) = w"
proof (rule bit_word_eqI)
  fix n assume "n < LENGTH(32)"
  then show "bit (ucast (ucast w :: byte) OR push_bit 8 (ucast (ucast (drop_bit 8 w) :: byte))
    OR push_bit 16 (ucast (ucast (drop_bit 16 w) :: byte))
    OR push_bit 24 (ucast (ucast (drop_bit 24 w) :: byte)) :: u32) n = bit w n"
    by (cases "n < 16"; cases "n < 24") (auto simp: bit_simps)
qed

lemma get_put_be32 [simp]: "get_be32 (put_be32 w @ xs) = w" "get_be32 (put_be32 w) = w"
  using join_bytes32 [of w] by (simp_all add: put_be32_def)

lemma get_put_le32 [simp]: "get_le32 (put_le32 w @ xs) = w" "get_le32 (put_le32 w) = w"
  using join_bytes32 [of w] by (simp_all add: put_le32_def)

text \<open>A Go conversion \<^verbatim>\<open>uint32(n)\<close> of an int keeps the low 32 bits.\<close>

definition u32_of :: "int \<Rightarrow> u32" where
  "u32_of n = word_of_int n"

definition int_of_u32 :: "u32 \<Rightarrow> int" where
  "int_of_u32 w = uint w"

lemma int_of_u32_of: "0 \<le> n \<Longrightarrow> n < 2 ^ 32 \<Longrightarrow> int_of_u32 (u32_of n) = n"
  by (simp add: int_of_u32_def u32_of_def uint_word_of_int)

lemma int_of_u32_mod: "int_of_u32 (u32_of n) = n mod 2 ^ 32"
  by (simp add: int_of_u32_def u32_of_def uint_word_of_int)

lemma int_of_u32_bounds [simp]: "0 \<le> int_of_u32 w" "int_of_u32 w < 2 ^ 32"
  using uint_lt2p [of w] by (simp_all add: int_of_u32_def)

subsection \<open>Strings and byte slices\<close>

definition bytes_string :: "bytes \<Rightarrow> string" where
  "bytes_string bs = map (\<lambda>b. char_of (unat b)) bs"

definition string_bytes :: "string \<Rightarrow> bytes" where
  "string_bytes s = map (\<lambda>c. of_nat (of_char c)) s"

lemma string_bytes_string [simp]: "string_bytes (bytes_string bs) = bs"
proof -
  have "of_nat (of_char (char_of (unat b) :: char)) = b" for b :: byte
    using unsigned_less [of b, where ?'a = nat] by simp
  then show ?thesis by (simp add: string_bytes_def bytes_string_def comp_def)
qed

lemma bytes_string_bytes [simp]: "bytes_string (string_bytes s) = s"
  by (simp add: string_bytes_def bytes_string_def comp_def unat_of_nat)

lemma bytes_string_Nil [simp]: "bytes_string bs = [] \<longleftrightarrow> bs = []" "string_bytes s = [] \<longleftrightarrow> s = []"
  by (simp_all add: bytes_string_def string_bytes_def)

end
