(* ===== verification/Storage_Fs.thy ===== *)
theory Storage_Fs
  imports Wire_Bytes "HOL-Library.AList"
begin

text \<open>
  The file system the storage package calls through \<^verbatim>\<open>os\<close>, with failures.

  A path is a directory and a file name. A \<^verbatim>\<open>disk\<close> holds the files and a plan of
  faults: every call that can return an error takes one item off the plan. The item
  \<^const>\<open>None\<close> lets the call succeed, \<open>Some 0\<close> fails it before any effect and
  \<open>Some (Suc n)\<close> fails a write after \<open>n\<close> bytes. An empty plan never fails. A computation
  that may fail is a function from the state to an error or a value, and the new state;
  the state of a failed call is kept, as the effects of the calls before it are.
\<close>

datatype serr =
  IoErr | OffsetOutOfRange | OffsetNotFound | IndexOutOfRange | ColdMissing | ColdFailed
| TieringDisabled | BadPartition

type_synonym ('s, 'a) io = "'s \<Rightarrow> (serr + 'a) \<times> 's"

definition io_ret :: "'a \<Rightarrow> ('s, 'a) io" where
  "io_ret x s = (Inr x, s)"

definition io_err :: "serr \<Rightarrow> ('s, 'a) io" where
  "io_err e s = (Inl e, s)"

definition io_bind :: "('s, 'a) io \<Rightarrow> ('a \<Rightarrow> ('s, 'b) io) \<Rightarrow> ('s, 'b) io" where
  "io_bind m f s = (case m s of (Inl e, s') \<Rightarrow> (Inl e, s') | (Inr x, s') \<Rightarrow> f x s')"

definition io_then :: "('s, unit) io \<Rightarrow> ('s, 'b) io \<Rightarrow> ('s, 'b) io" where
  "io_then m k = io_bind m (\<lambda>_. k)"

type_synonym path = "string \<times> string"

record disk =
  files :: "(path \<times> bytes) list"
  faults :: "nat option list"

definition fs_get :: "disk \<Rightarrow> path \<Rightarrow> bytes option" where
  "fs_get d p = map_of (files d) p"

definition fs_set :: "path \<Rightarrow> bytes \<Rightarrow> disk \<Rightarrow> disk" where
  "fs_set p bs d = d\<lparr>files := AList.update p bs (files d)\<rparr>"

definition fs_del :: "path \<Rightarrow> disk \<Rightarrow> disk" where
  "fs_del p d = d\<lparr>files := AList.delete p (files d)\<rparr>"

definition pop_fault :: "disk \<Rightarrow> nat option \<times> disk" where
  "pop_fault d = (case faults d of [] \<Rightarrow> (None, d) | f # fs \<Rightarrow> (f, d\<lparr>faults := fs\<rparr>))"

text \<open>A call with no effect of its own on the files: seek, sync, close, the read system call.\<close>

definition fs_call :: "(disk, unit) io" where
  "fs_call d = (case pop_fault d of (None, d') \<Rightarrow> (Inr (), d') | (Some _, d') \<Rightarrow> (Inl IoErr, d'))"

text \<open>\<^verbatim>\<open>os.OpenFile\<close> with \<^verbatim>\<open>O_CREATE\<close>, without and with \<^verbatim>\<open>O_TRUNC\<close>; \<^verbatim>\<open>Truncate(0)\<close>.\<close>

definition fs_create :: "path \<Rightarrow> (disk, unit) io" where
  "fs_create p = io_then fs_call
     (\<lambda>d. (Inr (), if fs_get d p = None then fs_set p [] d else d))"

definition fs_truncate :: "path \<Rightarrow> (disk, unit) io" where
  "fs_truncate p = io_then fs_call (\<lambda>d. (Inr (), fs_set p [] d))"

text \<open>\<^verbatim>\<open>Write\<close> at the end of an open file; a failed write may leave a part of the data.\<close>

definition fs_append :: "path \<Rightarrow> bytes \<Rightarrow> (disk, unit) io" where
  "fs_append p bs d =
     (case fs_get d p of
        None \<Rightarrow> (Inl IoErr, d)
      | Some old \<Rightarrow>
          (case pop_fault d of
             (None, d') \<Rightarrow> (Inr (), fs_set p (old @ bs) d')
           | (Some n, d') \<Rightarrow> (Inl IoErr, fs_set p (old @ take (n - 1) bs) d')))"

text \<open>\<^verbatim>\<open>os.WriteFile\<close>: create or truncate, then write.\<close>

definition fs_write_file :: "path \<Rightarrow> bytes \<Rightarrow> (disk, unit) io" where
  "fs_write_file p bs d =
     (case pop_fault d of
        (None, d') \<Rightarrow> (Inr (), fs_set p bs d')
      | (Some 0, d') \<Rightarrow> (Inl IoErr, d')
      | (Some (Suc n), d') \<Rightarrow> (Inl IoErr, fs_set p (take n bs) d'))"

definition fs_read_file :: "path \<Rightarrow> (disk, bytes) io" where
  "fs_read_file p = io_then fs_call
     (\<lambda>d. case fs_get d p of None \<Rightarrow> (Inl IoErr, d) | Some bs \<Rightarrow> (Inr bs, d))"

text \<open>\<^verbatim>\<open>ReadAt\<close> of \<open>n\<close> bytes: an error unless all of them are there (an empty read always is).\<close>

definition fs_read_at :: "path \<Rightarrow> int \<Rightarrow> nat \<Rightarrow> (disk, bytes) io" where
  "fs_read_at p pos n = io_then fs_call
     (\<lambda>d. case fs_get d p of
        None \<Rightarrow> (Inl IoErr, d)
      | Some bs \<Rightarrow>
          if 0 \<le> pos \<and> (n = 0 \<or> nat pos + n \<le> length bs)
          then (Inr (take n (drop (nat pos) bs)), d) else (Inl IoErr, d))"

definition fs_remove :: "path \<Rightarrow> (disk, unit) io" where
  "fs_remove p = io_then fs_call
     (\<lambda>d. if fs_get d p = None then (Inl IoErr, d) else (Inr (), fs_del p d))"

text \<open>\<^verbatim>\<open>os.ReadDir\<close>: the names of the files of a directory.\<close>

definition fs_read_dir :: "string \<Rightarrow> (disk, string list) io" where
  "fs_read_dir dir = io_then fs_call
     (\<lambda>d. (Inr (map (\<lambda>x. snd (fst x)) (filter (\<lambda>x. fst (fst x) = dir) (files d))), d))"

subsection \<open>Laws\<close>

lemma io_simps [simp]:
  "io_bind (io_ret x) f = f x" "io_bind (io_err e) f = io_err e"
  "io_ret x s = (Inr x, s)" "io_err e s = (Inl e, s)"
  by (auto simp: io_bind_def io_ret_def io_err_def fun_eq_iff)

lemma io_bind_Inr: "m s = (Inr x, s') \<Longrightarrow> io_bind m f s = f x s'"
  by (simp add: io_bind_def)

lemma io_bind_Inl: "m s = (Inl e, s') \<Longrightarrow> io_bind m f s = (Inl e, s')"
  by (simp add: io_bind_def)

lemma io_then_Inr: "m s = (Inr (), s') \<Longrightarrow> io_then m k s = k s'"
  by (simp add: io_then_def io_bind_def)

lemma io_bind_cases:
  assumes "io_bind m f s = (r, s')"
  obtains e where "m s = (Inl e, s')" "r = Inl e" | x s1 where "m s = (Inr x, s1)" "f x s1 = (r, s')"
  using assms by (auto simp: io_bind_def split: prod.splits sum.splits)

lemma io_then_cases:
  assumes "io_then m k s = (r, s')"
  obtains e where "m s = (Inl e, s')" "r = Inl e" | s1 where "m s = (Inr (), s1)" "k s1 = (r, s')"
  using assms by (auto simp: io_then_def io_bind_def split: prod.splits sum.splits)

lemma fs_get_set [simp]: "fs_get (fs_set p bs d) q = (if q = p then Some bs else fs_get d q)"
  by (simp add: fs_get_def fs_set_def update_conv')

lemma fs_get_del [simp]: "fs_get (fs_del p d) q = (if q = p then None else fs_get d q)"
  by (simp add: fs_get_def fs_del_def delete_conv')

lemma fs_get_faults [simp]: "fs_get (d\<lparr>faults := fs\<rparr>) p = fs_get d p"
  by (simp add: fs_get_def)

lemma faults_simps [simp]: "faults (fs_set p bs d) = faults d" "faults (fs_del p d) = faults d"
  by (simp_all add: fs_set_def fs_del_def)

lemma fs_names:
  "set (map (\<lambda>x. snd (fst x)) (filter (\<lambda>x. fst (fst x) = dir) (files d)))
     = {n. fs_get d (dir, n) \<noteq> None}"
  by (force simp: fs_get_def map_of_eq_None_iff dom_map_of_conv_image_fst image_iff)

text \<open>Without faults every call succeeds.\<close>

lemma no_fault [simp]:
  assumes "faults d = []"
  shows "pop_fault d = (None, d)" "fs_call d = (Inr (), d)"
    "fs_create p d = (Inr (), if fs_get d p = None then fs_set p [] d else d)"
    "fs_truncate p d = (Inr (), fs_set p [] d)"
    "fs_write_file p bs d = (Inr (), fs_set p bs d)"
  using assms by (simp_all add: pop_fault_def fs_call_def fs_create_def fs_truncate_def
      fs_write_file_def io_then_def io_bind_def)

lemma no_fault_file [simp]:
  assumes "faults d = []" "fs_get d p = Some old"
  shows "fs_append p bs d = (Inr (), fs_set p (old @ bs) d)" "fs_read_file p d = (Inr old, d)"
    "fs_remove p d = (Inr (), fs_del p d)"
  using assms by (simp_all add: fs_append_def fs_read_file_def fs_remove_def io_then_def io_bind_def)

lemma no_fault_read_at:
  assumes "faults d = []" "fs_get d p = Some (xs @ bs @ ys)" "pos = int (length xs)" "n = length bs"
  shows "fs_read_at p pos n d = (Inr bs, d)"
  using assms by (simp add: fs_read_at_def io_then_def io_bind_def)

end
