(* ===== verification/Storage_Segment.thy ===== *)
theory Storage_Segment
  imports Storage_Fs
begin

text \<open>
  One segment of the append-only log: \<^verbatim>\<open>storage/segment.go\<close> and the interface of
  \<^verbatim>\<open>storage/coldstore.go\<close>. An operation works on the segment and the world: the local
  disk and the state of the cold store. Index positions and lengths are the 32-bit
  words the files hold. The files of a segment are named by its base offset; the index
  file is only ever written at its end, the log file is opened for appending.
\<close>

subsection \<open>File names\<close>

text \<open>\<^verbatim>\<open>fmt.Sprintf("%020d", n)\<close> and \<^verbatim>\<open>strconv.Atoi\<close>.\<close>

fun decimal :: "nat \<Rightarrow> string" where
  "decimal n = (if n < 10 then [char_of (48 + n)] else decimal (n div 10) @ [char_of (48 + n mod 10)])"

declare decimal.simps [simp del]

definition segmentName :: "int \<Rightarrow> string" where
  "segmentName n =
     (let ds = decimal (nat \<bar>n\<bar>) in
      if n < 0 then CHR ''-'' # replicate (19 - length ds) (CHR ''0'') @ ds
      else replicate (20 - length ds) (CHR ''0'') @ ds)"

definition is_digit :: "char \<Rightarrow> bool" where
  "is_digit c \<longleftrightarrow> 48 \<le> (of_char c :: nat) \<and> (of_char c :: nat) \<le> 57"

definition parse_digits :: "string \<Rightarrow> nat" where
  "parse_digits cs = foldl (\<lambda>n c. 10 * n + (of_char c - 48)) 0 cs"

definition go_atoi :: "string \<Rightarrow> int option" where
  "go_atoi s =
     (let neg = (s \<noteq> [] \<and> hd s = CHR ''-'');
          ds = (if s \<noteq> [] \<and> (hd s = CHR ''-'' \<or> hd s = CHR ''+'') then tl s else s)
      in if ds = [] \<or> \<not> list_all is_digit ds then None
         else let n = (if neg then - int (parse_digits ds) else int (parse_digits ds))
              in if - (2 ^ 63) \<le> n \<and> n < 2 ^ 63 then Some n else None)"

definition logPath :: "string \<Rightarrow> int \<Rightarrow> path" where
  "logPath dir base = (dir, segmentName base @ ''.log'')"

definition indexPath :: "string \<Rightarrow> int \<Rightarrow> path" where
  "indexPath dir base = (dir, segmentName base @ ''.index'')"

subsection \<open>State\<close>

record 'k coldstore =
  csPut :: "string \<Rightarrow> bytes \<Rightarrow> bytes \<Rightarrow> ('k, unit) io"
  csGet :: "string \<Rightarrow> ('k, bytes \<times> bytes) io"
  csDelete :: "string \<Rightarrow> ('k, unit) io"

record 'k segment =
  baseOffset :: int
  nextOffset :: int
  segSize :: int
  sdir :: string
  logOpen :: bool
  indexOpen :: bool
  tiered :: bool
  coldKey :: string
  coldStore :: "'k coldstore option"

record 'k world =
  wDisk :: disk
  wCold :: 'k

definition on_disk :: "(disk, 'a) io \<Rightarrow> ('t \<times> 'k world, 'a) io" where
  "on_disk m st = (case st of (s, w) \<Rightarrow> case m (wDisk w) of (r, d) \<Rightarrow> (r, s, w\<lparr>wDisk := d\<rparr>))"

definition on_cold :: "('k, 'a) io \<Rightarrow> ('t \<times> 'k world, 'a) io" where
  "on_cold m st = (case st of (s, w) \<Rightarrow> case m (wCold w) of (r, k) \<Rightarrow> (r, s, w\<lparr>wCold := k\<rparr>))"

definition seg_update :: "('t \<Rightarrow> 't) \<Rightarrow> ('t \<times> 'w, unit) io" where
  "seg_update f st = (case st of (s, w) \<Rightarrow> (Inr (), f s, w))"

definition with_seg :: "('t \<Rightarrow> ('t \<times> 'w, 'a) io) \<Rightarrow> ('t \<times> 'w, 'a) io" where
  "with_seg f st = f (fst st) st"

abbreviation lpath :: "'k segment \<Rightarrow> path" where
  "lpath s \<equiv> logPath (sdir s) (baseOffset s)"

abbreviation ipath :: "'k segment \<Rightarrow> path" where
  "ipath s \<equiv> indexPath (sdir s) (baseOffset s)"

subsection \<open>Opening and recovery\<close>

definition appendIndexEntry :: "path \<Rightarrow> u32 \<Rightarrow> u32 \<Rightarrow> (disk, unit) io" where
  "appendIndexEntry p relOffset position = fs_append p (put_be32 relOffset @ put_be32 position)"

text \<open>
  The scan of \<^verbatim>\<open>rebuildIndex\<close>. \<open>fp\<close> is the position of the log file handle, \<open>pos\<close> the
  local variable of that name; they differ after a length prefix that is cut short, of
  which only the bytes read overwrite \<open>lenBuf\<close>. A failed read ends the scan.
\<close>

function rebuildLoop ::
  "path \<Rightarrow> bytes \<Rightarrow> nat \<Rightarrow> int \<Rightarrow> bytes \<Rightarrow> u32 \<Rightarrow> disk \<Rightarrow> (serr + int \<times> u32) \<times> disk" where
  "rebuildLoop ip lg fp pos lenBuf relOffset d =
     (case pop_fault d of
        (Some _, d1) \<Rightarrow> (Inr (pos, relOffset), d1)
      | (None, d1) \<Rightarrow>
          let chunk = take 4 (drop fp lg) in
          if chunk = [] then (Inr (pos, relOffset), d1)
          else
            let lenBuf' = chunk @ drop (length chunk) lenBuf;
                recLen = int_of_u32 (get_be32 lenBuf') in
            (case appendIndexEntry ip relOffset (u32_of pos) d1 of
               (Inl e, d2) \<Rightarrow> (Inl e, d2)
             | (Inr _, d2) \<Rightarrow>
                 (case fs_call d2 of
                    (Inl e, d3) \<Rightarrow> (Inl e, d3)
                  | (Inr _, d3) \<Rightarrow>
                      rebuildLoop ip lg (fp + length chunk + nat recLen) (pos + 4 + recLen)
                        lenBuf' (relOffset + 1) d3)))"
  by pat_completeness auto
termination
  by (relation "measure (\<lambda>(ip, lg, fp, pos, lenBuf, rel, d). length lg - fp)") auto

declare rebuildLoop.simps [simp del]

definition rebuildIndex :: "'k segment \<Rightarrow> (disk, 'k segment) io" where
  "rebuildIndex s =
     io_then fs_call (io_then fs_call (io_then (fs_truncate (ipath s))
       (\<lambda>d. case fs_get d (lpath s) of
          None \<Rightarrow> (Inl IoErr, d)
        | Some lg \<Rightarrow>
            io_bind (rebuildLoop (ipath s) lg 0 0 [0, 0, 0, 0] 0)
              (\<lambda>(pos, rel). io_then fs_call
                 (io_ret (s\<lparr>segSize := pos, nextOffset := baseOffset s + int_of_u32 rel\<rparr>))) d)))"

definition openSegment :: "string \<Rightarrow> int \<Rightarrow> (disk, 'k segment) io" where
  "openSegment dir base =
     io_then (fs_create (logPath dir base)) (io_then (fs_truncate (indexPath dir base))
       (rebuildIndex \<lparr>baseOffset = base, nextOffset = base, segSize = 0, sdir = dir,
          logOpen = True, indexOpen = True, tiered = False, coldKey = [], coldStore = None\<rparr>))"

subsection \<open>Append and read\<close>

text \<open>A call on a closed file returns an error.\<close>

definition if_open :: "bool \<Rightarrow> ('s, 'a) io \<Rightarrow> ('s, 'a) io" where
  "if_open b m = (if b then m else io_err IoErr)"

definition seg_append :: "bytes \<Rightarrow> ('k segment \<times> 'k world, int) io" where
  "seg_append payload = with_seg (\<lambda>s.
     io_then (if_open (logOpen s) (on_disk (fs_append (lpath s) (put_be32 (u32_of (int (length payload)))))))
     (io_then (if_open (logOpen s) (on_disk (fs_append (lpath s) payload)))
     (io_then (if_open (indexOpen s) (on_disk (appendIndexEntry (ipath s)
         (u32_of (nextOffset s - baseOffset s)) (u32_of (segSize s)))))
     (io_then (seg_update (\<lambda>s. s\<lparr>segSize := segSize s + (4 + int (length payload)),
         nextOffset := nextOffset s + 1\<rparr>))
     (io_ret (nextOffset s))))))"

definition readLocal :: "'k segment \<Rightarrow> int \<Rightarrow> (disk, bytes) io" where
  "readLocal s entryPos =
     io_bind (if_open (indexOpen s) (fs_read_at (ipath s) entryPos 8)) (\<lambda>entryBuf.
       let position = int_of_u32 (get_be32 (drop 4 entryBuf)) in
       io_bind (if_open (logOpen s) (fs_read_at (lpath s) position 4)) (\<lambda>lenBuf.
         fs_read_at (lpath s) (position + 4) (nat (int_of_u32 (get_be32 lenBuf)))))"

text \<open>The lookup in fetched bytes that \<^verbatim>\<open>readTiered\<close> does.\<close>

definition readFetched :: "bytes \<Rightarrow> bytes \<Rightarrow> int \<Rightarrow> serr + bytes" where
  "readFetched logBytes indexBytes entryPos =
     (if entryPos + 8 > int (length indexBytes) then Inl IndexOutOfRange
      else
        let entryBuf = take 8 (drop (nat entryPos) indexBytes);
            position = int_of_u32 (get_be32 (drop 4 entryBuf)) in
        if position + 4 > int (length logBytes) then Inl IndexOutOfRange
        else
          let recLen = int_of_u32 (get_be32 (take 4 (drop (nat position) logBytes)));
              start = position + 4 in
          if start + recLen > int (length logBytes) then Inl IndexOutOfRange
          else Inr (take (nat recLen) (drop (nat start) logBytes)))"

definition readTiered :: "int \<Rightarrow> ('k segment \<times> 'k world, bytes) io" where
  "readTiered entryPos = with_seg (\<lambda>s.
     case coldStore s of
       None \<Rightarrow> io_err ColdMissing
     | Some cs \<Rightarrow> io_bind (on_cold (csGet cs (coldKey s)))
         (\<lambda>(logBytes, indexBytes) st. (readFetched logBytes indexBytes entryPos, st)))"

definition seg_read :: "int \<Rightarrow> ('k segment \<times> 'k world, bytes) io" where
  "seg_read offset = with_seg (\<lambda>s.
     if offset < baseOffset s \<or> offset \<ge> nextOffset s then io_err OffsetOutOfRange
     else
       let entryPos = int_of_u32 (u32_of (offset - baseOffset s)) * 8 in
       if tiered s then readTiered entryPos else on_disk (readLocal s entryPos))"

subsection \<open>Closing, tiering and removal\<close>

text \<open>\<^verbatim>\<open>Close\<close> of one of the two files: it is closed even when the call reports an error.\<close>

definition close_log :: "('k segment \<times> 'k world, unit) io" where
  "close_log = with_seg (\<lambda>s. io_then (seg_update (\<lambda>s. s\<lparr>logOpen := False\<rparr>))
     (if_open (logOpen s) (on_disk fs_call)))"

definition close_index :: "('k segment \<times> 'k world, unit) io" where
  "close_index = with_seg (\<lambda>s. io_then (seg_update (\<lambda>s. s\<lparr>indexOpen := False\<rparr>))
     (if_open (indexOpen s) (on_disk fs_call)))"

definition seg_close :: "('k segment \<times> 'k world, unit) io" where
  "seg_close = with_seg (\<lambda>s. if tiered s then io_ret () else io_then close_log close_index)"

definition tierOut :: "'k coldstore \<Rightarrow> string \<Rightarrow> ('k segment \<times> 'k world, unit) io" where
  "tierOut cs key = with_seg (\<lambda>s.
     io_bind (on_disk (fs_read_file (lpath s))) (\<lambda>logBytes.
     io_bind (on_disk (fs_read_file (ipath s))) (\<lambda>indexBytes.
     io_then (on_cold (csPut cs key logBytes indexBytes))
     (io_then close_log
     (io_then close_index
     (io_then (on_disk (fs_remove (lpath s)))
     (io_then (on_disk (fs_remove (ipath s)))
     (seg_update (\<lambda>s. s\<lparr>tiered := True, coldKey := key, coldStore := Some cs\<rparr>)))))))))"

definition ignore_err :: "('s, unit) io \<Rightarrow> ('s, unit) io" where
  "ignore_err m s = (Inr (), snd (m s))"

definition seg_remove :: "('k segment \<times> 'k world, unit) io" where
  "seg_remove = io_then (ignore_err seg_close) (with_seg (\<lambda>s.
     if tiered s then
       (case coldStore s of None \<Rightarrow> io_err ColdMissing | Some cs \<Rightarrow> on_cold (csDelete cs (coldKey s)))
     else io_then (on_disk (fs_remove (lpath s))) (on_disk (fs_remove (ipath s)))))"

subsection \<open>Names identify segments\<close>

lemma digit_facts:
  assumes "d < 10"
  shows "is_digit (char_of (48 + d))" "(of_char (char_of (48 + d :: nat)) :: nat) - 48 = d"
  using assms by (simp_all add: is_digit_def)

lemma decimal_digits: "list_all is_digit (decimal n) \<and> decimal n \<noteq> []"
proof (induction n rule: decimal.induct)
  case (1 n)
  then show ?case using digit_facts(1) [of n] digit_facts(1) [of "n mod 10"]
    by (subst (1 2) decimal.simps) auto
qed

lemma parse_digits_snoc: "parse_digits (cs @ [c]) = 10 * parse_digits cs + (of_char c - 48)"
  by (simp add: parse_digits_def)

lemma parse_decimal: "parse_digits (decimal n) = n"
proof (induction n rule: decimal.induct)
  case (1 n)
  then show ?case
    by (subst decimal.simps) (auto simp: parse_digits_snoc digit_facts(2), simp add: parse_digits_def)
qed

lemma parse_zeros: "parse_digits (replicate k (CHR ''0'') @ ds) = parse_digits ds"
  by (induction k) (auto simp: parse_digits_def)

lemma zeros_digits: "list_all is_digit (replicate k (CHR ''0''))"
  by (induction k) (auto simp: is_digit_def)

lemma atoi_segmentName:
  assumes "0 \<le> n" "n < 2 ^ 63"
  shows "go_atoi (segmentName n) = Some n"
proof -
  let ?ds = "decimal (nat n)" and ?z = "replicate (20 - length (decimal (nat n))) (CHR ''0'')"
  have name: "segmentName n = ?z @ ?ds" using assms by (simp add: segmentName_def Let_def)
  have dig: "list_all is_digit (?z @ ?ds)" "?z @ ?ds \<noteq> []"
    using decimal_digits [of "nat n"] zeros_digits by auto
  then have "is_digit (hd (?z @ ?ds))" by (cases "?z @ ?ds") auto
  then have "hd (?z @ ?ds) \<noteq> CHR ''-''" "hd (?z @ ?ds) \<noteq> CHR ''+''" by (auto simp: is_digit_def)
  then show ?thesis
    using dig assms by (simp add: name go_atoi_def Let_def parse_zeros parse_decimal)
qed

lemma segmentName_inject:
  assumes "0 \<le> n" "n < 2 ^ 63" "0 \<le> m" "m < 2 ^ 63" "segmentName n = segmentName m"
  shows "n = m"
  using atoi_segmentName [OF assms(1,2)] atoi_segmentName [OF assms(3,4)] assms(5) by (metis option.inject)

lemma log_index_name: "segmentName n @ ''.log'' \<noteq> segmentName m @ ''.index''"
proof
  assume "segmentName n @ ''.log'' = segmentName m @ ''.index''"
  then have "last (segmentName n @ ''.log'') = last (segmentName m @ ''.index'')" by simp
  then show False by simp
qed

lemma log_index_distinct [simp]: "logPath dir n \<noteq> indexPath dir' m" "indexPath dir n \<noteq> logPath dir' m"
  unfolding logPath_def indexPath_def using log_index_name by (metis prod.inject)+

subsection \<open>What the files of a segment hold\<close>

text \<open>A record in the log file, all records, and the index entries from a given position on.\<close>

definition enc :: "bytes \<Rightarrow> bytes" where
  "enc r = put_be32 (u32_of (int (length r))) @ r"

definition encs :: "bytes list \<Rightarrow> bytes" where
  "encs rs = concat (map enc rs)"

fun idx_from :: "u32 \<Rightarrow> int \<Rightarrow> bytes list \<Rightarrow> bytes" where
  "idx_from rel pos [] = []"
| "idx_from rel pos (r # rs) =
     put_be32 rel @ put_be32 (u32_of pos) @ idx_from (rel + 1) (pos + 4 + int (length r)) rs"

abbreviation idx :: "bytes list \<Rightarrow> bytes" where
  "idx rs \<equiv> idx_from 0 0 rs"

text \<open>Small enough for 32-bit positions.\<close>

definition small :: "bytes list \<Rightarrow> bool" where
  "small rs \<longleftrightarrow> length (encs rs) < 2 ^ 32"

lemma length_enc [simp]: "length (enc r) = 4 + length r"
  by (simp add: enc_def)

lemma encs_simps [simp]:
  "encs [] = []" "encs (r # rs) = enc r @ encs rs" "encs (rs @ rs') = encs rs @ encs rs'"
  by (simp_all add: encs_def)

lemma encs_split: "i < length rs \<Longrightarrow> encs rs = encs (take i rs) @ enc (rs ! i) @ encs (drop (Suc i) rs)"
  using id_take_nth_drop [of i rs] by (metis append.assoc encs_simps(2,3) append_Cons append_Nil)

lemma length_encs_ge: "4 * length rs \<le> length (encs rs)"
  by (induction rs) auto

lemma small_append: "small (rs @ rs') \<Longrightarrow> small rs"
  by (simp add: small_def)

lemma small_nth:
  assumes "small rs" "i < length rs"
  shows "length (rs ! i) < 2 ^ 32" "length (encs (take i rs)) < 2 ^ 32" "int i < 2 ^ 32"
proof -
  have "length (encs (take i rs)) + length (rs ! i) + 4 \<le> length (encs rs)"
    by (subst encs_split [OF assms(2)]) simp
  moreover have "i \<le> length (encs rs)" using length_encs_ge [of rs] assms(2) by simp
  ultimately show "length (rs ! i) < 2 ^ 32" "length (encs (take i rs)) < 2 ^ 32" "int i < 2 ^ 32"
    using assms(1) by (auto simp: small_def)
qed

lemma idx_from_append:
  "idx_from rel pos (rs @ rs') = idx_from rel pos rs
     @ idx_from (rel + of_nat (length rs)) (pos + int (length (encs rs))) rs'"
  by (induction rs arbitrary: rel pos) (auto simp: algebra_simps)

lemma length_idx_from [simp]: "length (idx_from rel pos rs) = 8 * length rs"
  by (induction rs arbitrary: rel pos) auto

lemma idx_split:
  assumes "i < length rs"
  shows "idx rs = idx (take i rs)
    @ (put_be32 (of_nat i) @ put_be32 (u32_of (int (length (encs (take i rs))))))
    @ idx_from (of_nat i + 1) (int (length (encs (take i rs))) + 4 + int (length (rs ! i))) (drop (Suc i) rs)"
  by (subst id_take_nth_drop [OF assms]) (use assms in \<open>simp add: idx_from_append min.absorb2 less_imp_le\<close>)

text \<open>
  A segment whose files start with the records \<open>rs\<close> and their index entries: it holds
  them, whatever follows in the files.
\<close>

definition seg_holds :: "'k segment \<Rightarrow> disk \<Rightarrow> bytes list \<Rightarrow> bool" where
  "seg_holds s d rs \<longleftrightarrow> small rs \<and> logOpen s \<and> indexOpen s \<and> \<not> tiered s
     \<and> baseOffset s + int (length rs) \<le> nextOffset s
     \<and> (\<exists>x. fs_get d (lpath s) = Some (encs rs @ x)) \<and> (\<exists>y. fs_get d (ipath s) = Some (idx rs @ y))"

text \<open>A segment whose files hold exactly the records \<open>rs\<close>.\<close>

definition seg_rep :: "'k segment \<Rightarrow> disk \<Rightarrow> bytes list \<Rightarrow> bool" where
  "seg_rep s d rs \<longleftrightarrow> small rs \<and> logOpen s \<and> indexOpen s \<and> \<not> tiered s
     \<and> nextOffset s = baseOffset s + int (length rs) \<and> segSize s = int (length (encs rs))
     \<and> fs_get d (lpath s) = Some (encs rs) \<and> fs_get d (ipath s) = Some (idx rs)"

lemma seg_rep_holds: "seg_rep s d rs \<Longrightarrow> seg_holds s d rs"
  by (simp add: seg_rep_def seg_holds_def)

lemma readLocal_holds:
  assumes h: "seg_holds s d rs" and i: "i < length rs" and nf: "faults d = []"
  shows "readLocal s (int i * 8) d = (Inr (rs ! i), d)"
proof -
  let ?p = "int (length (encs (take i rs)))"
  obtain x y where f: "fs_get d (lpath s) = Some (encs rs @ x)" "fs_get d (ipath s) = Some (idx rs @ y)"
    and o: "logOpen s" "indexOpen s" "small rs" using h by (auto simp: seg_holds_def)
  note sm = small_nth [OF o(3) i]
  have pos: "int_of_u32 (u32_of ?p) = ?p" "int_of_u32 (u32_of (int (length (rs ! i)))) = int (length (rs ! i))"
    using sm by (auto intro!: int_of_u32_of)
  have "fs_read_at (ipath s) (int i * 8) 8 d = (Inr (put_be32 (of_nat i) @ put_be32 (u32_of ?p)), d)"
    by (rule no_fault_read_at [OF nf f(2) [unfolded idx_split [OF i] append.assoc, folded append.assoc [of "put_be32 _" "put_be32 _"]]])
      (use i in auto)
  moreover have "fs_read_at (lpath s) ?p 4 d = (Inr (put_be32 (u32_of (int (length (rs ! i))))), d)"
    by (rule no_fault_read_at [OF nf f(1) [unfolded encs_split [OF i] enc_def append.assoc]]) auto
  moreover have "fs_read_at (lpath s) (?p + 4) (length (rs ! i)) d = (Inr (rs ! i), d)"
    by (rule no_fault_read_at [OF nf, of _ "encs (take i rs) @ put_be32 (u32_of (int (length (rs ! i))))"
          _ "encs (drop (Suc i) rs) @ x"])
      (use f(1) encs_split [OF i] in \<open>auto simp: enc_def\<close>)
  ultimately show ?thesis using o pos by (simp add: readLocal_def if_open_def io_bind_def Let_def)
qed

lemma seg_read_holds:
  assumes h: "seg_holds s (wDisk w) rs" and i: "i < length rs" and nf: "faults (wDisk w) = []"
  shows "seg_read (baseOffset s + int i) (s, w) = (Inr (rs ! i), s, w)"
proof -
  have "int_of_u32 (u32_of (int i)) = int i"
    using h small_nth(3) [OF _ i] by (intro int_of_u32_of) (auto simp: seg_holds_def)
  then show ?thesis
    using h i readLocal_holds [OF h i nf] by (simp add: seg_read_def with_seg_def seg_holds_def on_disk_def)
qed

subsection \<open>Appending\<close>

lemma of_nat_u32: "u32_of (int n) = of_nat n"
  by (simp add: u32_of_def)

lemma on_disk_Inr: "m (wDisk w) = (Inr x, d) \<Longrightarrow> on_disk m (s, w) = (Inr x, s, w\<lparr>wDisk := d\<rparr>)"
  by (simp add: on_disk_def)

text \<open>Without faults an append adds its record.\<close>

lemma seg_append_rep:
  assumes r: "seg_rep s (wDisk w) rs" and nf: "faults (wDisk w) = []" and sm: "small (rs @ [payload])"
  shows "\<exists>s' w'. seg_append payload (s, w) = (Inr (baseOffset s + int (length rs)), s', w')
    \<and> seg_rep s' (wDisk w') (rs @ [payload]) \<and> faults (wDisk w') = [] \<and> wCold w' = wCold w
    \<and> baseOffset s' = baseOffset s \<and> sdir s' = sdir s
    \<and> (\<forall>p. p \<noteq> lpath s \<longrightarrow> p \<noteq> ipath s \<longrightarrow> fs_get (wDisk w') p = fs_get (wDisk w) p)"
proof -
  let ?d = "wDisk w" and ?l = "put_be32 (u32_of (int (length payload)))"
  let ?d1 = "fs_set (lpath s) (encs rs @ ?l) ?d"
  let ?d2 = "fs_set (lpath s) ((encs rs @ ?l) @ payload) ?d1"
  let ?e = "put_be32 (u32_of (nextOffset s - baseOffset s)) @ put_be32 (u32_of (segSize s))"
  let ?d3 = "fs_set (ipath s) (idx rs @ ?e) ?d2"
  let ?s = "s\<lparr>segSize := segSize s + (4 + int (length payload)), nextOffset := nextOffset s + 1\<rparr>"
  have o: "logOpen s" "indexOpen s" "fs_get ?d (lpath s) = Some (encs rs)" "fs_get ?d (ipath s) = Some (idx rs)"
    using r by (auto simp: seg_rep_def)
  have "fs_append (lpath s) ?l ?d = (Inr (), ?d1)" "fs_append (lpath s) payload ?d1 = (Inr (), ?d2)"
      "appendIndexEntry (ipath s) (u32_of (nextOffset s - baseOffset s)) (u32_of (segSize s)) ?d2 = (Inr (), ?d3)"
    using nf o by (simp_all add: appendIndexEntry_def)
  then have run: "seg_append payload (s, w) = (Inr (nextOffset s), ?s, w\<lparr>wDisk := ?d3\<rparr>)"
    using o by (simp add: seg_append_def with_seg_def if_open_def io_then_def io_bind_def on_disk_def seg_update_def)
  have "?e = idx_from (of_nat (length rs)) (int (length (encs rs))) [payload]"
    using r by (simp add: seg_rep_def of_nat_u32)
  then have "seg_rep ?s ?d3 (rs @ [payload])"
    using r sm by (simp add: seg_rep_def enc_def idx_from_append)
  then show ?thesis using run r nf by (auto simp: seg_rep_def)
qed

text \<open>
  Under any faults, and whether or not the append succeeds, the records the segment
  held stay readable at their offsets.
\<close>

lemma fs_append_keeps:
  assumes "fs_append p bs d = (r, d')" "fs_get d q = Some xs"
  shows "\<exists>x. fs_get d' q = Some (xs @ x)"
  using assms by (auto simp: fs_append_def pop_fault_def split: option.splits list.splits if_splits)

definition fs_ext :: "disk \<Rightarrow> disk \<Rightarrow> bool" where
  "fs_ext d d' \<longleftrightarrow> (\<forall>q xs. fs_get d q = Some xs \<longrightarrow> (\<exists>x. fs_get d' q = Some (xs @ x)))"

definition ext_io :: "('t \<times> 'k world, 'a) io \<Rightarrow> bool" where
  "ext_io m \<longleftrightarrow> (\<forall>st. fs_ext (wDisk (snd st)) (wDisk (snd (snd (m st)))))"

named_theorems ext_intros \<open>computations that only extend files\<close>

lemma fs_ext_refl [simp]: "fs_ext d d"
  by (simp add: fs_ext_def)

lemma fs_ext_trans: "fs_ext a b \<Longrightarrow> fs_ext b c \<Longrightarrow> fs_ext a c"
  unfolding fs_ext_def by (metis append.assoc)

lemma ext_io_bind [ext_intros]: "ext_io m \<Longrightarrow> (\<And>x. ext_io (f x)) \<Longrightarrow> ext_io (io_bind m f)"
  unfolding ext_io_def
proof
  fix st assume m: "\<forall>st. fs_ext (wDisk (snd st)) (wDisk (snd (snd (m st))))"
    and f: "\<And>x. \<forall>st. fs_ext (wDisk (snd st)) (wDisk (snd (snd (f x st))))"
  obtain r st1 where 1: "m st = (r, st1)" by (cases "m st")
  then have step: "fs_ext (wDisk (snd st)) (wDisk (snd st1))" using m by (metis snd_conv)
  show "fs_ext (wDisk (snd st)) (wDisk (snd (snd (io_bind m f st))))"
  proof (cases r)
    case (Inr x)
    have "fs_ext (wDisk (snd st1)) (wDisk (snd (snd (f x st1))))" using f by blast
    then show ?thesis using fs_ext_trans [OF step] 1 Inr by (simp add: io_bind_def)
  qed (use step 1 in \<open>simp add: io_bind_def\<close>)
qed

lemma ext_io_then [ext_intros]: "ext_io m \<Longrightarrow> ext_io k \<Longrightarrow> ext_io (io_then m k)"
  unfolding io_then_def by (intro ext_io_bind)

lemma ext_io_prims [ext_intros]:
  "ext_io (io_ret x)" "ext_io (io_err e)" "ext_io (seg_update f)" "ext_io (on_cold c)"
  by (auto simp: ext_io_def seg_update_def on_cold_def split: prod.splits)

lemma ext_io_open [ext_intros]: "ext_io m \<Longrightarrow> ext_io (if_open b m)"
  by (simp add: if_open_def ext_io_prims)

lemma ext_io_append [ext_intros]: "ext_io (on_disk (fs_append p bs))"
proof -
  have "fs_ext d d'" if "fs_append p bs d = (r, d')" for d r d'
    using fs_append_keeps [OF that] by (simp add: fs_ext_def)
  then show ?thesis by (auto simp: ext_io_def on_disk_def split: prod.splits)
qed

lemma ext_io_seg [ext_intros]: "(\<And>s. ext_io (m s)) \<Longrightarrow> ext_io (with_seg m)"
  by (auto simp: ext_io_def with_seg_def)

lemma seg_append_ext: "ext_io (seg_append payload)"
  unfolding seg_append_def appendIndexEntry_def by (intro ext_intros)

lemma open_disk_seg: "if_open b (on_disk m) st = (r, st') \<Longrightarrow> fst st' = fst st"
  by (auto simp: if_open_def on_disk_def split: if_splits prod.splits)

lemma seg_append_keeps:
  assumes h: "seg_holds s (wDisk w) rs" and run: "seg_append payload (s, w) = (r, s', w')"
  shows "seg_holds s' (wDisk w') rs" "baseOffset s' = baseOffset s" "sdir s' = sdir s"
proof -
  have seg: "s' = s \<or> s' = s\<lparr>segSize := segSize s + (4 + int (length payload)), nextOffset := nextOffset s + 1\<rparr>"
    using run unfolding seg_append_def with_seg_def
    by (auto elim!: io_then_cases dest!: open_disk_seg simp: seg_update_def)
  have "fs_ext (wDisk w) (wDisk w')" using seg_append_ext [of payload] run by (metis ext_io_def snd_conv)
  then have "\<exists>x. fs_get (wDisk w') (lpath s) = Some (encs rs @ x)" "\<exists>x. fs_get (wDisk w') (ipath s) = Some (idx rs @ x)"
    using h unfolding seg_holds_def fs_ext_def by (metis append.assoc)+
  then show "seg_holds s' (wDisk w') rs" using seg h by (auto simp: seg_holds_def)
  show "baseOffset s' = baseOffset s" "sdir s' = sdir s" using seg by auto
qed

subsection \<open>Recovery\<close>

text \<open>One record in the scan.\<close>

lemma rebuildLoop_record:
  assumes nf: "faults d = []" and ix: "fs_get d ip = Some ix" and len: "length r < 2 ^ 32"
  shows "\<exists>d'. rebuildLoop ip (pre @ enc r @ tail) (length pre) pos buf rel d
      = rebuildLoop ip (pre @ enc r @ tail) (length (pre @ enc r)) (pos + 4 + int (length r))
          (put_be32 (u32_of (int (length r))) @ drop 4 buf) (rel + 1) d'
    \<and> faults d' = [] \<and> fs_get d' ip = Some (ix @ put_be32 rel @ put_be32 (u32_of pos))
    \<and> (\<forall>q. q \<noteq> ip \<longrightarrow> fs_get d' q = fs_get d q)"
proof -
  let ?d' = "fs_set ip (ix @ put_be32 rel @ put_be32 (u32_of pos)) d"
  have "take 4 (drop (length pre) (pre @ enc r @ tail)) = put_be32 (u32_of (int (length r)))"
    by (simp add: enc_def)
  moreover have "int_of_u32 (u32_of (int (length r))) = int (length r)" using len by (intro int_of_u32_of) auto
  ultimately have "rebuildLoop ip (pre @ enc r @ tail) (length pre) pos buf rel d
      = rebuildLoop ip (pre @ enc r @ tail) (length (pre @ enc r)) (pos + 4 + int (length r))
          (put_be32 (u32_of (int (length r))) @ drop 4 buf) (rel + 1) ?d'"
    using nf ix by (subst rebuildLoop.simps) (simp add: appendIndexEntry_def add.assoc Let_def)
  then show ?thesis using nf by (intro exI [of _ ?d']) simp
qed

lemma rebuildLoop_records:
  assumes "\<forall>r \<in> set rs. length r < 2 ^ 32"
  shows "faults d = [] \<Longrightarrow> fs_get d ip = Some ix \<Longrightarrow>
    \<exists>d' buf'. rebuildLoop ip (pre @ encs rs @ tail) (length pre) pos buf rel d
      = rebuildLoop ip (pre @ encs rs @ tail) (length (pre @ encs rs)) (pos + int (length (encs rs)))
          buf' (rel + of_nat (length rs)) d'
    \<and> faults d' = [] \<and> fs_get d' ip = Some (ix @ idx_from rel pos rs)
    \<and> (\<forall>q. q \<noteq> ip \<longrightarrow> fs_get d' q = fs_get d q)"
  using assms
proof (induction rs arbitrary: pre pos buf rel d ix)
  case Nil
  then show ?case by auto
next
  case (Cons r rs)
  have len: "length r < 2 ^ 32" using Cons.prems(3) by simp
  obtain d1 where d1: "rebuildLoop ip (pre @ enc r @ encs rs @ tail) (length pre) pos buf rel d
      = rebuildLoop ip (pre @ enc r @ encs rs @ tail) (length (pre @ enc r)) (pos + 4 + int (length r))
          (put_be32 (u32_of (int (length r))) @ drop 4 buf) (rel + 1) d1"
      "faults d1 = []" "fs_get d1 ip = Some (ix @ put_be32 rel @ put_be32 (u32_of pos))"
      "\<forall>q. q \<noteq> ip \<longrightarrow> fs_get d1 q = fs_get d q"
    using rebuildLoop_record [OF Cons.prems(1,2) len, of pre "encs rs @ tail" pos buf rel] by blast
  then show ?case
    using Cons.IH [OF d1(2,3), of "pre @ enc r" "pos + 4 + int (length r)"
        "put_be32 (u32_of (int (length r))) @ drop 4 buf" "rel + 1"] Cons.prems(3)
    by (auto simp: algebra_simps)
qed

lemma rebuildLoop_start:
  assumes "\<forall>r \<in> set rs. length r < 2 ^ 32" "faults d = []" "fs_get d ip = Some []"
  shows "\<exists>d' buf'. rebuildLoop ip (encs rs @ tail) 0 0 buf 0 d
      = rebuildLoop ip (encs rs @ tail) (length (encs rs)) (int (length (encs rs))) buf' (of_nat (length rs)) d'
    \<and> faults d' = [] \<and> fs_get d' ip = Some (idx rs) \<and> (\<forall>q. q \<noteq> ip \<longrightarrow> fs_get d' q = fs_get d q)"
  using rebuildLoop_records [OF assms, of "[]" tail 0 buf 0] by simp

text \<open>The scan always ends, and only adds index entries.\<close>

lemma rebuildLoop_ends:
  "faults d = [] \<Longrightarrow> fs_get d ip = Some ix \<Longrightarrow>
    \<exists>pos' k d' y. rebuildLoop ip lg fp pos buf rel d = (Inr (pos', rel + of_nat k), d')
      \<and> k \<le> length lg - fp \<and> faults d' = [] \<and> fs_get d' ip = Some (ix @ y)
      \<and> (\<forall>q. q \<noteq> ip \<longrightarrow> fs_get d' q = fs_get d q)"
proof (induction "length lg - fp" arbitrary: fp pos buf rel d ix rule: less_induct)
  case less
  let ?c = "take 4 (drop fp lg)"
  show ?case
  proof (cases "?c = []")
    case True
    then show ?thesis using less.prems
      by (intro exI [of _ pos] exI [of _ 0] exI [of _ d] exI [of _ "[]"]) (subst rebuildLoop.simps, simp)
  next
    case False
    define b where "b = ?c @ drop (length ?c) buf"
    define fp' where "fp' = fp + length ?c + nat (int_of_u32 (get_be32 b))"
    let ?d = "fs_set ip (ix @ put_be32 rel @ put_be32 (u32_of pos)) d"
    have lt: "length lg - fp' < length lg - fp" using False by (simp add: fp'_def)
    have eq: "rebuildLoop ip lg fp pos buf rel d
        = rebuildLoop ip lg fp' (pos + 4 + int_of_u32 (get_be32 b)) b (rel + 1) ?d"
      using False less.prems
      by (subst rebuildLoop.simps) (simp add: appendIndexEntry_def Let_def b_def fp'_def)
    obtain pos' k d' y where ih: "rebuildLoop ip lg fp' (pos + 4 + int_of_u32 (get_be32 b)) b (rel + 1) ?d
          = (Inr (pos', rel + 1 + of_nat k), d')" "k \<le> length lg - fp'" "faults d' = []"
        "fs_get d' ip = Some ((ix @ put_be32 rel @ put_be32 (u32_of pos)) @ y)"
        "\<forall>q. q \<noteq> ip \<longrightarrow> fs_get d' q = fs_get ?d q"
      using less.hyps [OF lt, of ?d "ix @ put_be32 rel @ put_be32 (u32_of pos)"] less.prems by fastforce
    show ?thesis
      by (rule exI [of _ pos'], rule exI [of _ "Suc k"], rule exI [of _ d'],
          rule exI [of _ "put_be32 rel @ put_be32 (u32_of pos) @ y"])
        (use eq ih lt in \<open>auto simp: add.assoc\<close>)
  qed
qed

lemma rebuildLoop_stop:
  "faults d = [] \<Longrightarrow> length lg \<le> fp \<Longrightarrow> rebuildLoop ip lg fp pos buf rel d = (Inr (pos, rel), d)"
  by (subst rebuildLoop.simps) simp

text \<open>The state in which the scan of \<^verbatim>\<open>openSegment\<close> starts.\<close>

lemma openSegment_scan:
  assumes nf: "faults d = []"
    and lg: "lg = (case fs_get d (logPath dir base) of None \<Rightarrow> [] | Some bs \<Rightarrow> bs)"
  shows "\<exists>d0. faults d0 = [] \<and> fs_get d0 (indexPath dir base) = Some [] \<and> fs_get d0 (logPath dir base) = Some lg
    \<and> (\<forall>q. q \<noteq> logPath dir base \<longrightarrow> q \<noteq> indexPath dir base \<longrightarrow> fs_get d0 q = fs_get d q)
    \<and> openSegment dir base d = io_bind (rebuildLoop (indexPath dir base) lg 0 0 [0, 0, 0, 0] 0)
        (\<lambda>(pos, rel). io_then fs_call (io_ret \<lparr>baseOffset = base, nextOffset = base + int_of_u32 rel,
           segSize = pos, sdir = dir, logOpen = True, indexOpen = True, tiered = False,
           coldKey = [], coldStore = None\<rparr>)) d0"
proof -
  let ?l = "logPath dir base" and ?i = "indexPath dir base"
  define d1 where "d1 = (if fs_get d ?l = None then fs_set ?l [] d else d)"
  define d0 where "d0 = fs_set ?i [] (fs_set ?i [] d1)"
  have d1: "faults d1 = []" "fs_get d1 ?l = Some lg" using nf lg by (auto simp: d1_def)
  then have "openSegment dir base d = io_bind (rebuildLoop ?i lg 0 0 [0, 0, 0, 0] 0)
        (\<lambda>(pos, rel). io_then fs_call (io_ret \<lparr>baseOffset = base, nextOffset = base + int_of_u32 rel,
           segSize = pos, sdir = dir, logOpen = True, indexOpen = True, tiered = False,
           coldKey = [], coldStore = None\<rparr>)) d0"
    using nf by (simp add: openSegment_def rebuildIndex_def io_then_Inr d1_def [symmetric] d0_def)
  then show ?thesis using d1 by (intro exI [of _ d0]) (auto simp: d0_def d1_def)
qed

text \<open>Opening a segment finds exactly the records of its log file, whatever its index file holds.\<close>

lemma openSegment_rep:
  assumes nf: "faults d = []" and sm: "small rs"
    and lg: "encs rs = (case fs_get d (logPath dir base) of None \<Rightarrow> [] | Some bs \<Rightarrow> bs)"
  shows "\<exists>s d'. (openSegment dir base d :: (serr + 'k segment) \<times> disk) = (Inr s, d') \<and> seg_rep s d' rs \<and> faults d' = []
    \<and> baseOffset s = base \<and> sdir s = dir
    \<and> (\<forall>q. q \<noteq> logPath dir base \<longrightarrow> q \<noteq> indexPath dir base \<longrightarrow> fs_get d' q = fs_get d q)"
proof -
  let ?l = "logPath dir base" and ?i = "indexPath dir base"
  obtain d0 where d0: "faults d0 = []" "fs_get d0 ?i = Some []" "fs_get d0 ?l = Some (encs rs)"
      "\<forall>q. q \<noteq> ?l \<longrightarrow> q \<noteq> ?i \<longrightarrow> fs_get d0 q = fs_get d q"
      "(openSegment dir base d :: (serr + 'k segment) \<times> disk) = io_bind (rebuildLoop ?i (encs rs) 0 0 [0, 0, 0, 0] 0)
        (\<lambda>(pos, rel). io_then fs_call (io_ret \<lparr>baseOffset = base, nextOffset = base + int_of_u32 rel,
           segSize = pos, sdir = dir, logOpen = True, indexOpen = True, tiered = False,
           coldKey = [], coldStore = None\<rparr>)) d0"
    using openSegment_scan [OF nf lg] by blast
  have all: "\<forall>r \<in> set rs. length r < 2 ^ 32" using small_nth(1) [OF sm] by (metis in_set_conv_nth)
  have n: "int_of_u32 (of_nat (length rs)) = int (length rs)"
    using int_of_u32_of [of "int (length rs)"] length_encs_ge [of rs] sm by (simp add: of_nat_u32 small_def)
  obtain d1 buf where d1: "rebuildLoop ?i (encs rs) 0 0 [0, 0, 0, 0] 0 d0
        = rebuildLoop ?i (encs rs) (length (encs rs)) (int (length (encs rs))) buf (of_nat (length rs)) d1"
      "faults d1 = []" "fs_get d1 ?i = Some (idx rs)" "\<forall>q. q \<noteq> ?i \<longrightarrow> fs_get d1 q = fs_get d0 q"
    using rebuildLoop_start [OF all d0(1,2), of "[]" "[0, 0, 0, 0]"] unfolding append_Nil2 by blast
  let ?s = "\<lparr>baseOffset = base, nextOffset = base + int (length rs), segSize = int (length (encs rs)),
    sdir = dir, logOpen = True, indexOpen = True, tiered = False, coldKey = [], coldStore = None\<rparr>"
  have "fs_get d1 ?l = Some (encs rs)" using d1(4) d0(3) log_index_distinct by metis
  then have "seg_rep ?s d1 rs" using d1(3) sm by (simp add: seg_rep_def)
  moreover have "(openSegment dir base d :: (serr + 'k segment) \<times> disk) = (Inr ?s, d1)"
    using d0(5) d1(1,2) n by (simp add: io_bind_Inr rebuildLoop_stop io_then_Inr)
  moreover have "fs_get d1 q = fs_get d q" if "q \<noteq> ?l" "q \<noteq> ?i" for q
    using d1(4) d0(4) that by metis
  ultimately show ?thesis using d1(2) by (intro exI [of _ ?s] exI [of _ d1]) simp
qed

text \<open>
  A log file that ends in anything after the complete records, such as the part of a
  record that a crash left: the complete records are still there.
\<close>

lemma openSegment_holds:
  assumes nf: "faults d = []" and lg: "fs_get d (logPath dir base) = Some (encs rs @ tail)"
    and sm: "length (encs rs @ tail) < 2 ^ 32"
  shows "\<exists>s d'. (openSegment dir base d :: (serr + 'k segment) \<times> disk) = (Inr s, d') \<and> seg_holds s d' rs \<and> faults d' = []
    \<and> baseOffset s = base \<and> sdir s = dir \<and> fs_get d' (logPath dir base) = Some (encs rs @ tail)"
proof -
  let ?l = "logPath dir base" and ?i = "indexPath dir base"
  obtain d0 where d0: "faults d0 = []" "fs_get d0 ?i = Some []" "fs_get d0 ?l = Some (encs rs @ tail)"
      "(openSegment dir base d :: (serr + 'k segment) \<times> disk) = io_bind (rebuildLoop ?i (encs rs @ tail) 0 0 [0, 0, 0, 0] 0)
        (\<lambda>(pos, rel). io_then fs_call (io_ret \<lparr>baseOffset = base, nextOffset = base + int_of_u32 rel,
           segSize = pos, sdir = dir, logOpen = True, indexOpen = True, tiered = False,
           coldKey = [], coldStore = None\<rparr>)) d0"
    using openSegment_scan [OF nf, of "encs rs @ tail" dir base] lg by auto
  have small: "small rs" using sm by (simp add: small_def)
  have all: "\<forall>r \<in> set rs. length r < 2 ^ 32" using small_nth(1) [OF small] by (metis in_set_conv_nth)
  obtain d1 buf where d1: "rebuildLoop ?i (encs rs @ tail) 0 0 [0, 0, 0, 0] 0 d0
        = rebuildLoop ?i (encs rs @ tail) (length (encs rs)) (int (length (encs rs))) buf (of_nat (length rs)) d1"
      "faults d1 = []" "fs_get d1 ?i = Some (idx rs)" "\<forall>q. q \<noteq> ?i \<longrightarrow> fs_get d1 q = fs_get d0 q"
    using rebuildLoop_start [OF all d0(1,2), of tail "[0, 0, 0, 0]"] by blast
  obtain pos k d2 y where d2: "rebuildLoop ?i (encs rs @ tail) (length (encs rs)) (int (length (encs rs))) buf
          (of_nat (length rs)) d1 = (Inr (pos, of_nat (length rs) + of_nat k), d2)" "k \<le> length tail"
      "faults d2 = []" "fs_get d2 ?i = Some (idx rs @ y)" "\<forall>q. q \<noteq> ?i \<longrightarrow> fs_get d2 q = fs_get d1 q"
    using rebuildLoop_ends [OF d1(2,3), of "encs rs @ tail" "length (encs rs)"
        "int (length (encs rs))" buf "of_nat (length rs)"] by auto
  have "of_nat (length rs) + of_nat k = u32_of (int (length rs + k))" unfolding of_nat_u32 by simp
  moreover have "int (length rs + k) < 2 ^ 32" using length_encs_ge [of rs] sm d2(2) by simp
  ultimately have n: "int_of_u32 (of_nat (length rs) + of_nat k) = int (length rs + k)"
    by (simp only: int_of_u32_of of_nat_0_le_iff)
  let ?s = "\<lparr>baseOffset = base, nextOffset = base + int (length rs + k), segSize = pos,
    sdir = dir, logOpen = True, indexOpen = True, tiered = False, coldKey = [], coldStore = None\<rparr>"
  have l: "fs_get d2 ?l = Some (encs rs @ tail)" using d2(5) d1(4) d0(3) log_index_distinct by metis
  then have "seg_holds ?s d2 rs" using d2(4) small by (simp add: seg_holds_def)
  moreover have "(openSegment dir base d :: (serr + 'k segment) \<times> disk) = (Inr ?s, d2)"
    using d0(4) d1(1) d2(1,3) n by (simp add: io_bind_Inr io_then_Inr)
  ultimately show ?thesis using d2(3) l by (intro exI [of _ ?s] exI [of _ d2]) simp
qed

end
