(* ===== verification/Storage_Cold.thy ===== *)
theory Storage_Cold
  imports Storage_Segment
begin

text \<open>
  Cold storage: \<^verbatim>\<open>storage/coldstore.go\<close> and \<^verbatim>\<open>storage/minio_coldstore.go\<close>. The contract
  that tiering relies on is the locale \<open>cold_store\<close>; it is proved of the directory store
  and of the failing store, and of the MinIO store from the documented behaviour of an
  object API (locale \<open>object_store\<close>), which the directory's file operations also have.
\<close>

subsection \<open>Object names\<close>

definition logName :: "string \<Rightarrow> string" where
  "logName key = key @ ''.log''"

definition indexName :: "string \<Rightarrow> string" where
  "indexName key = key @ ''.index''"

lemma object_names [simp]:
  "logName k = logName k' \<longleftrightarrow> k = k'" "indexName k = indexName k' \<longleftrightarrow> k = k'"
  "logName k \<noteq> indexName k'" "indexName k' \<noteq> logName k"
proof -
  have "last (logName k) \<noteq> last (indexName k')" by (simp add: logName_def indexName_def)
  then show "logName k \<noteq> indexName k'" "indexName k' \<noteq> logName k" by metis+
qed (simp_all add: logName_def indexName_def)

subsection \<open>Stores\<close>

text \<open>
  The calls of the object API of a bucket; the bucket's state is \<open>'b\<close>. \<open>apiOpen\<close> is
  \<^verbatim>\<open>GetObject\<close>, \<open>apiReadAll\<close> reads the object it returned.
\<close>

record 'b bucket_api =
  apiNew :: "('b, unit) io"
  apiExists :: "('b, bool) io"
  apiMake :: "('b, unit) io"
  apiPut :: "string \<Rightarrow> bytes \<Rightarrow> ('b, unit) io"
  apiOpen :: "string \<Rightarrow> ('b, unit) io"
  apiReadAll :: "string \<Rightarrow> ('b, bytes) io"
  apiRemove :: "string \<Rightarrow> ('b, unit) io"

definition MinioColdStore :: "'b bucket_api \<Rightarrow> 'b coldstore" where
  "MinioColdStore api =
     \<lparr>csPut = (\<lambda>key logBytes indexBytes.
        io_then (apiPut api (logName key) logBytes) (apiPut api (indexName key) indexBytes)),
      csGet = (\<lambda>key.
        io_then (apiOpen api (logName key)) (io_bind (apiReadAll api (logName key)) (\<lambda>logBytes.
        io_then (apiOpen api (indexName key)) (io_bind (apiReadAll api (indexName key)) (\<lambda>indexBytes.
        io_ret (logBytes, indexBytes)))))),
      csDelete = (\<lambda>key. io_then (apiRemove api (logName key)) (apiRemove api (indexName key)))\<rparr>"

definition NewMinioColdStore :: "'b bucket_api \<Rightarrow> ('b, 'b coldstore) io" where
  "NewMinioColdStore api =
     io_then (apiNew api) (io_bind (apiExists api) (\<lambda>exists.
       if \<not> exists then io_then (apiMake api) (io_ret (MinioColdStore api))
       else io_ret (MinioColdStore api)))"

definition NewLocalDirColdStore :: "(disk, unit) io" where
  "NewLocalDirColdStore = fs_call"

definition LocalDirColdStore :: "string \<Rightarrow> disk coldstore" where
  "LocalDirColdStore dir =
     \<lparr>csPut = (\<lambda>key logBytes indexBytes.
        io_then (fs_write_file (dir, logName key) logBytes) (fs_write_file (dir, indexName key) indexBytes)),
      csGet = (\<lambda>key.
        io_bind (fs_read_file (dir, logName key)) (\<lambda>logBytes.
        io_bind (fs_read_file (dir, indexName key)) (\<lambda>indexBytes.
        io_ret (logBytes, indexBytes)))),
      csDelete = (\<lambda>key.
        io_then (ignore_err (fs_remove (dir, logName key)))
          (ignore_err (fs_remove (dir, indexName key))))\<rparr>"

definition FailingColdStore :: "serr \<Rightarrow> 'k coldstore" where
  "FailingColdStore err =
     \<lparr>csPut = (\<lambda>_ _ _. io_err err), csGet = (\<lambda>_. io_err err), csDelete = (\<lambda>_. io_err err)\<rparr>"

subsection \<open>Contracts\<close>

text \<open>
  \<open>look\<close> is what a store holds under a key, \<open>avail\<close> that its calls succeed at present. A
  failed upload may leave anything under its own key, never under another.
\<close>

locale cold_store =
  fixes cs :: "'k coldstore" and look :: "'k \<Rightarrow> string \<Rightarrow> (bytes \<times> bytes) option" and avail :: "'k \<Rightarrow> bool"
  assumes put_ok: "csPut cs key l i k = (Inr (), k') \<Longrightarrow> look k' = (look k)(key \<mapsto> (l, i))"
    and put_err: "csPut cs key l i k = (Inl e, k') \<Longrightarrow> key' \<noteq> key \<Longrightarrow> look k' key' = look k key'"
    and get_ok: "csGet cs key k = (Inr v, k') \<Longrightarrow> look k key = Some v"
    and get_keeps: "csGet cs key k = (r, k') \<Longrightarrow> look k' = look k"
    and del_other: "csDelete cs key k = (r', k') \<Longrightarrow> key' \<noteq> key \<Longrightarrow> look k' key' = look k key'"
    and put_avail: "avail k \<Longrightarrow> \<exists>k'. csPut cs key l i k = (Inr (), k') \<and> avail k'"
    and get_avail: "avail k \<Longrightarrow> look k key = Some v \<Longrightarrow> csGet cs key k = (Inr v, k)"
    and del_avail: "avail k \<Longrightarrow> \<exists>k'. csDelete cs key k = (Inr (), k') \<and> avail k'"
begin

lemma put_other:
  assumes "csPut cs key l i k = (r, k')" "key' \<noteq> key"
  shows "look k' key' = look k key'"
proof (cases r)
  case (Inl e)
  then show ?thesis using put_err assms by blast
next
  case (Inr u)
  then show ?thesis using put_ok [of key l i k k'] assms by simp
qed

text \<open>What was uploaded is what a later fetch returns.\<close>

lemma put_get:
  assumes "csPut cs key l i k = (Inr (), k1)" "csGet cs key k1 = (Inr v, k2)"
  shows "v = (l, i)"
  using put_ok [OF assms(1)] get_ok [OF assms(2)] by simp

end

text \<open>A key's two objects, seen as one.\<close>

definition obj_pair :: "('b \<Rightarrow> string \<Rightarrow> bytes option) \<Rightarrow> 'b \<Rightarrow> string \<Rightarrow> (bytes \<times> bytes) option" where
  "obj_pair obj k key = (case (obj k (logName key), obj k (indexName key)) of
     (Some l, Some i) \<Rightarrow> Some (l, i) | _ \<Rightarrow> None)"

lemma obj_pair_cong: "obj k (logName key) = obj k' (logName key) \<Longrightarrow>
  obj k (indexName key) = obj k' (indexName key) \<Longrightarrow> obj_pair obj k key = obj_pair obj k' key"
  by (simp add: obj_pair_def)

lemma obj_pair_Some: "obj_pair obj k key = Some (l, i) \<longleftrightarrow>
  obj k (logName key) = Some l \<and> obj k (indexName key) = Some i"
  by (auto simp: obj_pair_def split: option.splits)

locale object_store =
  fixes api :: "'b bucket_api" and obj :: "'b \<Rightarrow> string \<Rightarrow> bytes option" and up :: "'b \<Rightarrow> bool"
  assumes obj_put: "apiPut api n b k = (Inr (), k') \<Longrightarrow> obj k' = (obj k)(n \<mapsto> b)"
    and obj_put_err: "apiPut api n b k = (Inl e, k') \<Longrightarrow> m \<noteq> n \<Longrightarrow> obj k' m = obj k m"
    and obj_open: "apiOpen api n k = (ro, k') \<Longrightarrow> obj k' = obj k"
    and obj_read: "apiReadAll api n k = (Inr b, k') \<Longrightarrow> obj k n = Some b"
    and obj_read_keeps: "apiReadAll api n k = (rb, k') \<Longrightarrow> obj k' = obj k"
    and obj_remove: "apiRemove api n k = (ro, k') \<Longrightarrow> m \<noteq> n \<Longrightarrow> obj k' m = obj k m"
    and up_put: "up k \<Longrightarrow> \<exists>k'. apiPut api n b k = (Inr (), k') \<and> up k'"
    and up_get: "up k \<Longrightarrow> obj k n = Some b \<Longrightarrow> apiOpen api n k = (Inr (), k) \<and> apiReadAll api n k = (Inr b, k)"
    and up_remove: "up k \<Longrightarrow> \<exists>k'. apiRemove api n k = (Inr (), k') \<and> up k'"
begin

lemma put_pair_other:
  assumes "csPut (MinioColdStore api) key l i k = (r, k')" "key' \<noteq> key"
  shows "obj_pair obj k' key' = obj_pair obj k key'"
proof -
  have one: "obj k2 m = obj k1 m" if "apiPut api n b k1 = (q, k2)" "m \<noteq> n" for n b k1 q k2 m
    using that obj_put [of n b k1 k2] obj_put_err [of n b k1 _ k2 m] by (cases q) auto
  from assms(1) show ?thesis
    by (auto simp: MinioColdStore_def elim!: io_then_cases intro!: obj_pair_cong)
      (use one assms(2) in \<open>auto simp: object_names\<close>)
qed

lemma put_pair_ok:
  assumes "csPut (MinioColdStore api) key l i k = (Inr (), k')"
  shows "obj_pair obj k' = (obj_pair obj k)(key \<mapsto> (l, i))"
proof -
  obtain k1 where k1: "apiPut api (logName key) l k = (Inr (), k1)" "apiPut api (indexName key) i k1 = (Inr (), k')"
    using assms by (auto simp: MinioColdStore_def elim!: io_then_cases)
  have "obj k' = (obj k)(logName key \<mapsto> l, indexName key \<mapsto> i)"
    using obj_put [OF k1(1)] obj_put [OF k1(2)] by simp
  then have "obj_pair obj k' key' = ((obj_pair obj k)(key \<mapsto> (l, i))) key'" for key'
    by (cases "key' = key") (simp_all add: obj_pair_def)
  then show ?thesis by blast
qed

lemma obj_read_Inr: "apiReadAll api n k = (Inr b, k') \<Longrightarrow> obj k n = Some b \<and> obj k' = obj k"
  using obj_read obj_read_keeps by blast

lemma obj_read_Inl: "apiReadAll api n k = (Inl e, k') \<Longrightarrow> obj k' = obj k"
  using obj_read_keeps by blast

lemma get_pair:
  assumes "csGet (MinioColdStore api) key k = (r, k')"
  shows "obj_pair obj k' = obj_pair obj k" "r = Inr v \<Longrightarrow> obj_pair obj k key = Some v"
proof -
  have "obj k' = obj k \<and> (r = Inr v \<longrightarrow> obj k (logName key) = Some (fst v) \<and> obj k (indexName key) = Some (snd v))"
    using assms unfolding MinioColdStore_def
    by (auto elim!: io_then_cases io_bind_cases dest!: obj_open obj_read_Inr obj_read_Inl)
  then show "obj_pair obj k' = obj_pair obj k" "r = Inr v \<Longrightarrow> obj_pair obj k key = Some v"
    by (auto simp: obj_pair_def fun_eq_iff)
qed

lemma get_pair_up:
  assumes "up k" "obj_pair obj k key = Some v"
  shows "csGet (MinioColdStore api) key k = (Inr v, k)"
proof -
  obtain l i where v: "v = (l, i)" "obj k (logName key) = Some l" "obj k (indexName key) = Some i"
    using assms(2) by (cases v) (auto simp: obj_pair_Some)
  then show ?thesis using up_get [OF assms(1)] by (simp add: MinioColdStore_def io_then_def io_bind_def)
qed

lemma del_pair_other:
  assumes "csDelete (MinioColdStore api) key k = (r, k')" "key' \<noteq> key"
  shows "obj_pair obj k' key' = obj_pair obj k key'"
proof -
  have "obj k' m = obj k m" if "m \<noteq> logName key" "m \<noteq> indexName key" for m
    using assms(1) that unfolding MinioColdStore_def
    by (auto elim!: io_then_cases simp: obj_remove)
  then show ?thesis using assms(2) by (intro obj_pair_cong) auto
qed

lemma put_pair_up:
  assumes "up k"
  shows "\<exists>k'. csPut (MinioColdStore api) key l i k = (Inr (), k') \<and> up k'"
proof -
  obtain k1 where k1: "apiPut api (logName key) l k = (Inr (), k1)" "up k1" using up_put [OF assms] by blast
  then obtain k2 where "apiPut api (indexName key) i k1 = (Inr (), k2)" "up k2" using up_put by blast
  then show ?thesis using k1 by (auto simp: MinioColdStore_def io_then_def io_bind_def)
qed

lemma del_pair_up:
  assumes "up k"
  shows "\<exists>k'. csDelete (MinioColdStore api) key k = (Inr (), k') \<and> up k'"
proof -
  obtain k1 where k1: "apiRemove api (logName key) k = (Inr (), k1)" "up k1" using up_remove [OF assms] by blast
  then obtain k2 where "apiRemove api (indexName key) k1 = (Inr (), k2)" "up k2" using up_remove by blast
  then show ?thesis using k1 by (auto simp: MinioColdStore_def io_then_def io_bind_def)
qed

end

sublocale object_store \<subseteq> minio: cold_store "MinioColdStore api" "obj_pair obj" up
  by unfold_locales
    (fact put_pair_ok, fact put_pair_other, fact get_pair(2) [OF _ refl], fact get_pair(1),
     fact del_pair_other, fact put_pair_up, fact get_pair_up, fact del_pair_up)

subsection \<open>The directory store\<close>

text \<open>The file operations of a directory as an object API.\<close>

definition dir_api :: "string \<Rightarrow> disk bucket_api" where
  "dir_api dir = \<lparr>apiNew = fs_call, apiExists = io_ret True, apiMake = fs_call,
     apiPut = (\<lambda>n. fs_write_file (dir, n)), apiOpen = (\<lambda>_. io_ret ()),
     apiReadAll = (\<lambda>n. fs_read_file (dir, n)), apiRemove = (\<lambda>n. ignore_err (fs_remove (dir, n)))\<rparr>"

definition dir_obj :: "string \<Rightarrow> disk \<Rightarrow> string \<Rightarrow> bytes option" where
  "dir_obj dir d n = fs_get d (dir, n)"

definition dir_look :: "string \<Rightarrow> disk \<Rightarrow> string \<Rightarrow> (bytes \<times> bytes) option" where
  "dir_look dir = obj_pair (dir_obj dir)"

lemma pop_fault_get: "pop_fault d = (f, d') \<Longrightarrow> fs_get d' = fs_get d"
  by (auto simp: pop_fault_def fun_eq_iff split: list.splits)

lemma fs_call_get: "fs_call d = (r, d') \<Longrightarrow> fs_get d' = fs_get d"
  by (auto simp: fs_call_def dest: pop_fault_get split: prod.splits option.splits)

lemma fs_remove_get: "fs_remove p d = (r, d') \<Longrightarrow> q \<noteq> p \<Longrightarrow> fs_get d' q = fs_get d q"
  by (auto simp: fs_remove_def dest!: fs_call_get elim!: io_then_cases split: if_splits)

lemma fs_write_file_get: "fs_write_file p bs d = (r, d') \<Longrightarrow> q \<noteq> p \<Longrightarrow> fs_get d' q = fs_get d q"
  by (auto simp: fs_write_file_def dest!: pop_fault_get split: prod.splits option.splits nat.splits)

lemma fs_write_file_ok: "fs_write_file p bs d = (Inr (), d') \<Longrightarrow> fs_get d' = (fs_get d)(p \<mapsto> bs)"
  by (auto simp: fs_write_file_def fun_eq_iff dest!: pop_fault_get split: prod.splits option.splits nat.splits)

lemma fs_read_file_get: "fs_read_file p d = (r, d') \<Longrightarrow> fs_get d' = fs_get d"
  by (auto simp: fs_read_file_def dest!: fs_call_get elim!: io_then_cases split: option.splits)

lemma fs_read_file_ok: "fs_read_file p d = (Inr bs, d') \<Longrightarrow> fs_get d p = Some bs"
  by (auto simp: fs_read_file_def dest!: fs_call_get elim!: io_then_cases split: option.splits)

lemma ignore_remove: "ignore_err (fs_remove p) d = (r, d') \<Longrightarrow> r = Inr () \<and> (\<forall>q. q \<noteq> p \<longrightarrow> fs_get d' q = fs_get d q)"
  unfolding ignore_err_def using fs_remove_get [of p d] by (metis prod.collapse prod.inject)

lemma ignore_remove_up: "faults d = [] \<Longrightarrow> \<exists>d'. ignore_err (fs_remove p) d = (Inr (), d') \<and> faults d' = []"
  by (auto simp: ignore_err_def fs_remove_def io_then_def io_bind_def)

interpretation dir_objects: object_store "dir_api dir" "dir_obj dir" "\<lambda>d. faults d = []" for dir
proof unfold_locales
  show "dir_obj dir k' m = dir_obj dir k m" if "apiRemove (dir_api dir) n k = (ro, k')" "m \<noteq> n" for n k ro k' m
    using ignore_remove [of "(dir, n)" k ro k'] that by (simp add: dir_api_def dir_obj_def)
  show "\<exists>k'. apiRemove (dir_api dir) n k = (Inr (), k') \<and> faults k' = []" if "faults k = []" for k n
    using ignore_remove_up [OF that] by (simp add: dir_api_def)
qed (auto simp: dir_api_def dir_obj_def fun_eq_iff dest: fs_write_file_ok fs_write_file_get fs_read_file_ok
      fs_read_file_get)

text \<open>\<^verbatim>\<open>LocalDirColdStore\<close> does what the MinIO store does over the directory's files.\<close>

lemma local_dir_eq: "LocalDirColdStore dir = MinioColdStore (dir_api dir)"
  by (simp add: LocalDirColdStore_def MinioColdStore_def dir_api_def io_then_def)

interpretation local_dir: cold_store "LocalDirColdStore dir" "dir_look dir" "\<lambda>d. faults d = []" for dir
  unfolding dir_look_def local_dir_eq by (rule dir_objects.minio.cold_store_axioms)

interpretation failing: cold_store "FailingColdStore err" "\<lambda>_ _. None" "\<lambda>_. False" for err
  by unfold_locales (auto simp: FailingColdStore_def)

end
