(* ===== verification/Storage_Log.thy ===== *)
theory Storage_Log
  imports Storage_Cold
begin

text \<open>
  The log of segments: \<^verbatim>\<open>storage/log.go\<close> and \<^verbatim>\<open>storage/tiering.go\<close>. The field
  \<^verbatim>\<open>active\<close> of the code always points to the last element of \<^verbatim>\<open>segments\<close>; the model
  reads it from there.
\<close>

subsection \<open>Operations\<close>

record 'k slog =
  ldir :: string
  maxSegmentBytes :: int
  segments :: "'k segment list"
  lcold :: "'k coldstore option"

definition active :: "'k slog \<Rightarrow> 'k segment" where
  "active l = last (segments l)"

definition defaultMaxSegmentBytes :: int where
  "defaultMaxSegmentBytes = 4 * 1024 * 1024"

text \<open>\<^verbatim>\<open>HasSuffix\<close>, \<^verbatim>\<open>TrimSuffix\<close> and \<^verbatim>\<open>Atoi\<close> on one directory entry.\<close>

definition segment_of_name :: "string \<Rightarrow> int option" where
  "segment_of_name name =
     (if 4 \<le> length name \<and> drop (length name - 4) name = ''.log''
      then go_atoi (take (length name - 4) name) else None)"

definition discoverSegments :: "string \<Rightarrow> (disk, int list) io" where
  "discoverSegments dir =
     io_bind (fs_read_dir dir) (\<lambda>names. io_ret (sort (remdups (List.map_filter segment_of_name names))))"

fun openAll :: "string \<Rightarrow> int list \<Rightarrow> (disk, 'k segment list) io" where
  "openAll dir [] = io_ret []"
| "openAll dir (b # bs) =
     io_bind (openSegment dir b) (\<lambda>s. io_bind (openAll dir bs) (\<lambda>ss. io_ret (s # ss)))"

definition Open :: "string \<Rightarrow> int \<Rightarrow> (disk, 'k slog) io" where
  "Open dir maxBytes =
     (let maxBytes = (if maxBytes \<le> 0 then defaultMaxSegmentBytes else maxBytes) in
      io_then fs_call
      (io_bind (discoverSegments dir) (\<lambda>found.
         let baseOffsets = (if found = [] then [0] else found) in
         io_bind (openAll dir baseOffsets) (\<lambda>ss.
           io_ret \<lparr>ldir = dir, maxSegmentBytes = maxBytes, segments = ss, lcold = None\<rparr>))))"

text \<open>Run a segment operation on the segment at an index of the list, or on the active one.\<close>

definition at_seg :: "nat \<Rightarrow> ('k segment \<times> 'k world, 'a) io \<Rightarrow> ('k slog \<times> 'k world, 'a) io" where
  "at_seg i m st = (case st of (l, w) \<Rightarrow> case m (segments l ! i, w) of
     (r, s, w') \<Rightarrow> (r, l\<lparr>segments := (segments l)[i := s]\<rparr>, w'))"

definition on_active :: "('k segment \<times> 'k world, 'a) io \<Rightarrow> ('k slog \<times> 'k world, 'a) io" where
  "on_active m = with_seg (\<lambda>l. at_seg (length (segments l) - 1) m)"

definition roll :: "('k slog \<times> 'k world, unit) io" where
  "roll = with_seg (\<lambda>l. io_bind (on_disk (openSegment (ldir l) (nextOffset (active l))))
     (\<lambda>s. seg_update (\<lambda>l. l\<lparr>segments := segments l @ [s]\<rparr>)))"

definition Append :: "bytes \<Rightarrow> ('k slog \<times> 'k world, int) io" where
  "Append payload = with_seg (\<lambda>l.
     let needed = 4 + int (length payload) in
     if segSize (active l) + needed > maxSegmentBytes l \<and> segSize (active l) > 0
     then io_then roll (on_active (seg_append payload))
     else on_active (seg_append payload))"

definition findSegment :: "'k slog \<Rightarrow> int \<Rightarrow> nat option" where
  "findSegment l offset =
     (let idx = int (sort_Search (length (segments l)) (\<lambda>i. baseOffset (segments l ! i) > offset)) - 1 in
      if idx < 0 \<or> idx \<ge> int (length (segments l)) then None
      else let seg = segments l ! nat idx in
        if offset < baseOffset seg \<or> offset \<ge> nextOffset seg then None else Some (nat idx))"

definition Read :: "int \<Rightarrow> ('k slog \<times> 'k world, bytes) io" where
  "Read offset = with_seg (\<lambda>l.
     case findSegment l offset of None \<Rightarrow> io_err OffsetNotFound | Some i \<Rightarrow> at_seg i (seg_read offset))"

definition NextOffset :: "'k slog \<Rightarrow> int" where
  "NextOffset l = nextOffset (active l)"

definition OldestOffset :: "'k slog \<Rightarrow> int" where
  "OldestOffset l = baseOffset (hd (segments l))"

definition SegmentCount :: "'k slog \<Rightarrow> nat" where
  "SegmentCount l = length (segments l)"

text \<open>The loops over segments of \<^verbatim>\<open>Compact\<close>, \<^verbatim>\<open>Close\<close> and \<^verbatim>\<open>TierSegments\<close>.\<close>

fun each_seg :: "('k segment \<times> 'k world, unit) io \<Rightarrow> nat list \<Rightarrow> ('k slog \<times> 'k world, unit) io" where
  "each_seg m [] = io_ret ()"
| "each_seg m (i # is) = io_then (at_seg i m) (each_seg m is)"

definition Compact :: "int \<Rightarrow> ('k slog \<times> 'k world, unit) io" where
  "Compact keepSegments = with_seg (\<lambda>l.
     let keep = (if keepSegments < 1 then 1 else keepSegments);
         toRemove = int (length (segments l)) - keep in
     if toRemove \<le> 0 then io_ret ()
     else io_then (each_seg seg_remove [0..<nat toRemove])
       (seg_update (\<lambda>l. l\<lparr>segments := drop (nat toRemove) (segments l)\<rparr>)))"

definition Close :: "('k slog \<times> 'k world, unit) io" where
  "Close = with_seg (\<lambda>l. each_seg seg_close [0..<length (segments l)])"

definition EnableTiering :: "'k coldstore \<Rightarrow> 'k slog \<Rightarrow> 'k slog" where
  "EnableTiering cs l = l\<lparr>lcold := Some cs\<rparr>"

text \<open>
  \<^verbatim>\<open>TierSegments\<close> returns how many segments it has migrated, also when it stops at an
  error.
\<close>

fun tierLoop :: "'k coldstore \<Rightarrow> nat list \<Rightarrow> nat \<Rightarrow> 'k slog \<times> 'k world \<Rightarrow>
    (nat \<times> serr option) \<times> 'k slog \<times> 'k world" where
  "tierLoop cs [] n st = ((n, None), st)"
| "tierLoop cs (i # is) n (l, w) =
     (if i = length (segments l) - 1 \<or> tiered (segments l ! i) then tierLoop cs is n (l, w)
      else (case at_seg i (tierOut cs (segmentName (baseOffset (segments l ! i)))) (l, w) of
              (Inl e, st) \<Rightarrow> ((n, Some e), st)
            | (Inr _, st) \<Rightarrow> tierLoop cs is (n + 1) st))"

definition TierSegments :: "'k slog \<times> 'k world \<Rightarrow> (nat \<times> serr option) \<times> 'k slog \<times> 'k world" where
  "TierSegments st =
     (case lcold (fst st) of
        None \<Rightarrow> ((0, Some TieringDisabled), st)
      | Some cs \<Rightarrow> tierLoop cs [0..<length (segments (fst st))] 0 st)"

subsection \<open>What a log holds\<close>

text \<open>
  A segment with the records \<open>rs\<close>, on disk or in the cold store \<open>cs\<close> whose contents
  \<open>look\<close> shows.
\<close>

definition seg_ok :: "'k coldstore \<Rightarrow> ('k \<Rightarrow> string \<Rightarrow> (bytes \<times> bytes) option) \<Rightarrow>
    'k segment \<Rightarrow> 'k world \<Rightarrow> bytes list \<Rightarrow> bool" where
  "seg_ok cs look s w rs \<longleftrightarrow> small rs \<and> nextOffset s = baseOffset s + int (length rs)
     \<and> (if tiered s
        then coldStore s = Some cs \<and> coldKey s = segmentName (baseOffset s)
          \<and> look (wCold w) (coldKey s) = Some (encs rs, idx rs)
        else seg_rep s (wDisk w) rs)"

text \<open>
  A log whose segments hold \<open>rss\<close>: consecutive offsets, only the active segment may be
  empty and is local, and the directory has no log file but those of the local segments.
\<close>

definition log_ok :: "'k coldstore \<Rightarrow> ('k \<Rightarrow> string \<Rightarrow> (bytes \<times> bytes) option) \<Rightarrow>
    'k slog \<Rightarrow> 'k world \<Rightarrow> bytes list list \<Rightarrow> bool" where
  "log_ok cs look l w rss \<longleftrightarrow>
     faults (wDisk w) = [] \<and> segments l \<noteq> [] \<and> length rss = length (segments l)
     \<and> \<not> tiered (active l) \<and> maxSegmentBytes l < 2 ^ 32 \<and> (\<forall>cs'. lcold l = Some cs' \<longrightarrow> cs' = cs)
     \<and> 0 \<le> OldestOffset l \<and> NextOffset l < 2 ^ 63
     \<and> (\<forall>i < length rss. seg_ok cs look (segments l ! i) w (rss ! i) \<and> sdir (segments l ! i) = ldir l)
     \<and> (\<forall>i. Suc i < length rss \<longrightarrow> rss ! i \<noteq> []
           \<and> baseOffset (segments l ! Suc i) = nextOffset (segments l ! i))
     \<and> (\<forall>n. fs_get (wDisk w) (ldir l, n) \<noteq> None \<longrightarrow> segment_of_name n \<noteq> None \<longrightarrow>
           (\<exists>i < length rss. \<not> tiered (segments l ! i) \<and> (ldir l, n) = lpath (segments l ! i)))"

lemma concat_nth:
  assumes "j < length (concat xss)"
  obtains i k where "i < length xss" "k < length (xss ! i)" "j = length (concat (take i xss)) + k"
    "concat xss ! j = xss ! i ! k"
  using assms
proof (induction xss arbitrary: j thesis)
  case (Cons xs xss)
  show ?case
  proof (cases "j < length xs")
    case True
    then show ?thesis using Cons.prems(1) [of 0 j] by (simp add: nth_append)
  next
    case False
    then have "j - length xs < length (concat xss)" using Cons.prems(2) by simp
    then obtain i k where "i < length xss" "k < length (xss ! i)" "j - length xs = length (concat (take i xss)) + k"
        "concat xss ! (j - length xs) = xss ! i ! k" using Cons.IH by blast
    then show ?thesis using Cons.prems(1) [of "Suc i" k] False by (simp add: nth_append)
  qed
qed simp

lemma log_okD:
  assumes "log_ok cs look l w rss"
  shows "faults (wDisk w) = []" "segments l \<noteq> []" "length rss = length (segments l)" "\<not> tiered (active l)"
    "maxSegmentBytes l < 2 ^ 32" "0 \<le> OldestOffset l" "NextOffset l < 2 ^ 63"
    "i < length rss \<Longrightarrow> seg_ok cs look (segments l ! i) w (rss ! i)"
    "i < length rss \<Longrightarrow> sdir (segments l ! i) = ldir l"
    "Suc i < length rss \<Longrightarrow> rss ! i \<noteq> []"
    "Suc i < length rss \<Longrightarrow> baseOffset (segments l ! Suc i) = nextOffset (segments l ! i)"
    "lcold l = Some cs' \<Longrightarrow> cs' = cs"
  using assms by (auto simp: log_ok_def)

lemma log_ok_clean:
  assumes "log_ok cs look l w rss" "fs_get (wDisk w) (ldir l, n) \<noteq> None" "segment_of_name n \<noteq> None"
  shows "\<exists>i < length rss. \<not> tiered (segments l ! i) \<and> (ldir l, n) = lpath (segments l ! i)"
  using assms unfolding log_ok_def by blast

lemma log_next:
  assumes "log_ok cs look l w rss" "i < length rss"
  shows "nextOffset (segments l ! i) = baseOffset (segments l ! i) + int (length (rss ! i))"
  using log_okD(8) [OF assms] by (simp add: seg_ok_def)

lemma log_base:
  assumes "log_ok cs look l w rss"
  shows "i < length rss \<Longrightarrow> baseOffset (segments l ! i) = OldestOffset l + int (length (concat (take i rss)))"
proof (induction i)
  case 0
  then show ?case using log_okD(2) [OF assms] by (simp add: OldestOffset_def hd_conv_nth)
next
  case (Suc i)
  then show ?case using log_okD(11) [OF assms, of i] log_next [OF assms, of i]
    by (simp add: take_Suc_conv_app_nth)
qed

lemma log_active:
  assumes "log_ok cs look l w rss"
  shows "active l = segments l ! (length rss - 1)" "length rss - 1 < length rss"
  using log_okD(2,3) [OF assms] by (simp_all add: active_def last_conv_nth)

lemma NextOffset_eq:
  assumes "log_ok cs look l w rss"
  shows "NextOffset l = OldestOffset l + int (length (concat rss))"
proof -
  let ?n = "length rss - 1"
  have "take (Suc ?n) rss = rss" using log_active(2) [OF assms] by simp
  then have "concat rss = concat (take ?n rss) @ rss ! ?n"
    by (metis concat.simps concat_append log_active(2) [OF assms] append_Nil2 take_Suc_conv_app_nth)
  then show ?thesis
    using log_next [OF assms log_active(2) [OF assms]] log_base [OF assms log_active(2) [OF assms]]
      log_active(1) [OF assms] by (simp add: NextOffset_def)
qed

text \<open>Bases grow strictly, so every segment has files of its own.\<close>

lemma log_base_mono:
  assumes "log_ok cs look l w rss" "i < j" "j < length rss"
  shows "baseOffset (segments l ! i) + int (length (rss ! i)) \<le> baseOffset (segments l ! j)"
    "baseOffset (segments l ! i) < baseOffset (segments l ! j)"
proof -
  have "prefix (take (Suc i) rss) (take j rss)" using assms(2) take_is_prefix [of "Suc i" "take j rss"] by simp
  then obtain zs where "take j rss = take (Suc i) rss @ zs" by (auto simp: prefix_def)
  then have "length (concat (take (Suc i) rss)) \<le> length (concat (take j rss))" by simp
  moreover have "length (concat (take (Suc i) rss)) = length (concat (take i rss)) + length (rss ! i)"
    using assms by (simp add: take_Suc_conv_app_nth)
  ultimately show le: "baseOffset (segments l ! i) + int (length (rss ! i)) \<le> baseOffset (segments l ! j)"
    using log_base [OF assms(1), of i] log_base [OF assms(1), of j] assms by simp
  have "rss ! i \<noteq> []" using log_okD(10) [OF assms(1), of i] assms by simp
  then show "baseOffset (segments l ! i) < baseOffset (segments l ! j)" using le by (cases "rss ! i") auto
qed

lemma log_base_bounds:
  assumes "log_ok cs look l w rss" "i < length rss"
  shows "0 \<le> baseOffset (segments l ! i)" "baseOffset (segments l ! i) < 2 ^ 63"
proof -
  have b: "baseOffset (segments l ! i) = OldestOffset l + int (length (concat (take i rss)))"
    using log_base [OF assms] .
  then show "0 \<le> baseOffset (segments l ! i)" using log_okD(6) [OF assms(1)] by simp
  obtain zs where "rss = take i rss @ zs" by (metis append_take_drop_id)
  then have "length (concat (take i rss)) \<le> length (concat rss)"
    by (metis concat_append length_append le_add1)
  then show "baseOffset (segments l ! i) < 2 ^ 63"
    using b NextOffset_eq [OF assms(1)] log_okD(7) [OF assms(1)] by linarith
qed

lemma log_base_inj:
  assumes "log_ok cs look l w rss" "i < length rss" "j < length rss"
    "segmentName (baseOffset (segments l ! i)) = segmentName (baseOffset (segments l ! j))"
  shows "i = j"
proof (rule ccontr)
  assume "i \<noteq> j"
  then have "baseOffset (segments l ! i) \<noteq> baseOffset (segments l ! j)"
    using log_base_mono(2) [OF assms(1), of i j] log_base_mono(2) [OF assms(1), of j i] assms(2,3)
    by (metis less_irrefl linorder_neqE_nat)
  then show False
    using segmentName_inject log_base_bounds [OF assms(1)] assms(2-4) by metis
qed

lemma paths_eq [simp]:
  "logPath d a = logPath d' b \<longleftrightarrow> d = d' \<and> segmentName a = segmentName b"
  "indexPath d a = indexPath d' b \<longleftrightarrow> d = d' \<and> segmentName a = segmentName b"
  by (auto simp: logPath_def indexPath_def)


lemma segment_of_logPath:
  assumes "0 \<le> b" "b < 2 ^ 63"
  shows "segment_of_name (snd (logPath dir b)) = Some b"
  using atoi_segmentName [OF assms] by (simp add: segment_of_name_def logPath_def)

lemma segment_of_indexPath: "segment_of_name (snd (indexPath dir b)) = None"
  by (simp add: segment_of_name_def indexPath_def)

subsection \<open>Reading\<close>

lemma findSegment_in:
  assumes ok: "log_ok cs look l w rss" and i: "i < length rss" and k: "k < length (rss ! i)"
  shows "findSegment l (baseOffset (segments l ! i) + int k) = Some i"
proof -
  let ?off = "baseOffset (segments l ! i) + int k"
  have len: "length rss = length (segments l)" using log_okD(3) [OF ok] .
  have "sort_Search (length (segments l)) (\<lambda>m. baseOffset (segments l ! m) > ?off) = Suc i"
  proof (rule sort_Search_eqI)
    fix m assume m: "m < Suc i"
    then show "\<not> ?off < baseOffset (segments l ! m)"
      using log_base_mono(2) [OF ok, of m i] i by (cases "m = i") auto
  next
    fix m n assume mn: "m \<le> n" "n < length (segments l)" "?off < baseOffset (segments l ! m)"
    then show "?off < baseOffset (segments l ! n)"
      using log_base_mono(2) [OF ok, of m n] len by (cases "m = n") auto
  next
    assume "Suc i < length (segments l)"
    then show "?off < baseOffset (segments l ! Suc i)"
      using log_base_mono(1) [OF ok, of i "Suc i"] k len by simp
  qed (use i len in simp)
  then show ?thesis
    using i k len log_next [OF ok i] by (simp add: findSegment_def Let_def nat_add_distrib)
qed

lemma findSegment_Some:
  assumes "findSegment l offset = Some i"
  shows "i < length (segments l)" "baseOffset (segments l ! i) \<le> offset" "offset < nextOffset (segments l ! i)"
  using assms by (auto simp: findSegment_def Let_def nat_less_iff split: if_splits)

lemma findSegment_out:
  assumes ok: "log_ok cs look l w rss" and out: "offset < OldestOffset l \<or> NextOffset l \<le> offset"
  shows "findSegment l offset = None"
proof (rule ccontr)
  assume "findSegment l offset \<noteq> None"
  then obtain i where i: "i < length rss" "baseOffset (segments l ! i) \<le> offset" "offset < nextOffset (segments l ! i)"
    using log_okD(3) [OF ok] findSegment_Some [of l offset] by auto
  have "0 \<le> int (length (concat (take i rss)))" by simp
  then have lo: "OldestOffset l \<le> offset" using log_base [OF ok i(1)] i(2) by linarith
  obtain zs where "rss = take (Suc i) rss @ zs" by (metis append_take_drop_id)
  then have "length (concat (take (Suc i) rss)) \<le> length (concat rss)" by (metis concat_append length_append le_add1)
  then have "offset < NextOffset l"
    using i log_next [OF ok i(1)] log_base [OF ok i(1)] NextOffset_eq [OF ok]
    by (simp add: take_Suc_conv_app_nth)
  then show False using lo out by linarith
qed

lemma at_seg_same:
  assumes "m (segments l ! i, w) = (r, segments l ! i, w')"
  shows "at_seg i m (l, w) = (r, l, w')"
  using assms by (simp add: at_seg_def)

lemma Read_out:
  assumes "log_ok cs look l w rss" "offset < OldestOffset l \<or> NextOffset l \<le> offset"
  shows "Read offset (l, w) = (Inl OffsetNotFound, l, w)"
  using findSegment_out [OF assms] by (simp add: Read_def with_seg_def)

lemma readFetched_nth:
  assumes "small rs" "i < length rs"
  shows "readFetched (encs rs) (idx rs) (int i * 8) = Inr (rs ! i)"
proof -
  let ?p = "int (length (encs (take i rs)))"
  note sm = small_nth [OF assms]
  have pos: "int_of_u32 (u32_of ?p) = ?p" "int_of_u32 (u32_of (int (length (rs ! i)))) = int (length (rs ! i))"
    using sm by (auto intro!: int_of_u32_of)
  have len: "length (encs (take i rs)) + 4 + length (rs ! i) \<le> length (encs rs)"
    by (subst encs_split [OF assms(2)]) simp
  have "take 8 (drop (i * 8) (idx rs)) = put_be32 (of_nat i) @ put_be32 (u32_of ?p)"
    by (subst idx_split [OF assms(2)]) (use assms(2) in simp)
  moreover have "take 4 (drop (length (encs (take i rs))) (encs rs)) = put_be32 (u32_of (int (length (rs ! i))))"
    by (subst encs_split [OF assms(2)]) (simp add: enc_def)
  moreover have "take (length (rs ! i)) (drop (length (encs (take i rs)) + 4) (encs rs)) = rs ! i"
    by (subst encs_split [OF assms(2)]) (simp add: enc_def)
  ultimately show ?thesis
    using assms(2) pos len by (simp add: readFetched_def Let_def nat_mult_distrib nat_add_distrib)
qed

context cold_store
begin

text \<open>A read of a held record, wherever its segment is, while the cold store answers.\<close>

lemma seg_read_ok:
  assumes ok: "seg_ok cs look s w rs" and i: "i < length rs" and nf: "faults (wDisk w) = []"
    and av: "tiered s \<Longrightarrow> avail (wCold w)"
  shows "seg_read (baseOffset s + int i) (s, w) = (Inr (rs ! i), s, w)"
proof (cases "tiered s")
  case False
  then show ?thesis using seg_read_holds [OF seg_rep_holds i nf] ok by (simp add: seg_ok_def)
next
  case True
  then have c: "coldStore s = Some cs" "look (wCold w) (coldKey s) = Some (encs rs, idx rs)" "small rs"
      "nextOffset s = baseOffset s + int (length rs)" using ok by (auto simp: seg_ok_def)
  have "int_of_u32 (u32_of (int i)) = int i" using small_nth(3) [OF c(3) i] by (intro int_of_u32_of) auto
  then show ?thesis
    using True c i get_avail [OF av [OF True] c(2)] readFetched_nth [OF c(3) i]
    by (simp add: seg_read_def readTiered_def with_seg_def on_cold_def io_bind_def)
qed

lemma Read_in:
  assumes ok: "log_ok cs look l w rss" and j: "j < length (concat rss)"
    and av: "(\<exists>s \<in> set (segments l). tiered s) \<Longrightarrow> avail (wCold w)"
  shows "Read (OldestOffset l + int j) (l, w) = (Inr (concat rss ! j), l, w)"
proof -
  obtain i k where ik: "i < length rss" "k < length (rss ! i)" "j = length (concat (take i rss)) + k"
    "concat rss ! j = rss ! i ! k" using concat_nth [OF j] .
  have off: "OldestOffset l + int j = baseOffset (segments l ! i) + int k" using log_base [OF ok ik(1)] ik(3) by simp
  have "segments l ! i \<in> set (segments l)" using ik(1) log_okD(3) [OF ok] by simp
  then have "seg_read (baseOffset (segments l ! i) + int k) (segments l ! i, w) = (Inr (rss ! i ! k), segments l ! i, w)"
    using seg_read_ok [OF log_okD(8) [OF ok ik(1)] ik(2) log_okD(1) [OF ok]] av by blast
  then show ?thesis
    using findSegment_in [OF ok ik(1,2)] at_seg_same
    by (simp add: Read_def with_seg_def off ik(4))
qed

end


subsection \<open>Changing one segment\<close>

text \<open>Nothing but the files and the cold object of the segment at \<open>b\<close> has changed.\<close>

definition touch :: "('k \<Rightarrow> string \<Rightarrow> (bytes \<times> bytes) option) \<Rightarrow> string \<Rightarrow> int \<Rightarrow> 'k world \<Rightarrow> 'k world \<Rightarrow> bool" where
  "touch look dir b w w' \<longleftrightarrow> faults (wDisk w') = []
     \<and> (\<forall>p. p \<noteq> logPath dir b \<longrightarrow> p \<noteq> indexPath dir b \<longrightarrow> fs_get (wDisk w') p = fs_get (wDisk w) p)
     \<and> (\<forall>key. key \<noteq> segmentName b \<longrightarrow> look (wCold w') key = look (wCold w) key)"

lemma seg_ok_touch:
  assumes "seg_ok cs look s w rs" "touch look dir b w w'" "segmentName b \<noteq> segmentName (baseOffset s)"
  shows "seg_ok cs look s w' rs"
proof -
  have "lpath s \<noteq> logPath dir b" "lpath s \<noteq> indexPath dir b" "ipath s \<noteq> logPath dir b" "ipath s \<noteq> indexPath dir b"
    using assms(3) by auto
  then have "fs_get (wDisk w') (lpath s) = fs_get (wDisk w) (lpath s)" "fs_get (wDisk w') (ipath s) = fs_get (wDisk w) (ipath s)"
    using assms(2) unfolding touch_def by blast+
  moreover have "look (wCold w') (segmentName (baseOffset s)) = look (wCold w) (segmentName (baseOffset s))"
    using assms(2,3) unfolding touch_def by metis
  ultimately show ?thesis using assms(1) by (auto simp: seg_ok_def seg_rep_def)
qed

lemma log_others:
  assumes ok: "log_ok cs look l w rss" and t: "touch look (ldir l) (baseOffset (segments l ! i)) w w'"
    and ij: "i < length rss" "j < length rss" "i \<noteq> j"
  shows "seg_ok cs look (segments l ! j) w' (rss ! j)"
  using seg_ok_touch [OF log_okD(8) [OF ok ij(2)] t] log_base_inj [OF ok ij(1,2)] ij(3) by blast

text \<open>The log file a name stands for, after a change at \<open>b\<close>, is that of \<open>b\<close> or was there before.\<close>

lemma touch_names:
  assumes "touch look dir b w w'" "fs_get (wDisk w') (dir, n) \<noteq> None" "segment_of_name n \<noteq> None"
  shows "(dir, n) = logPath dir b \<or> fs_get (wDisk w) (dir, n) \<noteq> None"
proof -
  have "(dir, n) \<noteq> indexPath dir b" using segment_of_indexPath [of dir b] assms(3) by (metis snd_conv)
  then show ?thesis using assms(1,2) unfolding touch_def by metis
qed

lemma log_ok_update:
  assumes ok: "log_ok cs look l w rss" and i: "i < length rss"
    and t: "touch look (ldir l) (baseOffset (segments l ! i)) w w'"
    and s: "seg_ok cs look s w' rs" "baseOffset s = baseOffset (segments l ! i)" "sdir s = ldir l"
    and nx: "Suc i < length rss \<Longrightarrow> length rs = length (rss ! i)" "nextOffset s < 2 ^ 63"
    and ti: "tiered s \<Longrightarrow> Suc i < length rss \<and> fs_get (wDisk w') (lpath s) = None"
  shows "log_ok cs look (l\<lparr>segments := (segments l)[i := s]\<rparr>) w' (rss[i := rs])" (is "log_ok _ _ ?l _ ?rss")
proof -
  have len: "length rss = length (segments l)" using log_okD(3) [OF ok] .
  have ne: "segments l \<noteq> []" using log_okD(2) [OF ok] .
  have act: "active ?l = (if Suc i < length rss then active l else s)"
    using i len ne by (auto simp: active_def last_conv_nth nth_list_update)
  have hd: "OldestOffset ?l = OldestOffset l"
    using i len ne s(2) by (cases i) (auto simp: OldestOffset_def hd_conv_nth)
  have sn: "nextOffset s = baseOffset s + int (length rs)" using s(1) by (simp add: seg_ok_def)
  have "seg_ok cs look (segments ?l ! j) w' (?rss ! j) \<and> sdir (segments ?l ! j) = ldir l" if j: "j < length rss" for j
    using log_others [OF ok t i j] log_okD(9) [OF ok j] s(1,3) j len by (cases "j = i") auto
  moreover have "?rss ! j \<noteq> [] \<and> baseOffset (segments ?l ! Suc j) = nextOffset (segments ?l ! j)"
    if j: "Suc j < length rss" for j
    using log_okD(10,11) [OF ok j] nx(1) sn s(2) log_next [OF ok, of i] i j len
    by (cases "i = j"; cases "i = Suc j") auto
  moreover have "\<exists>j < length ?rss. \<not> tiered (segments ?l ! j) \<and> (ldir l, n) = lpath (segments ?l ! j)"
    if n: "fs_get (wDisk w') (ldir l, n) \<noteq> None" "segment_of_name n \<noteq> None" for n
  proof (cases "(ldir l, n) = lpath s")
    case True
    then show ?thesis using n ti i len by (intro exI [of _ i]) auto
  next
    case False
    then have "fs_get (wDisk w) (ldir l, n) \<noteq> None" using touch_names [OF t n] s(2,3) by metis
    then obtain j where j: "j < length rss" "\<not> tiered (segments l ! j)" "(ldir l, n) = lpath (segments l ! j)"
      using log_ok_clean [OF ok _ n(2)] by blast
    then have "j \<noteq> i" using False s(2,3) log_okD(9) [OF ok i] by auto
    then show ?thesis using j len by (intro exI [of _ j]) auto
  qed
  moreover have "NextOffset ?l < 2 ^ 63" "\<not> tiered (active ?l)"
    using log_okD(4,7) [OF ok] nx(2) ti by (auto simp: NextOffset_def act)
  ultimately show ?thesis
    unfolding log_ok_def hd using log_okD [OF ok] t len ne by (simp add: touch_def)
qed

lemma log_base_less_next:
  assumes ok: "log_ok cs look l w rss" and j: "j < length rss" and full: "last rss \<noteq> []"
  shows "baseOffset (segments l ! j) < NextOffset l"
proof -
  let ?n = "length rss - 1"
  have "rss ! ?n \<noteq> []" using full j by (metis last_conv_nth list.size(3) not_less_zero)
  then have "baseOffset (segments l ! ?n) < NextOffset l"
    using log_next [OF ok log_active(2) [OF ok]] log_active(1) [OF ok] by (simp add: NextOffset_def)
  moreover have "j < ?n \<or> j = ?n" using j by linarith
  ultimately show ?thesis using log_base_mono(2) [OF ok, of j ?n] log_active(2) [OF ok] by auto
qed

text \<open>A new, empty active segment.\<close>

lemma log_ok_snoc:
  assumes ok: "log_ok cs look l w rss" and full: "last rss \<noteq> []"
    and t: "touch look (ldir l) (NextOffset l) w w'"
    and s: "seg_rep s (wDisk w') []" "baseOffset s = NextOffset l" "sdir s = ldir l"
  shows "log_ok cs look (l\<lparr>segments := segments l @ [s]\<rparr>) w' (rss @ [[]])" (is "log_ok _ _ ?l _ ?rss")
proof -
  have len: "length rss = length (segments l)" using log_okD(3) [OF ok] .
  have ne: "segments l \<noteq> []" using log_okD(2) [OF ok] .
  have sn: "seg_ok cs look s w' []" "nextOffset s = NextOffset l" "\<not> tiered s"
    using s(1,2) by (auto simp: seg_ok_def seg_rep_def)
  note lt = log_base_less_next [OF ok _ full]
  have "seg_ok cs look (segments ?l ! j) w' (?rss ! j) \<and> sdir (segments ?l ! j) = ldir l" if "j < length ?rss" for j
  proof (cases "j < length rss")
    case True
    have "segmentName (NextOffset l) \<noteq> segmentName (baseOffset (segments l ! j))"
      using segmentName_inject [of "NextOffset l" "baseOffset (segments l ! j)"] lt [OF True]
        log_base_bounds [OF ok True] log_okD(7) [OF ok] by fastforce
    then show ?thesis using seg_ok_touch [OF log_okD(8) [OF ok True] t] log_okD(9) [OF ok True] True len
      by (simp add: nth_append)
  next
    case False
    then show ?thesis using that sn(1) s(3) len by (simp add: nth_append)
  qed
  moreover have "?rss ! j \<noteq> [] \<and> baseOffset (segments ?l ! Suc j) = nextOffset (segments ?l ! j)"
    if j: "Suc j < length ?rss" for j
  proof (cases "Suc j = length rss")
    case True
    then have jn: "length rss - 1 = j" "rss \<noteq> []" by auto
    then have "rss ! j = last rss" by (simp add: last_conv_nth)
    then show ?thesis using True full s(2) len log_active(1) [OF ok] jn(1) by (simp add: nth_append NextOffset_def)
  qed (use log_okD(10,11) [OF ok, of j] j len in \<open>simp add: nth_append\<close>)
  moreover have "\<exists>j < length ?rss. \<not> tiered (segments ?l ! j) \<and> (ldir l, n) = lpath (segments ?l ! j)"
    if n: "fs_get (wDisk w') (ldir l, n) \<noteq> None" "segment_of_name n \<noteq> None" for n
  proof (cases "(ldir l, n) = lpath s")
    case True
    then show ?thesis using sn(3) len by (intro exI [of _ "length rss"]) auto
  next
    case False
    then have "fs_get (wDisk w) (ldir l, n) \<noteq> None" using touch_names [OF t n] s(2,3) by metis
    then obtain j where "j < length rss" "\<not> tiered (segments l ! j)" "(ldir l, n) = lpath (segments l ! j)"
      using log_ok_clean [OF ok _ n(2)] by blast
    then show ?thesis using len by (intro exI [of _ j]) (auto simp: nth_append)
  qed
  moreover have "OldestOffset ?l = OldestOffset l" "active ?l = s" "NextOffset ?l = NextOffset l"
    using ne sn by (auto simp: OldestOffset_def active_def NextOffset_def)
  ultimately show ?thesis
    unfolding log_ok_def using log_okD [OF ok] t len sn(3) by (simp add: touch_def)
qed


subsection \<open>Appending\<close>

definition same_log :: "'k slog \<Rightarrow> 'k slog \<Rightarrow> bool" where
  "same_log l l' \<longleftrightarrow> ldir l' = ldir l \<and> maxSegmentBytes l' = maxSegmentBytes l \<and> lcold l' = lcold l
     \<and> OldestOffset l' = OldestOffset l"

lemma same_log_trans: "same_log a b \<Longrightarrow> same_log b c \<Longrightarrow> same_log a c"
  by (simp add: same_log_def)

lemma concat_last_update:
  assumes "rss \<noteq> []"
  shows "concat (rss[length rss - 1 := last rss @ [x]]) = concat rss @ [x]"
  using assms by (cases rss rule: rev_cases) auto

lemma log_ok_active:
  assumes "log_ok cs look l w rss"
  shows "seg_rep (active l) (wDisk w) (last rss)" "sdir (active l) = ldir l" "rss \<noteq> []"
proof -
  show ne: "rss \<noteq> []" using log_okD(2,3) [OF assms] by auto
  show "seg_rep (active l) (wDisk w) (last rss)" "sdir (active l) = ldir l"
    using log_okD(4) [OF assms] log_okD(8,9) [OF assms, of "length rss - 1"] log_active [OF assms] ne
    by (auto simp: seg_ok_def last_conv_nth)
qed

lemma append_active:
  assumes ok: "log_ok cs look l w rss" and sm: "small (last rss @ [payload])" and nx: "NextOffset l + 1 < 2 ^ 63"
  shows "\<exists>l' w' rss'. on_active (seg_append payload) (l, w) = (Inr (NextOffset l), l', w')
    \<and> log_ok cs look l' w' rss' \<and> concat rss' = concat rss @ [payload] \<and> same_log l l' \<and> wCold w' = wCold w"
proof -
  let ?i = "length rss - 1" and ?s = "active l"
  note act = log_ok_active [OF ok] and i = log_active [OF ok]
  obtain s' w' where run: "seg_append payload (?s, w) = (Inr (baseOffset ?s + int (length (last rss))), s', w')"
    and s': "seg_rep s' (wDisk w') (last rss @ [payload])" "faults (wDisk w') = []" "wCold w' = wCold w"
      "baseOffset s' = baseOffset ?s" "sdir s' = sdir ?s"
      "\<forall>p. p \<noteq> lpath ?s \<longrightarrow> p \<noteq> ipath ?s \<longrightarrow> fs_get (wDisk w') p = fs_get (wDisk w) p"
    using seg_append_rep [OF act(1) log_okD(1) [OF ok] sm] by blast
  let ?l = "l\<lparr>segments := (segments l)[?i := s']\<rparr>" and ?rss = "rss[?i := last rss @ [payload]]"
  have nxt: "NextOffset l = baseOffset ?s + int (length (last rss))" using act(1) by (simp add: NextOffset_def seg_rep_def)
  have "log_ok cs look ?l w' ?rss"
    by (rule log_ok_update [OF ok i(2)])
      (use s' act nx nxt i in \<open>auto simp: touch_def seg_ok_def seg_rep_def\<close>)
  moreover have "on_active (seg_append payload) (l, w) = (Inr (NextOffset l), ?l, w')"
    using run nxt i(1) log_okD(3) [OF ok] by (simp add: on_active_def with_seg_def at_seg_def)
  moreover have "OldestOffset ?l = OldestOffset l"
    using log_okD(2,3) [OF ok] s'(4) i(1) by (cases "segments l") (auto simp: OldestOffset_def active_def split: nat.splits)
  ultimately show ?thesis
    using concat_last_update [OF act(3)] s'(3) by (intro exI conjI) (assumption | simp add: same_log_def)+
qed

lemma roll_ok:
  assumes ok: "log_ok cs look l w rss" and full: "last rss \<noteq> []"
  shows "\<exists>l' w'. roll (l, w) = (Inr (), l', w') \<and> log_ok cs look l' w' (rss @ [[]]) \<and> same_log l l'
    \<and> NextOffset l' = NextOffset l \<and> wCold w' = wCold w"
proof -
  let ?b = "NextOffset l" and ?d = "wDisk w"
  have b: "0 \<le> ?b" "?b < 2 ^ 63" using log_okD(6,7) [OF ok] NextOffset_eq [OF ok] by auto
  have none: "fs_get ?d (logPath (ldir l) ?b) = None"
  proof (rule ccontr)
    assume "fs_get ?d (logPath (ldir l) ?b) \<noteq> None"
    then obtain i where i: "i < length rss" "logPath (ldir l) ?b = lpath (segments l ! i)"
      using log_ok_clean [OF ok, of "snd (logPath (ldir l) ?b)"] segment_of_logPath [OF b, of "ldir l"]
      by (auto simp: logPath_def)
    then have "?b = baseOffset (segments l ! i)"
      using segmentName_inject [OF b log_base_bounds [OF ok i(1)]] by simp
    then show False using log_base_less_next [OF ok i(1) full] by simp
  qed
  obtain s d' where s: "(openSegment (ldir l) ?b ?d :: (serr + 'a segment) \<times> disk) = (Inr s, d')"
      "seg_rep s d' []" "faults d' = []" "baseOffset s = ?b" "sdir s = ldir l"
      "\<forall>q. q \<noteq> logPath (ldir l) ?b \<longrightarrow> q \<noteq> indexPath (ldir l) ?b \<longrightarrow> fs_get d' q = fs_get ?d q"
    using openSegment_rep [OF log_okD(1) [OF ok], of "[]" "ldir l" ?b] none by (auto simp: small_def)
  let ?l = "l\<lparr>segments := segments l @ [s]\<rparr>" and ?w = "w\<lparr>wDisk := d'\<rparr>"
  have "log_ok cs look ?l ?w (rss @ [[]])"
    by (rule log_ok_snoc [OF ok full]) (use s in \<open>auto simp: touch_def\<close>)
  moreover have "roll (l, w) = (Inr (), ?l, ?w)"
    using s(1) by (simp add: roll_def with_seg_def NextOffset_def [symmetric] on_disk_def io_bind_def seg_update_def)
  moreover have "NextOffset ?l = ?b" using s(2,4) by (simp add: NextOffset_def active_def seg_rep_def)
  ultimately show ?thesis using log_okD(2) [OF ok]
    by (intro exI conjI) (assumption | simp add: same_log_def OldestOffset_def)+
qed

lemma encs_eq_Nil [simp]: "encs rs = [] \<longleftrightarrow> rs = []"
  by (cases rs) (auto simp: enc_def)

text \<open>
  Without local faults an append returns the next offset and adds the record at the end,
  in the active segment or in a new one.
\<close>

lemma Append_ok:
  assumes ok: "log_ok cs look l w rss" and len: "4 + length payload < 2 ^ 32" and nx: "NextOffset l + 1 < 2 ^ 63"
  shows "\<exists>l' w' rss'. Append payload (l, w) = (Inr (NextOffset l), l', w')
    \<and> log_ok cs look l' w' rss' \<and> concat rss' = concat rss @ [payload] \<and> same_log l l' \<and> wCold w' = wCold w"
proof (cases "segSize (active l) + (4 + int (length payload)) > maxSegmentBytes l \<and> segSize (active l) > 0")
  case True
  have "last rss \<noteq> []" using True log_ok_active(1) [OF ok] by (auto simp: seg_rep_def)
  then obtain l1 w1 where 1: "roll (l, w) = (Inr (), l1, w1)" "log_ok cs look l1 w1 (rss @ [[]])" "same_log l l1"
      "NextOffset l1 = NextOffset l" "wCold w1 = wCold w" using roll_ok [OF ok] by blast
  have "small (last (rss @ [[]]) @ [payload])" using len by (simp add: small_def)
  then obtain l' w' rss' where "on_active (seg_append payload) (l1, w1) = (Inr (NextOffset l), l', w')"
      "log_ok cs look l' w' rss'" "concat rss' = concat rss @ [payload]" "same_log l1 l'" "wCold w' = wCold w"
    using append_active [OF 1(2)] nx 1(4,5) by fastforce
  then show ?thesis using True 1(1) same_log_trans [OF 1(3)] by (auto simp: Append_def with_seg_def io_then_Inr)
next
  case False
  have "segSize (active l) = int (length (encs (last rss)))" using log_ok_active(1) [OF ok] by (simp add: seg_rep_def)
  then have "small (last rss @ [payload])"
    using False len log_okD(5) [OF ok] by (auto simp: small_def)
  moreover have "Append payload (l, w) = on_active (seg_append payload) (l, w)"
    using False by (simp only: Append_def with_seg_def Let_def fst_conv if_False)
  ultimately show ?thesis using append_active [OF ok _ nx] by simp
qed


subsection \<open>Tiering\<close>

lemma tierOut_run:
  assumes r: "seg_rep s (wDisk w) rs" and nf: "faults (wDisk w) = []"
    and put: "csPut c key (encs rs) (idx rs) (wCold w) = (pr, k')"
  shows "tierOut c key (s, w) = (case pr of
      Inl e \<Rightarrow> (Inl e, s, w\<lparr>wCold := k'\<rparr>)
    | Inr _ \<Rightarrow> (Inr (), s\<lparr>logOpen := False, indexOpen := False, tiered := True, coldKey := key, coldStore := Some c\<rparr>,
        w\<lparr>wCold := k', wDisk := fs_del (ipath s) (fs_del (lpath s) (wDisk w))\<rparr>))"
proof -
  have o: "logOpen s" "indexOpen s" "fs_get (wDisk w) (lpath s) = Some (encs rs)" "fs_get (wDisk w) (ipath s) = Some (idx rs)"
    using r by (auto simp: seg_rep_def)
  have rd: "fs_read_file (lpath s) (wDisk w) = (Inr (encs rs), wDisk w)" "fs_read_file (ipath s) (wDisk w) = (Inr (idx rs), wDisk w)"
    using o nf by simp_all
  show ?thesis
    using o nf rd put
    by (cases pr) (simp_all add: tierOut_def with_seg_def io_bind_def io_then_def on_disk_def on_cold_def
        close_log_def close_index_def seg_update_def if_open_def)
qed

context cold_store
begin

text \<open>
  Migrating one segment: on success its records are read from the cold store; after a
  failed upload the local files are still in use.
\<close>

lemma tier_one:
  assumes ok: "log_ok cs look l w rss" and i: "Suc i < length rss" and nt: "\<not> tiered (segments l ! i)"
    and run: "at_seg i (tierOut cs (segmentName (baseOffset (segments l ! i)))) (l, w) = (r, l', w')"
  shows "log_ok cs look l' w' rss" "same_log l l'" "NextOffset l' = NextOffset l"
    "segments l' = (segments l)[i := segments l' ! i]" "r = Inr () \<Longrightarrow> tiered (segments l' ! i)"
    "avail (wCold w) \<Longrightarrow> r = Inr () \<and> avail (wCold w')"
proof -
  let ?s = "segments l ! i" and ?rs = "rss ! i" and ?k = "segmentName (baseOffset (segments l ! i))"
  have il: "i < length rss" "length rss = length (segments l)" using i log_okD(3) [OF ok] by auto
  have rep: "seg_rep ?s (wDisk w) ?rs" "small ?rs" "nextOffset ?s = baseOffset ?s + int (length ?rs)" "sdir ?s = ldir l"
    using log_okD(8,9) [OF ok il(1)] nt by (auto simp: seg_ok_def)
  obtain pr k' where put: "csPut cs ?k (encs ?rs) (idx ?rs) (wCold w) = (pr, k')" by fastforce
  obtain s' where s': "tierOut cs ?k (?s, w) = (r, s', w')" "l' = l\<lparr>segments := (segments l)[i := s']\<rparr>"
    using run by (auto simp: at_seg_def split: prod.splits)
  note step = s'(1) [unfolded tierOut_run [OF rep(1) log_okD(1) [OF ok] put]]
  have same: "baseOffset s' = baseOffset ?s" "nextOffset s' = nextOffset ?s" "sdir s' = ldir l"
    using step rep(4) by (auto split: sum.splits)
  have t: "touch look (ldir l) (baseOffset ?s) w w'"
    using step rep(4) log_okD(1) [OF ok] put_other [OF put] by (auto simp: touch_def split: sum.splits)
  have sok: "seg_ok cs look s' w' ?rs"
    using step rep put_ok [of ?k "encs ?rs" "idx ?rs" "wCold w" k'] put
    by (auto simp: seg_ok_def seg_rep_def split: sum.splits)
  have nx: "nextOffset s' < 2 ^ 63"
    using log_base_bounds(2) [OF ok i] log_okD(11) [OF ok i] same(2) by simp
  have "tiered s' \<Longrightarrow> fs_get (wDisk w') (lpath s') = None"
    using step nt rep(4) by (auto split: sum.splits)
  then have "log_ok cs look l' w' (rss[i := ?rs])"
    unfolding s'(2) using i by (intro log_ok_update [OF ok il(1) t sok same(1,3) refl nx]) simp_all
  then show "log_ok cs look l' w' rss" by simp
  have "OldestOffset l' = OldestOffset l"
    using s'(2) same(1) log_okD(2) [OF ok] by (cases "segments l"; cases i) (auto simp: OldestOffset_def)
  then show "same_log l l'" using s'(2) by (simp add: same_log_def)
  have "last ((segments l)[i := s']) = last (segments l)"
    using i il log_okD(2) [OF ok] by (simp add: last_conv_nth)
  then show "NextOffset l' = NextOffset l" using s'(2) by (simp add: NextOffset_def active_def)
  show "segments l' = (segments l)[i := segments l' ! i]" using s'(2) il by simp
  show "r = Inr () \<Longrightarrow> tiered (segments l' ! i)" using s'(2) il step by (auto split: sum.splits)
  show "avail (wCold w) \<Longrightarrow> r = Inr () \<and> avail (wCold w')"
    using put_avail [of "wCold w" ?k "encs ?rs" "idx ?rs"] put step by (auto split: sum.splits)
qed

lemma tierLoop_ok:
  assumes "log_ok cs look l w rss" "\<forall>i \<in> set is. i < length rss" "tierLoop cs is n (l, w) = (r, l', w')"
  shows "log_ok cs look l' w' rss \<and> same_log l l' \<and> NextOffset l' = NextOffset l"
  using assms
proof (induction "is" arbitrary: n l w)
  case Nil
  then show ?case by (simp add: same_log_def)
next
  case (Cons i "is")
  have len: "length rss = length (segments l)" using log_okD(3) [OF Cons.prems(1)] .
  show ?case
  proof (cases "i = length (segments l) - 1 \<or> tiered (segments l ! i)")
    case True
    then show ?thesis using Cons by simp
  next
    case False
    obtain q l1 w1 where 1: "at_seg i (tierOut cs (segmentName (baseOffset (segments l ! i)))) (l, w) = (q, l1, w1)"
      by (metis prod_cases3)
    have "Suc i < length rss" using Cons.prems(2) False len by auto
    note one = tier_one [OF Cons.prems(1) this _ 1]
    show ?thesis
    proof (cases q)
      case (Inl e)
      then show ?thesis using Cons.prems(3) False 1 one(1-3) by simp
    next
      case (Inr u)
      then have "tierLoop cs is (n + 1) (l1, w1) = (r, l', w')" using Cons.prems(3) False 1 by simp
      then have "log_ok cs look l' w' rss \<and> same_log l1 l' \<and> NextOffset l' = NextOffset l1"
        using Cons.IH [OF one(1)] Cons.prems(2) False by simp
      then show ?thesis using one(2,3) False same_log_trans by (simp add: same_log_def)
    qed
  qed
qed

text \<open>Tiering moves records, it never changes what a log holds, also when it stops at an error.\<close>

lemma TierSegments_ok:
  assumes ok: "log_ok cs look l w rss" and run: "TierSegments (l, w) = (r, l', w')"
  shows "log_ok cs look l' w' rss" "OldestOffset l' = OldestOffset l" "NextOffset l' = NextOffset l"
proof -
  have "log_ok cs look l' w' rss \<and> same_log l l' \<and> NextOffset l' = NextOffset l"
  proof (cases "lcold l")
    case None
    then show ?thesis using ok run by (simp add: TierSegments_def same_log_def)
  next
    case (Some c)
    then have "c = cs" using log_okD(12) [OF ok] by blast
    then have "tierLoop cs [0..<length (segments l)] 0 (l, w) = (r, l', w')"
      using run Some by (simp add: TierSegments_def)
    from tierLoop_ok [OF ok _ this] show ?thesis using log_okD(3) [OF ok] by simp
  qed
  then show "log_ok cs look l' w' rss" "OldestOffset l' = OldestOffset l" "NextOffset l' = NextOffset l"
    by (auto simp: same_log_def)
qed

text \<open>While the store answers, every segment but the active one is migrated.\<close>

lemma tierLoop_all:
  assumes "log_ok cs look l w rss" "avail (wCold w)" "\<forall>i \<in> set is. i < length rss"
  shows "\<exists>n' l' w'. tierLoop cs is n (l, w) = ((n', None), l', w') \<and> avail (wCold w')
    \<and> length (segments l') = length (segments l) \<and> (\<forall>i \<in> set is. Suc i < length rss \<longrightarrow> tiered (segments l' ! i))
    \<and> (\<forall>i < length (segments l). tiered (segments l ! i) \<longrightarrow> tiered (segments l' ! i))"
  using assms
proof (induction "is" arbitrary: n l w)
  case (Cons i "is")
  have len: "length rss = length (segments l)" using log_okD(3) [OF Cons.prems(1)] .
  have i: "i < length rss" using Cons.prems(3) by simp
  show ?case
  proof (cases "i = length (segments l) - 1 \<or> tiered (segments l ! i)")
    case True
    then obtain n' l' w' where t: "tierLoop cs is n (l, w) = ((n', None), l', w')" "avail (wCold w')"
        "length (segments l') = length (segments l)" "\<forall>i \<in> set is. Suc i < length rss \<longrightarrow> tiered (segments l' ! i)"
        "\<forall>i < length (segments l). tiered (segments l ! i) \<longrightarrow> tiered (segments l' ! i)"
      using Cons.IH [OF Cons.prems(1,2)] Cons.prems(3) by (metis list.set_intros(2))
    have "Suc i < length rss \<longrightarrow> tiered (segments l' ! i)" using True t(5) i len by auto
    then show ?thesis using True t by simp
  next
    case False
    then have si: "Suc i < length rss" using i len by auto
    obtain q l1 w1 where 1: "at_seg i (tierOut cs (segmentName (baseOffset (segments l ! i)))) (l, w) = (q, l1, w1)"
      by (metis prod_cases3)
    have nt: "\<not> tiered (segments l ! i)" using False by simp
    note one = tier_one [OF Cons.prems(1) si nt 1]
    have q: "q = Inr ()" "avail (wCold w1)" using one(6) Cons.prems(2) by auto
    have sl: "length (segments l1) = length (segments l)" using one(4) by (metis length_list_update)
    have keep: "tiered (segments l1 ! j)" if "j < length (segments l)" "tiered (segments l ! j) \<or> j = i" for j
      using that one(4) one(5) [OF q(1)] by (metis nth_list_update_neq)
    obtain n' l' w' where t: "tierLoop cs is (n + 1) (l1, w1) = ((n', None), l', w')" "avail (wCold w')"
        "length (segments l') = length (segments l1)" "\<forall>i \<in> set is. Suc i < length rss \<longrightarrow> tiered (segments l' ! i)"
        "\<forall>i < length (segments l1). tiered (segments l1 ! i) \<longrightarrow> tiered (segments l' ! i)"
      using Cons.IH [OF one(1) q(2)] Cons.prems(3) by (metis list.set_intros(2))
    then show ?thesis using False 1 q(1) sl keep len i by auto
  qed
qed simp

end


subsection \<open>Compaction\<close>

lemma Compact_unfold:
  assumes "n = nat (int (length (segments l)) - max 1 keep)"
  shows "Compact keep (l, w) = (if n = 0 then (Inr (), l, w)
    else io_then (each_seg seg_remove [0..<n]) (seg_update (\<lambda>l. l\<lparr>segments := drop n (segments l)\<rparr>)) (l, w))"
proof -
  have "max 1 keep = (if keep < 1 then 1 else keep)" by simp
  then show ?thesis using assms by (simp only: Compact_def with_seg_def Let_def fst_conv) simp
qed

lemma log_ok_tl:
  assumes ok: "log_ok cs look (l\<lparr>segments := s # ss\<rparr>) w (rs # rss)" and ne: "ss \<noteq> []"
    and t: "touch look (ldir l) (baseOffset s) w w'" and gone: "fs_get (wDisk w') (lpath s) = None"
  shows "log_ok cs look (l\<lparr>segments := ss\<rparr>) w' rss"
proof -
  let ?l = "l\<lparr>segments := s # ss\<rparr>" and ?l' = "l\<lparr>segments := ss\<rparr>"
  have len: "length rss = length ss" using log_okD(3) [OF ok] by simp
  have act: "active ?l' = active ?l" "NextOffset ?l' = NextOffset ?l" using ne by (auto simp: active_def NextOffset_def)
  have sd: "sdir s = ldir l" using log_okD(9) [OF ok, of 0] by simp
  have "0 \<le> OldestOffset ?l'"
    using log_base_bounds(1) [OF ok, of 1] ne len by (cases ss) (auto simp: OldestOffset_def)
  moreover have "seg_ok cs look (ss ! j) w' (rss ! j) \<and> sdir (ss ! j) = ldir l" if "j < length rss" for j
    using log_others [OF ok, of 0 w' "Suc j"] log_okD(9) [OF ok, of "Suc j"] t that by simp
  moreover have "rss ! j \<noteq> [] \<and> baseOffset (ss ! Suc j) = nextOffset (ss ! j)" if "Suc j < length rss" for j
    using log_okD(10,11) [OF ok, of "Suc j"] that by simp
  moreover have "\<exists>j < length rss. \<not> tiered (ss ! j) \<and> (ldir l, n) = lpath (ss ! j)"
    if n: "fs_get (wDisk w') (ldir l, n) \<noteq> None" "segment_of_name n \<noteq> None" for n
  proof -
    have ns: "(ldir l, n) \<noteq> lpath s" using gone n(1) by metis
    then have "fs_get (wDisk w) (ldir l, n) \<noteq> None" using touch_names [OF t n] sd by metis
    then obtain j where "j < Suc (length rss)" "\<not> tiered ((s # ss) ! j)" "(ldir l, n) = lpath ((s # ss) ! j)"
      using log_ok_clean [OF ok, of n] n(2) by auto
    then show ?thesis using ns by (cases j) auto
  qed
  ultimately show ?thesis
    unfolding log_ok_def using log_okD [OF ok] t ne len act by (simp add: touch_def)
qed

lemma tiered_gone:
  assumes ok: "log_ok cs look l w rss" and i: "i < length rss" "tiered (segments l ! i)"
  shows "fs_get (wDisk w) (lpath (segments l ! i)) = None"
proof (rule ccontr)
  assume h: "fs_get (wDisk w) (lpath (segments l ! i)) \<noteq> None"
  have p: "lpath (segments l ! i) = (ldir l, snd (lpath (segments l ! i)))"
    using log_okD(9) [OF ok i(1)] by (simp add: logPath_def)
  have "segment_of_name (snd (lpath (segments l ! i))) \<noteq> None"
    using segment_of_logPath [OF log_base_bounds [OF ok i(1)]] by simp
  then obtain j where j: "j < length rss" "\<not> tiered (segments l ! j)" "lpath (segments l ! i) = lpath (segments l ! j)"
    using log_ok_clean [OF ok, of "snd (lpath (segments l ! i))"] h p by metis
  then have "i = j" using log_base_inj [OF ok i(1) j(1)] by simp
  then show False using i j by simp
qed

lemma seg_remove_local:
  assumes r: "seg_rep s (wDisk w) rs" and nf: "faults (wDisk w) = []"
  shows "seg_remove (s, w) = (Inr (), s\<lparr>logOpen := False, indexOpen := False\<rparr>,
    w\<lparr>wDisk := fs_del (ipath s) (fs_del (lpath s) (wDisk w))\<rparr>)"
proof -
  have o: "logOpen s" "indexOpen s" "\<not> tiered s" "fs_get (wDisk w) (lpath s) = Some (encs rs)"
      "fs_get (wDisk w) (ipath s) = Some (idx rs)" using r by (auto simp: seg_rep_def)
  have "fs_remove (lpath s) (wDisk w) = (Inr (), fs_del (lpath s) (wDisk w))"
      "fs_remove (ipath s) (fs_del (lpath s) (wDisk w)) = (Inr (), fs_del (ipath s) (fs_del (lpath s) (wDisk w)))"
    using o nf by simp_all
  then show ?thesis
    using o nf by (simp add: seg_remove_def ignore_err_def seg_close_def with_seg_def io_bind_def io_then_def
        on_disk_def close_log_def close_index_def seg_update_def if_open_def)
qed

context cold_store
begin

lemma seg_remove_touch:
  assumes ok: "log_ok cs look l w rss" and i: "i < length rss"
    and run: "seg_remove (segments l ! i, w) = (r, s', w')"
  shows "touch look (ldir l) (baseOffset (segments l ! i)) w w'" "fs_get (wDisk w') (lpath (segments l ! i)) = None"
    "\<not> tiered (segments l ! i) \<Longrightarrow> r = Inr ()"
proof -
  let ?s = "segments l ! i"
  note sd = log_okD(9) [OF ok i] and nf = log_okD(1) [OF ok]
  have "touch look (ldir l) (baseOffset ?s) w w' \<and> fs_get (wDisk w') (lpath ?s) = None \<and> (\<not> tiered ?s \<longrightarrow> r = Inr ())"
  proof (cases "tiered ?s")
    case True
    then have c: "coldStore ?s = Some cs" "coldKey ?s = segmentName (baseOffset ?s)"
      using log_okD(8) [OF ok i] by (auto simp: seg_ok_def)
    obtain k' where k': "csDelete cs (segmentName (baseOffset ?s)) (wCold w) = (r, k')" "w' = w\<lparr>wCold := k'\<rparr>"
      using run True c by (auto simp: seg_remove_def ignore_err_def seg_close_def with_seg_def io_then_def
          io_bind_def on_cold_def split: prod.splits)
    then show ?thesis using True nf del_other [OF k'(1)] tiered_gone [OF ok i True] by (simp add: touch_def)
  next
    case False
    then have "seg_rep ?s (wDisk w) (rss ! i)" using log_okD(8) [OF ok i] by (simp add: seg_ok_def)
    from seg_remove_local [OF this nf] show ?thesis using run nf sd by (auto simp: touch_def)
  qed
  then show "touch look (ldir l) (baseOffset (segments l ! i)) w w'" "fs_get (wDisk w') (lpath (segments l ! i)) = None"
    "\<not> tiered (segments l ! i) \<Longrightarrow> r = Inr ()" by auto
qed

lemma compact_loop:
  assumes "log_ok cs look (l\<lparr>segments := drop i (segments l)\<rparr>) w (drop i rss)" "i + n < length (segments l)"
    "each_seg seg_remove [i..<i + n] (l, w) = (Inr (), l', w')"
  shows "log_ok cs look (l\<lparr>segments := drop (i + n) (segments l)\<rparr>) w' (drop (i + n) rss)
    \<and> drop (i + n) (segments l') = drop (i + n) (segments l) \<and> l' = l\<lparr>segments := segments l'\<rparr>"
  using assms
proof (induction n arbitrary: i l w)
  case (Suc n)
  have ds: "drop i (segments l) = segments l ! i # drop (Suc i) (segments l)"
    using Suc.prems(2) by (simp add: Cons_nth_drop_Suc)
  have "i < length rss" using log_okD(3) [OF Suc.prems(1)] Suc.prems(2) by simp
  then have dr: "drop i rss = rss ! i # drop (Suc i) rss" by (simp add: Cons_nth_drop_Suc)
  obtain s' l1 w1 where 1: "seg_remove (segments l ! i, w) = (Inr (), s', w1)"
      "l1 = l\<lparr>segments := (segments l)[i := s']\<rparr>" "each_seg seg_remove [Suc i..<Suc i + n] (l1, w1) = (Inr (), l', w')"
  proof -
    have "[i..<i + Suc n] = i # [Suc i..<Suc i + n]" by (simp add: upt_conv_Cons del: upt_Suc)
    then have "io_then (at_seg i seg_remove) (each_seg seg_remove [Suc i..<Suc i + n]) (l, w) = (Inr (), l', w')"
      using Suc.prems(3) by (simp only: each_seg.simps)
    then obtain st1 where st1: "at_seg i seg_remove (l, w) = (Inr (), st1)"
        "each_seg seg_remove [Suc i..<Suc i + n] st1 = (Inr (), l', w')" by (rule io_then_cases) auto
    obtain r s' w1 where sr: "seg_remove (segments l ! i, w) = (r, s', w1)" by (metis prod_cases3)
    then have "r = Inr ()" "st1 = (l\<lparr>segments := (segments l)[i := s']\<rparr>, w1)"
      using st1(1) by (simp_all add: at_seg_def)
    then show ?thesis using that [of s' w1 "l\<lparr>segments := (segments l)[i := s']\<rparr>"] sr st1(2) by blast
  qed
  have rem: "touch look (ldir l) (baseOffset (segments l ! i)) w w1" "fs_get (wDisk w1) (lpath (segments l ! i)) = None"
    using seg_remove_touch(1,2) [OF Suc.prems(1) [unfolded ds dr], of 0 "Inr ()" s' w1] 1(1) by simp_all
  have "log_ok cs look (l\<lparr>segments := drop (Suc i) (segments l)\<rparr>) w1 (drop (Suc i) rss)"
    by (rule log_ok_tl [OF Suc.prems(1) [unfolded ds dr] _ rem]) (use Suc.prems(2) in simp)
  then have "log_ok cs look (l1\<lparr>segments := drop (Suc i) (segments l1)\<rparr>) w1 (drop (Suc i) rss)"
    using 1(2) by simp
  from Suc.IH [OF this _ 1(3)] show ?case
    using 1(2) Suc.prems(2) by simp
qed simp

text \<open>
  Compaction that succeeds drops whole segments from the front, keeps the last
  \<open>keepSegments\<close> and always the active one.
\<close>

lemma Compact_ok:
  assumes ok: "log_ok cs look l w rss" and run: "Compact keep (l, w) = (Inr (), l', w')"
  defines "n \<equiv> nat (int (length (segments l)) - max 1 keep)"
  shows "log_ok cs look l' w' (drop n rss)" "segments l' = drop n (segments l)" "n < length (segments l)"
    "NextOffset l' = NextOffset l"
proof -
  have n: "n < length (segments l)" using log_okD(2) [OF ok] unfolding n_def by (cases "segments l") auto
  have "log_ok cs look l' w' (drop n rss) \<and> segments l' = drop n (segments l)"
  proof (cases "n = 0")
    case True
    then show ?thesis using ok run unfolding Compact_unfold [OF n_def [THEN meta_eq_to_obj_eq]] by simp
  next
    case False
    obtain l1 where l1: "each_seg seg_remove [0..<n] (l, w) = (Inr (), l1, w')"
        "l' = l1\<lparr>segments := drop n (segments l1)\<rparr>"
      using run False unfolding Compact_unfold [OF n_def [THEN meta_eq_to_obj_eq]]
      by (auto simp: seg_update_def elim!: io_then_cases)
    have c: "log_ok cs look (l\<lparr>segments := drop n (segments l)\<rparr>) w' (drop n rss)
        \<and> drop n (segments l1) = drop n (segments l) \<and> l1 = l\<lparr>segments := segments l1\<rparr>"
      using compact_loop [where i = 0 and n = n and l = l and w = w and rss = rss] ok n l1(1) by simp
    then have "l' = l\<lparr>segments := drop n (segments l)\<rparr>" unfolding l1(2) by (cases l; cases l1) simp
    then show ?thesis using c by simp
  qed
  then show "log_ok cs look l' w' (drop n rss)" "segments l' = drop n (segments l)" by auto
  then show "NextOffset l' = NextOffset l" "n < length (segments l)" using n by (auto simp: NextOffset_def active_def)
qed

end


subsection \<open>Opening and recovery\<close>

definition file_of :: "disk \<Rightarrow> path \<Rightarrow> bytes" where
  "file_of d p = (case fs_get d p of None \<Rightarrow> [] | Some bs \<Rightarrow> bs)"

text \<open>Opening consecutive segments recovers the records of every log file.\<close>

lemma openAll_ok:
  assumes "faults d = []" "length rss = length bs" "\<forall>i < length bs. small (rss ! i)"
    "\<forall>i < length bs. encs (rss ! i) = file_of d (logPath dir (bs ! i))" "distinct (map segmentName bs)"
  shows "\<exists>ss d'. (openAll dir bs d :: (serr + 'k segment list) \<times> disk) = (Inr ss, d') \<and> length ss = length bs
    \<and> faults d' = [] \<and> (\<forall>i < length bs. seg_rep (ss ! i) d' (rss ! i) \<and> baseOffset (ss ! i) = bs ! i \<and> sdir (ss ! i) = dir)
    \<and> (\<forall>q. (\<forall>b \<in> set bs. q \<noteq> logPath dir b \<and> q \<noteq> indexPath dir b) \<longrightarrow> fs_get d' q = fs_get d q)"
  using assms
proof (induction bs arbitrary: rss d)
  case (Cons b bs)
  obtain rs rss' where rss: "rss = rs # rss'" using Cons.prems(2) by (cases rss) auto
  have hd: "encs rs = (case fs_get d (logPath dir b) of None \<Rightarrow> [] | Some bs \<Rightarrow> bs)" "small rs"
    using Cons.prems(3,4) rss by (auto simp: file_of_def)
  obtain s d1 where s: "(openSegment dir b d :: (serr + 'k segment) \<times> disk) = (Inr s, d1)" "seg_rep s d1 rs"
      "faults d1 = []" "baseOffset s = b" "sdir s = dir"
      "\<forall>q. q \<noteq> logPath dir b \<longrightarrow> q \<noteq> indexPath dir b \<longrightarrow> fs_get d1 q = fs_get d q"
    using openSegment_rep [OF Cons.prems(1) hd(2,1)] by blast
  have "segmentName b \<notin> segmentName ` set bs" using Cons.prems(5) by simp
  then have ne: "segmentName b \<noteq> segmentName b'" if "b' \<in> set bs" for b' using that by blast
  have "encs (rss' ! i) = file_of d1 (logPath dir (bs ! i))" if "i < length bs" for i
  proof -
    have "fs_get d1 (logPath dir (bs ! i)) = fs_get d (logPath dir (bs ! i))"
      using s(6) [rule_format, of "logPath dir (bs ! i)"] ne [OF nth_mem [OF that]] by simp
    then show ?thesis using Cons.prems(4) [rule_format, of "Suc i"] rss that by (simp add: file_of_def)
  qed
  moreover have "\<forall>i < length bs. small (rss' ! i)" using Cons.prems(3) rss by auto
  ultimately obtain ss d' where ss: "(openAll dir bs d1 :: (serr + 'k segment list) \<times> disk) = (Inr ss, d')"
      "length ss = length bs" "faults d' = []"
      "\<forall>i < length bs. seg_rep (ss ! i) d' (rss' ! i) \<and> baseOffset (ss ! i) = bs ! i \<and> sdir (ss ! i) = dir"
      "\<forall>q. (\<forall>b \<in> set bs. q \<noteq> logPath dir b \<and> q \<noteq> indexPath dir b) \<longrightarrow> fs_get d' q = fs_get d1 q"
    using Cons.IH [OF s(3), of rss'] Cons.prems(2,5) rss by auto
  have "fs_get d' (lpath s) = fs_get d1 (lpath s)" "fs_get d' (ipath s) = fs_get d1 (ipath s)"
    using ss(5) [rule_format, of "lpath s"] ss(5) [rule_format, of "ipath s"] s(4,5) ne by simp_all
  then have "seg_rep s d' rs" using s(2) by (simp add: seg_rep_def)
  then have "seg_rep ((s # ss) ! i) d' (rss ! i) \<and> baseOffset ((s # ss) ! i) = (b # bs) ! i \<and> sdir ((s # ss) ! i) = dir"
    if "i < length (b # bs)" for i using ss(4) s(4,5) rss that by (cases i) auto
  moreover have "fs_get d' q = fs_get d q" if "\<forall>b \<in> set (b # bs). q \<noteq> logPath dir b \<and> q \<noteq> indexPath dir b" for q
    using ss(5) [rule_format, of q] s(6) [rule_format, of q] that by simp
  moreover have "(openAll dir (b # bs) d :: (serr + 'k segment list) \<times> disk) = (Inr (s # ss), d')"
    using s(1) ss(1) by (simp add: io_bind_Inr)
  ultimately show ?case using ss(2,3) by (intro exI [of _ "s # ss"] exI [of _ d']) auto
qed simp

lemma in_map_filter: "b \<in> set (List.map_filter f xs) \<longleftrightarrow> (\<exists>x \<in> set xs. f x = Some b)"
  by (induction xs) (auto simp: map_filter_simps split: option.splits)

lemma discoverSegments_eq:
  assumes nf: "faults d = []" and so: "sorted bs" "distinct bs"
    and set: "\<And>b. b \<in> set bs \<longleftrightarrow> (\<exists>n. fs_get d (dir, n) \<noteq> None \<and> segment_of_name n = Some b)"
  shows "discoverSegments dir d = (Inr bs, d)"
proof -
  let ?names = "map (\<lambda>x. snd (fst x)) (filter (\<lambda>x. fst (fst x) = dir) (files d))"
  have "set (List.map_filter segment_of_name ?names) = set bs"
  proof (rule set_eqI)
    fix b
    have "b \<in> set (List.map_filter segment_of_name ?names) \<longleftrightarrow> (\<exists>n \<in> set ?names. segment_of_name n = Some b)"
      by (rule in_map_filter)
    then show "b \<in> set (List.map_filter segment_of_name ?names) \<longleftrightarrow> b \<in> set bs"
      unfolding fs_names set by blast
  qed
  then have "sort (remdups (List.map_filter segment_of_name ?names)) = bs"
    using so by (intro sorted_distinct_set_unique) auto
  then show ?thesis using nf by (simp add: discoverSegments_def fs_read_dir_def io_bind_def io_then_def)
qed

text \<open>A freshly opened log of local segments.\<close>

lemma opened_ok:
  assumes seg: "\<forall>i < length rss. seg_rep (ss ! i) d (rss ! i) \<and> sdir (ss ! i) = dir"
    and len: "length ss = length rss" "rss \<noteq> []" and nf: "faults d = []" and mx: "mb < 2 ^ 32"
    and bs: "0 \<le> baseOffset (hd ss)" "nextOffset (last ss) < 2 ^ 63"
    and con: "\<forall>i. Suc i < length rss \<longrightarrow> rss ! i \<noteq> [] \<and> baseOffset (ss ! Suc i) = nextOffset (ss ! i)"
    and clean: "\<forall>n. fs_get d (dir, n) \<noteq> None \<longrightarrow> segment_of_name n \<noteq> None \<longrightarrow> (\<exists>i < length rss. (dir, n) = lpath (ss ! i))"
  shows "log_ok cs look \<lparr>ldir = dir, maxSegmentBytes = mb, segments = ss, lcold = None\<rparr> \<lparr>wDisk = d, wCold = k\<rparr> rss"
proof -
  have loc: "\<not> tiered (ss ! i)" if "i < length rss" for i using seg that by (simp add: seg_rep_def)
  have "\<not> tiered (last ss)" using loc [of "length rss - 1"] len by (cases "ss = []") (auto simp: last_conv_nth)
  moreover have "seg_ok cs look (ss ! i) \<lparr>wDisk = d, wCold = k\<rparr> (rss ! i)" if "i < length rss" for i
    using seg that by (auto simp: seg_ok_def seg_rep_def)
  moreover have "\<forall>n. fs_get d (dir, n) \<noteq> None \<longrightarrow> segment_of_name n \<noteq> None \<longrightarrow>
      (\<exists>i < length rss. \<not> tiered (ss ! i) \<and> (dir, n) = lpath (ss ! i))"
    using clean loc by blast
  ultimately show ?thesis
    unfolding log_ok_def using assms(1-8) by (auto simp: active_def NextOffset_def OldestOffset_def)
qed

definition eff_max :: "int \<Rightarrow> int" where
  "eff_max mb = (if mb \<le> 0 then defaultMaxSegmentBytes else mb)"

lemma Open_run:
  assumes "faults d = []" "discoverSegments dir d = (Inr found, d)"
    "(openAll dir (if found = [] then [0] else found) d :: (serr + 'k segment list) \<times> disk) = (Inr ss, d')"
  shows "(Open dir mb d :: (serr + 'k slog) \<times> disk)
    = (Inr \<lparr>ldir = dir, maxSegmentBytes = eff_max mb, segments = ss, lcold = None\<rparr>, d')"
  using assms by (simp add: Open_def Let_def eff_max_def io_then_def io_bind_def)

text \<open>A directory without segments becomes an empty log.\<close>

lemma Open_fresh:
  assumes nf: "faults d = []" and none: "\<forall>n. fs_get d (dir, n) \<noteq> None \<longrightarrow> segment_of_name n = None" and mx: "mb < 2 ^ 32"
  shows "\<exists>l d'. (Open dir mb d :: (serr + 'k slog) \<times> disk) = (Inr l, d')
    \<and> log_ok cs look l \<lparr>wDisk = d', wCold = k\<rparr> [[]] \<and> OldestOffset l = 0 \<and> ldir l = dir \<and> lcold l = None"
proof -
  have dis: "discoverSegments dir d = (Inr [], d)" using none by (intro discoverSegments_eq [OF nf]) auto
  have "fs_get d (logPath dir 0) = None"
    using none segment_of_logPath [of 0 dir] by (auto simp: logPath_def)
  then obtain s d' where s: "(openSegment dir 0 d :: (serr + 'k segment) \<times> disk) = (Inr s, d')" "seg_rep s d' []"
      "faults d' = []" "baseOffset s = 0" "sdir s = dir"
      "\<forall>q. q \<noteq> logPath dir 0 \<longrightarrow> q \<noteq> indexPath dir 0 \<longrightarrow> fs_get d' q = fs_get d q"
    using openSegment_rep [OF nf, of "[]" dir 0] by (auto simp: small_def)
  have clean: "\<exists>i < length [[]]. (dir, n) = lpath ([s] ! i)"
    if "fs_get d' (dir, n) \<noteq> None" "segment_of_name n \<noteq> None" for n
  proof -
    have "(dir, n) \<noteq> indexPath dir 0" using that(2) segment_of_indexPath by (metis snd_conv)
    then have "(dir, n) = logPath dir 0" using s(6) none that by metis
    then show ?thesis using s(4,5) by simp
  qed
  have "log_ok cs look \<lparr>ldir = dir, maxSegmentBytes = eff_max mb, segments = [s], lcold = None\<rparr> \<lparr>wDisk = d', wCold = k\<rparr> [[]]"
    using s(2-5) mx clean by (intro opened_ok) (simp_all add: eff_max_def defaultMaxSegmentBytes_def seg_rep_def)
  moreover have "(openAll dir (if [] = [] then [0] else []) d :: (serr + 'k segment list) \<times> disk) = (Inr [s], d')"
    using s(1) by (simp add: io_bind_Inr)
  ultimately show ?thesis
    using Open_run [OF nf dis, where ss = "[s]"] s(4) by (simp add: OldestOffset_def)
qed


text \<open>
  Reopening the directory of a log. A log of local segments is recovered with all its
  records; segments that were tiered, the first \<open>m\<close>, are not found again.
\<close>

lemma log_names:
  assumes ok: "log_ok cs look l w rss" and pre: "\<forall>i < length rss. tiered (segments l ! i) \<longleftrightarrow> i < m"
  shows "sorted (map baseOffset (drop m (segments l)))" "distinct (map baseOffset (drop m (segments l)))"
    "b \<in> set (map baseOffset (drop m (segments l))) \<longleftrightarrow> (\<exists>n. fs_get (wDisk w) (ldir l, n) \<noteq> None \<and> segment_of_name n = Some b)"
proof -
  let ?bs = "map baseOffset (drop m (segments l))"
  have len: "length rss = length (segments l)" using log_okD(3) [OF ok] .
  have "\<forall>i < length ?bs. \<forall>j < length ?bs. i < j \<longrightarrow> ?bs ! i < ?bs ! j"
    using log_base_mono(2) [OF ok] len by simp
  then have "sorted_wrt (<) ?bs" by (simp add: sorted_wrt_iff_nth_less)
  then show "sorted ?bs" "distinct ?bs" using strict_sorted_iff by blast+
  show "b \<in> set ?bs \<longleftrightarrow> (\<exists>n. fs_get (wDisk w) (ldir l, n) \<noteq> None \<and> segment_of_name n = Some b)"
  proof
    assume "b \<in> set ?bs"
    then obtain j where "j < length ?bs" "b = ?bs ! j" by (metis in_set_conv_nth)
    then obtain i where i: "i < length rss" "m \<le> i" "b = baseOffset (segments l ! i)"
      using len by (intro that [of "m + j"]) auto
    have "fs_get (wDisk w) (lpath (segments l ! i)) \<noteq> None"
      using log_okD(8) [OF ok i(1)] pre i by (auto simp: seg_ok_def seg_rep_def)
    then have "fs_get (wDisk w) (ldir l, snd (logPath (ldir l) b)) \<noteq> None"
      using log_okD(9) [OF ok i(1)] i(3) by (simp add: logPath_def)
    moreover have "segment_of_name (snd (logPath (ldir l) b)) = Some b"
      using segment_of_logPath [OF log_base_bounds [OF ok i(1)]] i(3) by simp
    ultimately show "\<exists>n. fs_get (wDisk w) (ldir l, n) \<noteq> None \<and> segment_of_name n = Some b" by blast
  next
    assume "\<exists>n. fs_get (wDisk w) (ldir l, n) \<noteq> None \<and> segment_of_name n = Some b"
    then obtain n where n: "fs_get (wDisk w) (ldir l, n) \<noteq> None" "segment_of_name n = Some b" by blast
    then obtain i where i: "i < length rss" "\<not> tiered (segments l ! i)" "(ldir l, n) = lpath (segments l ! i)"
      using log_ok_clean [OF ok n(1)] by auto
    have "b = baseOffset (segments l ! i)"
      using segment_of_logPath [OF log_base_bounds [OF ok i(1)]] n(2) i(3) by (metis option.inject snd_conv)
    moreover have "m \<le> i" using pre i by auto
    ultimately have "b = ?bs ! (i - m)" "i - m < length ?bs" using i(1) len by auto
    then show "b \<in> set ?bs" by (metis nth_mem)
  qed
qed

lemma log_discover:
  assumes ok: "log_ok cs look l w rss" and pre: "\<forall>i < length rss. tiered (segments l ! i) \<longleftrightarrow> i < m"
    and nf: "faults d = []"
    and same: "\<And>n. segment_of_name n \<noteq> None \<Longrightarrow> fs_get d (ldir l, n) = None \<longleftrightarrow> fs_get (wDisk w) (ldir l, n) = None"
  shows "discoverSegments (ldir l) d = (Inr (map baseOffset (drop m (segments l))), d)"
proof (rule discoverSegments_eq [OF nf log_names(1,2) [OF ok pre]])
  fix b
  have "fs_get d (ldir l, n) \<noteq> None \<and> segment_of_name n = Some b \<longleftrightarrow>
      fs_get (wDisk w) (ldir l, n) \<noteq> None \<and> segment_of_name n = Some b" for n
    using same [of n] by (cases "segment_of_name n") auto
  then show "b \<in> set (map baseOffset (drop m (segments l))) \<longleftrightarrow> (\<exists>n. fs_get d (ldir l, n) \<noteq> None \<and> segment_of_name n = Some b)"
    unfolding log_names(3) [OF ok pre] by blast
qed

lemma reopen_scan:
  assumes ok: "log_ok cs look l (w :: 'k world) rss" and pre: "\<forall>i < length rss. tiered (segments l ! i) \<longleftrightarrow> i < m"
  defines "bs \<equiv> map baseOffset (drop m (segments l))"
  obtains ss d' where "(openAll (ldir l) bs (wDisk w) :: (serr + 'k segment list) \<times> disk) = (Inr ss, d')"
    "length ss = length bs" "faults d' = []"
    "\<And>i. i < length bs \<Longrightarrow> seg_rep (ss ! i) d' (drop m rss ! i) \<and> baseOffset (ss ! i) = bs ! i \<and> sdir (ss ! i) = ldir l"
    "\<And>q. (\<forall>b \<in> set bs. q \<noteq> logPath (ldir l) b \<and> q \<noteq> indexPath (ldir l) b) \<Longrightarrow> fs_get d' q = fs_get (wDisk w) q"
proof -
  let ?d = "wDisk w" and ?rss = "drop m rss"
  have len: "length rss = length (segments l)" using log_okD(3) [OF ok] .
  have "segmentName (bs ! i) \<noteq> segmentName (bs ! j)" if "i < length bs" "j < length bs" "i \<noteq> j" for i j
    using log_base_inj [OF ok, of "m + i" "m + j"] that len by (auto simp: bs_def less_diff_conv add.commute)
  then have "distinct (map segmentName bs)" by (simp add: distinct_conv_nth)
  moreover have "encs (?rss ! i) = file_of ?d (logPath (ldir l) (bs ! i)) \<and> small (?rss ! i)" if "i < length bs" for i
    using log_okD(8,9) [OF ok, of "m + i"] pre [rule_format, of "m + i"] that len
    by (simp add: file_of_def seg_ok_def seg_rep_def bs_def)
  ultimately have "\<exists>ss d'. (openAll (ldir l) bs ?d :: (serr + 'k segment list) \<times> disk) = (Inr ss, d') \<and> length ss = length bs
    \<and> faults d' = [] \<and> (\<forall>i < length bs. seg_rep (ss ! i) d' (?rss ! i) \<and> baseOffset (ss ! i) = bs ! i \<and> sdir (ss ! i) = ldir l)
    \<and> (\<forall>q. (\<forall>b \<in> set bs. q \<noteq> logPath (ldir l) b \<and> q \<noteq> indexPath (ldir l) b) \<longrightarrow> fs_get d' q = fs_get ?d q)"
    using openAll_ok [OF log_okD(1) [OF ok], of ?rss bs "ldir l"] len by (simp add: bs_def)
  then show ?thesis using that by blast
qed

lemma reopen_clean:
  assumes ok: "log_ok cs look l w rss" and pre: "\<forall>i < length rss. tiered (segments l ! i) \<longleftrightarrow> i < m"
    and q: "(\<forall>b \<in> set (map baseOffset (drop m (segments l))). (ldir l, n) \<noteq> logPath (ldir l) b \<and> (ldir l, n) \<noteq> indexPath (ldir l) b)
      \<Longrightarrow> fs_get d' (ldir l, n) = fs_get (wDisk w) (ldir l, n)"
    and n: "fs_get d' (ldir l, n) \<noteq> None" "segment_of_name n \<noteq> None"
  shows "\<exists>i < length rss - m. (ldir l, n) = logPath (ldir l) (map baseOffset (drop m (segments l)) ! i)"
proof -
  let ?bs = "map baseOffset (drop m (segments l))"
  have len: "length ?bs = length rss - m" "length rss = length (segments l)" using log_okD(3) [OF ok] by simp_all
  have "(ldir l, n) \<noteq> indexPath (ldir l) b" for b using n(2) segment_of_indexPath by (metis snd_conv)
  then consider b where "b \<in> set ?bs" "(ldir l, n) = logPath (ldir l) b" | "fs_get (wDisk w) (ldir l, n) \<noteq> None"
    using q n(1) by metis
  then show ?thesis
  proof cases
    case 1
    then show ?thesis using len by (metis in_set_conv_nth)
  next
    case 2
    then obtain j where j: "j < length rss" "\<not> tiered (segments l ! j)" "(ldir l, n) = lpath (segments l ! j)"
      using log_ok_clean [OF ok _ n(2)] by blast
    then have "m \<le> j" using pre by auto
    then show ?thesis using j len(2) log_okD(9) [OF ok j(1)] by (intro exI [of _ "j - m"]) simp
  qed
qed

lemma Reopen_ok:
  assumes ok: "log_ok cs look l (w :: 'k world) rss" and mb: "mb < 2 ^ 32"
    and pre: "\<forall>i < length rss. tiered (segments l ! i) \<longleftrightarrow> i < m"
  shows "\<exists>l' d'. (Open (ldir l) mb (wDisk w) :: (serr + 'k slog) \<times> disk) = (Inr l', d')
    \<and> log_ok cs look l' \<lparr>wDisk = d', wCold = wCold w\<rparr> (drop m rss)
    \<and> OldestOffset l' = baseOffset (segments l ! m) \<and> NextOffset l' = NextOffset l \<and> m < length rss"
proof -
  let ?bs = "map baseOffset (drop m (segments l))" and ?rss = "drop m rss"
  have len: "length rss = length (segments l)" using log_okD(3) [OF ok] .
  have m: "m < length rss" using pre log_active [OF ok] log_okD(4) [OF ok] by fastforce
  obtain ss d' where ss: "(openAll (ldir l) ?bs (wDisk w) :: (serr + 'k segment list) \<times> disk) = (Inr ss, d')"
      "length ss = length ?bs" "faults d' = []"
      "\<And>i. i < length ?bs \<Longrightarrow> seg_rep (ss ! i) d' (?rss ! i) \<and> baseOffset (ss ! i) = ?bs ! i \<and> sdir (ss ! i) = ldir l"
      "\<And>q. (\<forall>b \<in> set ?bs. q \<noteq> logPath (ldir l) b \<and> q \<noteq> indexPath (ldir l) b) \<Longrightarrow> fs_get d' q = fs_get (wDisk w) q"
    by (rule reopen_scan [OF ok pre]) blast
  let ?l = "\<lparr>ldir = ldir l, maxSegmentBytes = eff_max mb, segments = ss, lcold = None\<rparr> :: 'k slog"
  have same: "baseOffset (ss ! i) = baseOffset (segments l ! (m + i))"
      "nextOffset (ss ! i) = nextOffset (segments l ! (m + i))" if "m + i < length rss" for i
    using ss(4) [of i] that len log_next [OF ok that] by (auto simp: seg_rep_def)
  have ne: "ss \<noteq> []" using ss(2) m len by auto
  have ends: "OldestOffset ?l = baseOffset (segments l ! m)" "NextOffset ?l = NextOffset l"
    using same(1) [of 0] same(2) [of "length rss - 1 - m"] m ne ss(2) len log_active(1) [OF ok]
    by (auto simp: OldestOffset_def NextOffset_def hd_conv_nth active_def last_conv_nth)
  have clean: "\<exists>i < length ?rss. (ldir l, n) = lpath (ss ! i)"
    if "fs_get d' (ldir l, n) \<noteq> None" "segment_of_name n \<noteq> None" for n
    using reopen_clean [OF ok pre ss(5) that] ss(4) len by auto
  have con: "\<forall>i. Suc i < length ?rss \<longrightarrow> ?rss ! i \<noteq> [] \<and> baseOffset (ss ! Suc i) = nextOffset (ss ! i)"
    using log_okD(10,11) [OF ok] same by simp
  have "0 \<le> baseOffset (hd ss)" "nextOffset (last ss) < 2 ^ 63"
    using ends log_base_bounds(1) [OF ok m] log_okD(7) [OF ok] by (simp_all add: OldestOffset_def NextOffset_def active_def)
  moreover have "\<forall>i < length ?rss. seg_rep (ss ! i) d' (?rss ! i) \<and> sdir (ss ! i) = ldir l" using ss(4) len by simp
  moreover have "eff_max mb < 2 ^ 32" using mb by (simp add: eff_max_def defaultMaxSegmentBytes_def)
  ultimately have "log_ok cs look ?l \<lparr>wDisk = d', wCold = wCold w\<rparr> ?rss"
    using ss(2,3) con clean m len by (intro opened_ok) simp_all
  moreover have "(Open (ldir l) mb (wDisk w) :: (serr + 'k slog) \<times> disk) = (Inr ?l, d')"
    using Open_run [OF log_okD(1) [OF ok] log_discover [OF ok pre log_okD(1) [OF ok] refl], where ss = ss] ss(1) m len by simp
  ultimately show ?thesis using ends m by blast
qed


subsection \<open>Input and output errors\<close>

text \<open>A computation that changes no file but those of a set.\<close>

definition only :: "path set \<Rightarrow> (disk, 'a) io \<Rightarrow> bool" where
  "only ps m \<longleftrightarrow> (\<forall>d q. q \<notin> ps \<longrightarrow> fs_get (snd (m d)) q = fs_get d q)"

named_theorems only_intros \<open>which files a computation may change\<close>

lemma onlyI: "(\<And>d q r d'. q \<notin> ps \<Longrightarrow> m d = (r, d') \<Longrightarrow> fs_get d' q = fs_get d q) \<Longrightarrow> only ps m"
  unfolding only_def by (metis prod.collapse)

lemma onlyD: "only ps m \<Longrightarrow> m d = (r, d') \<Longrightarrow> q \<notin> ps \<Longrightarrow> fs_get d' q = fs_get d q"
  unfolding only_def by (metis snd_conv)

lemma only_bind [only_intros]:
  assumes "only ps m" "\<And>x. only ps (f x)"
  shows "only ps (io_bind m f)"
proof (rule onlyI)
  fix d q r d' assume q: "q \<notin> ps" and run: "io_bind m f d = (r, d')"
  from run show "fs_get d' q = fs_get d q"
    by (rule io_bind_cases) (use onlyD [OF assms(1) _ q] onlyD [OF assms(2) _ q] in auto)
qed

lemma only_then [only_intros]: "only ps m \<Longrightarrow> only ps k \<Longrightarrow> only ps (io_then m k)"
  unfolding io_then_def by (rule only_bind)

lemma only_prims [only_intros]: "only ps (io_ret x)" "only ps (io_err e)" "only ps fs_call"
  by (auto intro!: onlyI dest: fs_call_get)

lemma only_files [only_intros]:
  "p \<in> ps \<Longrightarrow> only ps (fs_create p)" "p \<in> ps \<Longrightarrow> only ps (fs_truncate p)" "p \<in> ps \<Longrightarrow> only ps (fs_append p bs)"
  by (auto simp: only_def fs_create_def fs_truncate_def fs_append_def fs_call_def io_then_def io_bind_def pop_fault_def
      split: option.splits list.splits prod.splits sum.splits)

lemma rebuildLoop_get:
  assumes "q \<noteq> ip" "rebuildLoop ip lg fp pos lenBuf rel d = (r, d')"
  shows "fs_get d' q = fs_get d q"
  using assms
proof (induction ip lg fp pos lenBuf rel d rule: rebuildLoop.induct)
  case (1 ip lg fp pos lenBuf rel d)
  obtain f d1 where p: "pop_fault d = (f, d1)" by (cases "pop_fault d")
  obtain r2 d2 where a: "appendIndexEntry ip rel (u32_of pos) d1 = (r2, d2)"
    by (cases "appendIndexEntry ip rel (u32_of pos) d1")
  obtain r3 d3 where c: "fs_call d2 = (r3, d3)" by (cases "fs_call d2")
  have g: "fs_get d1 q = fs_get d q" "fs_get d2 q = fs_get d q" "fs_get d3 q = fs_get d q"
    using pop_fault_get [OF p] fs_call_get [OF c] 1(2)
      onlyD [OF only_files(3) [of ip "{ip}"] a [unfolded appendIndexEntry_def], of q] by auto
  show ?case
  proof (cases "f = None \<and> take 4 (drop fp lg) \<noteq> [] \<and> r2 = Inr () \<and> r3 = Inr ()")
    case True
    then show ?thesis
      using 1(1) [OF p [symmetric] _ refl _ refl refl a [symmetric] _ c [symmetric], of "()" "()"] 1(2,3) g p a c
      by (subst (asm) (2) rebuildLoop.simps) (simp add: Let_def)
  next
    case False
    then show ?thesis using 1(3) p a c g
      by (subst (asm) rebuildLoop.simps) (auto simp: Let_def split: option.splits sum.splits if_splits)
  qed
qed

lemma rebuildLoop_only [only_intros]: "ip \<in> ps \<Longrightarrow> only ps (rebuildLoop ip lg fp pos lenBuf rel)"
  by (rule onlyI) (metis rebuildLoop_get)


lemma only_file [only_intros]:
  assumes "\<And>lg. only ps (m lg)"
  shows "only ps (\<lambda>d. case fs_get d p of None \<Rightarrow> (Inl e, d) | Some lg \<Rightarrow> m lg d)"
  using assms by (intro onlyI) (auto dest: onlyD split: option.splits)

lemma openSegment_only: "only {logPath dir b, indexPath dir b} (openSegment dir b)"
  unfolding openSegment_def rebuildIndex_def
  by (intro only_intros) (auto intro!: only_intros split: prod.splits)

lemma rebuildLoop_empty: "rebuildLoop ip [] fp pos buf rel d = (r, d') \<Longrightarrow> r = Inr (pos, rel)"
  by (subst (asm) rebuildLoop.simps) (auto split: prod.splits option.splits)

lemma openSegment_empty:
  assumes "openSegment dir b d = (Inr s, d')" "file_of d (logPath dir b) = []"
  shows "baseOffset s = b" "nextOffset s = b" "segSize s = 0" "sdir s = dir" "\<not> tiered s" "logOpen s" "indexOpen s"
    "file_of d' (logPath dir b) = []"
proof -
  let ?l = "logPath dir b" and ?i = "indexPath dir b"
  have tr: "fs_get d2 ?l = fs_get d1 ?l" if "fs_truncate ?i d1 = (q, d2)" for q d1 d2
    using onlyD [OF only_files(2) [of ?i "{?i}"] that, of ?l] by simp
  have cr: "fs_get d1 ?l = Some []" if "fs_create ?l d = (Inr (), d1)" for d1
    using that assms(2)
    by (auto simp: fs_create_def file_of_def dest!: fs_call_get elim!: io_then_cases split: if_splits option.splits)
  have re: "pos = 0 \<and> rel = 0 \<and> fs_get d2 ?l = fs_get d1 ?l" if "rebuildLoop ?i [] 0 0 buf 0 d1 = (Inr (pos, rel), d2)"
    for buf d1 pos rel d2
    using rebuildLoop_empty [OF that] rebuildLoop_get [OF _ that, of ?l] by simp
  have "baseOffset s = b \<and> nextOffset s = b \<and> segSize s = 0 \<and> sdir s = dir \<and> \<not> tiered s \<and> logOpen s \<and> indexOpen s
      \<and> fs_get d' ?l = Some []"
    using assms(1) unfolding openSegment_def rebuildIndex_def
    by (auto elim!: io_then_cases io_bind_cases dest!: tr cr re fs_call_get simp: int_of_u32_def split: option.splits)
  then show "baseOffset s = b" "nextOffset s = b" "segSize s = 0" "sdir s = dir" "\<not> tiered s" "logOpen s" "indexOpen s"
    "file_of d' (logPath dir b) = []" by (auto simp: file_of_def)
qed


text \<open>
  The shape that every log keeps whatever calls fail: consecutive offsets, and no bytes
  in the log files of later segments. A record is held at an offset when its segment's
  files have it and its index entry at their place.
\<close>

definition log_order :: "'k slog \<Rightarrow> bool" where
  "log_order l \<longleftrightarrow> segments l \<noteq> [] \<and> 0 \<le> baseOffset (hd (segments l))
     \<and> (\<forall>i < length (segments l). sdir (segments l ! i) = ldir l \<and> baseOffset (segments l ! i) \<le> nextOffset (segments l ! i))
     \<and> (\<forall>i. Suc i < length (segments l) \<longrightarrow> baseOffset (segments l ! i) < nextOffset (segments l ! i)
           \<and> baseOffset (segments l ! Suc i) = nextOffset (segments l ! i))"

definition log_shape :: "'k slog \<Rightarrow> disk \<Rightarrow> bool" where
  "log_shape l d \<longleftrightarrow> log_order l
     \<and> (0 < segSize (active l) \<longrightarrow> baseOffset (active l) < nextOffset (active l))
     \<and> (\<forall>b. baseOffset (active l) < b \<longrightarrow> b < 2 ^ 63 \<longrightarrow> file_of d (logPath (ldir l) b) = [])"

definition held :: "'k slog \<Rightarrow> disk \<Rightarrow> int \<Rightarrow> bytes \<Rightarrow> bool" where
  "held l d offset p \<longleftrightarrow> (\<exists>i < length (segments l). \<exists>rs k. seg_holds (segments l ! i) d rs \<and> k < length rs
     \<and> offset = baseOffset (segments l ! i) + int k \<and> p = rs ! k)"

lemma order_mono:
  assumes sh: "log_order l" and ij: "i < j" "j < length (segments l)"
  shows "nextOffset (segments l ! i) \<le> baseOffset (segments l ! j)" "baseOffset (segments l ! i) < baseOffset (segments l ! j)"
proof -
  have "nextOffset (segments l ! i) \<le> baseOffset (segments l ! j) \<and> baseOffset (segments l ! i) < baseOffset (segments l ! j)"
    using ij
  proof (induction j)
    case (Suc j)
    have "baseOffset (segments l ! j) < nextOffset (segments l ! j)" "baseOffset (segments l ! Suc j) = nextOffset (segments l ! j)"
      using sh Suc.prems(2) unfolding log_order_def by blast+
    then show ?case using Suc by (cases "i = j") auto
  qed simp
  then show "nextOffset (segments l ! i) \<le> baseOffset (segments l ! j)" "baseOffset (segments l ! i) < baseOffset (segments l ! j)"
    by auto
qed

lemma shape_order: "log_shape l d \<Longrightarrow> log_order l"
  by (simp add: log_shape_def)

lemmas shape_mono = order_mono [OF shape_order]

lemma shape_active:
  assumes "log_shape l d"
  shows "active l = segments l ! (length (segments l) - 1)" "length (segments l) - 1 < length (segments l)"
  using assms by (simp_all add: log_shape_def log_order_def active_def last_conv_nth)

lemma shape_seg:
  assumes "log_shape l d" "i < length (segments l)"
  shows "0 \<le> baseOffset (segments l ! i)" "baseOffset (segments l ! i) \<le> NextOffset l" "sdir (segments l ! i) = ldir l"
    "i < length (segments l) - 1 \<Longrightarrow> baseOffset (segments l ! i) < baseOffset (active l)"
proof -
  let ?n = "length (segments l) - 1"
  show "sdir (segments l ! i) = ldir l" using assms by (simp add: log_shape_def log_order_def)
  have "segments l \<noteq> []" "0 \<le> baseOffset (hd (segments l))" using assms(1) unfolding log_shape_def log_order_def by blast+
  then have "0 \<le> baseOffset (segments l ! 0)" by (simp add: hd_conv_nth)
  then show "0 \<le> baseOffset (segments l ! i)"
    using shape_mono(2) [OF assms(1), of 0 i] assms(2) by (cases "i = 0") auto
  show lt: "i < ?n \<Longrightarrow> baseOffset (segments l ! i) < baseOffset (active l)"
    using shape_mono(2) [OF assms(1), of i ?n] shape_active [OF assms(1)] by simp
  have "baseOffset (active l) \<le> NextOffset l"
    using assms(1) shape_active [OF assms(1)] unfolding log_shape_def log_order_def NextOffset_def by metis
  moreover have "i < ?n \<or> i = ?n" using assms(2) by linarith
  ultimately show "baseOffset (segments l ! i) \<le> NextOffset l"
    using lt shape_active(1) [OF assms(1)] by auto
qed

lemma held_Read:
  assumes sh: "log_order l" and h: "held l (wDisk w) offset p" and nf: "faults (wDisk w) = []"
  shows "Read offset (l, w) = (Inr p, l, w)"
proof -
  obtain i rs k where i: "i < length (segments l)" "seg_holds (segments l ! i) (wDisk w) rs" "k < length rs"
      "offset = baseOffset (segments l ! i) + int k" "p = rs ! k" using h unfolding held_def by blast
  have nx: "offset < nextOffset (segments l ! i)" using i by (simp add: seg_holds_def)
  have "sort_Search (length (segments l)) (\<lambda>m. baseOffset (segments l ! m) > offset) = Suc i"
  proof (rule sort_Search_eqI)
    fix m assume m: "m < Suc i"
    then show "\<not> offset < baseOffset (segments l ! m)"
      using order_mono(2) [OF sh, of m i] i(1,4) by (cases "m = i") auto
  next
    fix m n assume mn: "m \<le> n" "n < length (segments l)" "offset < baseOffset (segments l ! m)"
    then show "offset < baseOffset (segments l ! n)"
      using order_mono(2) [OF sh, of m n] by (cases "m = n") auto
  next
    assume "Suc i < length (segments l)"
    then show "offset < baseOffset (segments l ! Suc i)" using order_mono(1) [OF sh, of i "Suc i"] nx by simp
  qed (use i in simp)
  then have "findSegment l offset = Some i" using i nx by (simp add: findSegment_def Let_def nat_add_distrib)
  moreover have "seg_read offset (segments l ! i, w) = (Inr p, segments l ! i, w)"
    using seg_read_holds [OF i(2,3) nf] i(4,5) by simp
  ultimately show ?thesis using at_seg_same by (simp add: Read_def with_seg_def)
qed

lemma seg_append_frame:
  assumes "seg_append payload (s, w) = (r, s', w')"
  shows "s' = s \<or> s' = s\<lparr>segSize := segSize s + (4 + int (length payload)), nextOffset := nextOffset s + 1\<rparr>"
    "q \<noteq> lpath s \<Longrightarrow> q \<noteq> ipath s \<Longrightarrow> fs_get (wDisk w') q = fs_get (wDisk w) q"
proof -
  have st: "fst st' = fst st \<and> (\<forall>q. q \<noteq> p \<longrightarrow> fs_get (wDisk (snd st')) q = fs_get (wDisk (snd st)) q)"
    if "if_open b (on_disk (fs_append p bs)) st = (r, st')" for b p bs st r st'
  proof -
    have "fs_get (wDisk (snd st')) q = fs_get (wDisk (snd st)) q" if "q \<noteq> p" for q
      using \<open>if_open b _ st = _\<close> that onlyD [OF only_files(3) [of p "{p}"], where q = q]
      by (cases st) (auto simp: if_open_def on_disk_def split: if_splits prod.splits)
    then show ?thesis using open_disk_seg [OF that] by blast
  qed
  show "s' = s \<or> s' = s\<lparr>segSize := segSize s + (4 + int (length payload)), nextOffset := nextOffset s + 1\<rparr>"
    using assms unfolding seg_append_def with_seg_def appendIndexEntry_def
    by (auto elim!: io_then_cases dest!: st simp: seg_update_def)
  show "q \<noteq> lpath s \<Longrightarrow> q \<noteq> ipath s \<Longrightarrow> fs_get (wDisk w') q = fs_get (wDisk w) q"
    using assms unfolding seg_append_def with_seg_def appendIndexEntry_def
    by (cases q) (auto elim!: io_then_cases dest!: st simp: seg_update_def)
qed


lemma held_frame:
  assumes "held l d offset p"
    "\<And>i. i < length (segments l) \<Longrightarrow> fs_get d' (lpath (segments l ! i)) = fs_get d (lpath (segments l ! i))
       \<and> fs_get d' (ipath (segments l ! i)) = fs_get d (ipath (segments l ! i))"
  shows "held l d' offset p"
  using assms unfolding held_def seg_holds_def by metis

lemma shape_update_active:
  assumes sh: "log_shape l d" and s: "baseOffset s = baseOffset (active l)" "sdir s = ldir l"
      "nextOffset (active l) \<le> nextOffset s" "0 < segSize s \<longrightarrow> baseOffset s < nextOffset s"
    and f: "\<And>b. baseOffset (active l) < b \<Longrightarrow> b < 2 ^ 63 \<Longrightarrow> file_of d' (logPath (ldir l) b) = []"
  shows "log_shape (l\<lparr>segments := (segments l)[length (segments l) - 1 := s]\<rparr>) d'" (is "log_shape ?l d'")
proof -
  let ?n = "length (segments l) - 1"
  note act = shape_active [OF sh]
  have nth: "segments ?l ! i = (if i = ?n then s else segments l ! i)" if "i < length (segments l)" for i
    using that by simp
  have ne: "segments l \<noteq> []" using act(2) by auto
  have a: "active ?l = s" using ne by (simp add: active_def last_list_update)
  have bs: "baseOffset (segments ?l ! i) = baseOffset (segments l ! i)" "nextOffset (segments l ! i) \<le> nextOffset (segments ?l ! i)"
      "sdir (segments ?l ! i) = ldir l" if "i < length (segments l)" for i
    using nth [OF that] s act(1) shape_seg(3) [OF sh that] by auto
  have "\<forall>i < length (segments l). sdir (segments ?l ! i) = ldir l \<and> baseOffset (segments ?l ! i) \<le> nextOffset (segments ?l ! i)"
  proof (intro allI impI)
    fix i assume i: "i < length (segments l)"
    then have "baseOffset (segments l ! i) \<le> nextOffset (segments l ! i)" using sh by (simp add: log_shape_def log_order_def)
    then show "sdir (segments ?l ! i) = ldir l \<and> baseOffset (segments ?l ! i) \<le> nextOffset (segments ?l ! i)"
      using bs(1) [OF i] bs(2) [OF i] bs(3) [OF i] by linarith
  qed
  moreover have "\<forall>i. Suc i < length (segments l) \<longrightarrow> baseOffset (segments ?l ! i) < nextOffset (segments ?l ! i)
      \<and> baseOffset (segments ?l ! Suc i) = nextOffset (segments ?l ! i)"
  proof (intro allI impI)
    fix i assume i: "Suc i < length (segments l)"
    then have "segments ?l ! i = segments l ! i" using nth [of i] by auto
    then show "baseOffset (segments ?l ! i) < nextOffset (segments ?l ! i) \<and> baseOffset (segments ?l ! Suc i) = nextOffset (segments ?l ! i)"
      using bs(1) [OF i] sh i unfolding log_shape_def log_order_def by simp
  qed
  moreover have "0 \<le> baseOffset (hd (segments ?l))"
    using bs(1) [of 0] shape_seg(1) [OF sh, of 0] ne by (simp add: hd_conv_nth)
  moreover have "segments ?l \<noteq> []" "length (segments ?l) = length (segments l)" using ne by simp_all
  moreover have "\<forall>b. baseOffset s < b \<longrightarrow> b < 2 ^ 63 \<longrightarrow> file_of d' (logPath (ldir l) b) = []" using f s(1) by simp
  ultimately show ?thesis unfolding log_shape_def log_order_def a using s(4) by simp
qed

text \<open>One append on the active segment, whatever fails.\<close>

lemma append_active_any:
  assumes sh: "log_shape l (wDisk w)" and nx: "NextOffset l < 2 ^ 63"
    and run: "on_active (seg_append payload) (l, w) = (r, l', w')"
  shows "log_shape l' (wDisk w')" "held l (wDisk w) offset p \<Longrightarrow> held l' (wDisk w') offset p"
    "NextOffset l' \<le> NextOffset l + 1"
proof -
  let ?n = "length (segments l) - 1"
  note act = shape_active [OF sh]
  obtain s' where s': "seg_append payload (active l, w) = (r, s', w')" "l' = l\<lparr>segments := (segments l)[?n := s']\<rparr>"
    using run act by (auto simp: on_active_def with_seg_def at_seg_def split: prod.splits)
  note fr = seg_append_frame [OF s'(1)]
  have base: "baseOffset s' = baseOffset (active l)" "sdir s' = sdir (active l)"
    "nextOffset (active l) \<le> nextOffset s'" "nextOffset s' \<le> nextOffset (active l) + 1"
    "0 < segSize s' \<longrightarrow> 0 < segSize (active l) \<or> nextOffset s' = nextOffset (active l) + 1" using fr(1) by auto
  have sd: "sdir (active l) = ldir l" using shape_seg(3) [OF sh act(2)] act(1) by simp
  have act': "active l' = s'" using s'(2) act(2) by (cases "segments l = []") (auto simp: active_def last_list_update)
  show "NextOffset l' \<le> NextOffset l + 1" using act' base(4) by (simp add: NextOffset_def)
  have nth: "segments l' ! i = (if i = ?n then s' else segments l ! i)" if "i < length (segments l)" for i
    using s'(2) that by simp
  have "file_of (wDisk w') (logPath (ldir l) b) = []" if "baseOffset (active l) < b" "b < 2 ^ 63" for b
  proof -
    have "segmentName b \<noteq> segmentName (baseOffset (active l))"
      using segmentName_inject [of b "baseOffset (active l)"] shape_seg(1) [OF sh act(2)] act(1) that by force
    then have "fs_get (wDisk w') (logPath (ldir l) b) = fs_get (wDisk w) (logPath (ldir l) b)"
      using fr(2) [of "logPath (ldir l) b"] by simp
    then show ?thesis using sh that by (simp add: log_shape_def log_order_def file_of_def)
  qed
  moreover have "0 < segSize s' \<longrightarrow> baseOffset s' < nextOffset s'"
    using base shape_seg(2) [OF sh act(2)] act(1) sh by (auto simp: log_shape_def log_order_def NextOffset_def)
  ultimately show "log_shape l' (wDisk w')"
    unfolding s'(2) using base sd by (intro shape_update_active [OF sh]) simp_all
  show "held l' (wDisk w') offset p" if h: "held l (wDisk w) offset p"
  proof -
    obtain i rs k where i: "i < length (segments l)" "seg_holds (segments l ! i) (wDisk w) rs" "k < length rs"
        "offset = baseOffset (segments l ! i) + int k" "p = rs ! k" using h unfolding held_def by blast
    have "seg_holds (segments l' ! i) (wDisk w') rs \<and> baseOffset (segments l' ! i) = baseOffset (segments l ! i)"
    proof (cases "i = ?n")
      case True
      then show ?thesis using seg_append_keeps [OF _ s'(1)] i(2) act nth [OF i(1)] base(1) by simp
    next
      case False
      then have lt: "baseOffset (segments l ! i) < baseOffset (active l)" using shape_seg(4) [OF sh i(1)] i(1) by simp
      have "baseOffset (active l) < 2 ^ 63" using shape_seg(2) [OF sh act(2)] act(1) nx by simp
      then have "segmentName (baseOffset (segments l ! i)) \<noteq> segmentName (baseOffset (active l))"
        using segmentName_inject [of "baseOffset (segments l ! i)" "baseOffset (active l)"] lt shape_seg(1) [OF sh i(1)] by force
      then have "fs_get (wDisk w') (lpath (segments l ! i)) = fs_get (wDisk w) (lpath (segments l ! i))"
          "fs_get (wDisk w') (ipath (segments l ! i)) = fs_get (wDisk w) (ipath (segments l ! i))"
        using fr(2) [of "lpath (segments l ! i)"] fr(2) [of "ipath (segments l ! i)"] by simp_all
      then show ?thesis using i(2) nth [OF i(1)] False by (simp add: seg_holds_def)
    qed
    moreover have "length (segments l') = length (segments l)" using s'(2) by simp
    ultimately show ?thesis unfolding held_def using i by metis
  qed
qed


lemma openSegment_log:
  assumes "openSegment dir b d = (r, d')"
  shows "file_of d' (logPath dir b) = file_of d (logPath dir b)"
proof -
  have cr: "file_of d1 (logPath dir b) = file_of d (logPath dir b)" if "fs_create (logPath dir b) d = (q, d1)" for q d1
    using that by (auto simp: fs_create_def file_of_def dest!: fs_call_get elim!: io_then_cases split: if_splits)
  have rest: "only {indexPath dir b} (io_then (fs_truncate (indexPath dir b)) (rebuildIndex s))"
    if "ipath s = indexPath dir b" for s :: "'a segment"
    unfolding rebuildIndex_def that by (intro only_intros) (auto intro!: only_intros split: prod.splits)
  from assms show ?thesis unfolding openSegment_def
  proof (rule io_then_cases)
    fix d1
    assume 1: "fs_create (logPath dir b) d = (Inr (), d1)"
      "io_then (fs_truncate (indexPath dir b)) (rebuildIndex \<lparr>baseOffset = b, nextOffset = b, segSize = 0, sdir = dir,
          logOpen = True, indexOpen = True, tiered = False, coldKey = [], coldStore = None\<rparr>) d1 = (r, d')"
    then show ?thesis using cr [OF 1(1)] onlyD [OF rest 1(2), of "logPath dir b"] by (simp add: file_of_def)
  qed (use cr in auto)
qed

lemma shape_snoc:
  assumes sh: "log_shape l d" and ne: "baseOffset (active l) < NextOffset l"
    and s: "baseOffset s = NextOffset l" "nextOffset s = NextOffset l" "segSize s = 0" "sdir s = ldir l"
    and f: "\<And>b. baseOffset (active l) < b \<Longrightarrow> b < 2 ^ 63 \<Longrightarrow> file_of d' (logPath (ldir l) b) = []"
  shows "log_shape (l\<lparr>segments := segments l @ [s]\<rparr>) d'" (is "log_shape ?l d'")
proof -
  note act = shape_active [OF sh]
  have nth: "segments ?l ! i = (if i = length (segments l) then s else segments l ! i)" if "i < length (segments ?l)" for i
    using that by (auto simp: nth_append)
  have "baseOffset (segments ?l ! i) < nextOffset (segments ?l ! i) \<and> baseOffset (segments ?l ! Suc i) = nextOffset (segments ?l ! i)"
    if i: "Suc i < length (segments ?l)" for i
  proof (cases "Suc i = length (segments l)")
    case True
    then have "segments l ! i = active l" using act(1) by (metis diff_Suc_1)
    then show ?thesis using True ne s(1) by (simp add: nth_append NextOffset_def)
  next
    case False
    then have "Suc i < length (segments l)" using i by simp
    then show ?thesis using sh by (simp add: nth_append log_shape_def log_order_def)
  qed
  moreover have "sdir (segments ?l ! i) = ldir l \<and> baseOffset (segments ?l ! i) \<le> nextOffset (segments ?l ! i)"
    if i: "i < length (segments ?l)" for i
    using nth [OF i] s sh i unfolding log_shape_def log_order_def by auto
  moreover have "active ?l = s" "hd (segments ?l) = hd (segments l)" using act(2) by (auto simp: active_def hd_append)
  moreover have "file_of d' (logPath (ldir l) b) = []" if "NextOffset l < b" "b < 2 ^ 63" for b
    using f [of b] that ne by simp
  ultimately show ?thesis using sh s(1,3) unfolding log_shape_def log_order_def by simp
qed

lemma shape_fresh_name:
  assumes sh: "log_shape l d" and nx: "NextOffset l < 2 ^ 63" and ne: "baseOffset (active l) < NextOffset l"
    and i: "i < length (segments l)"
  shows "segmentName (baseOffset (segments l ! i)) \<noteq> segmentName (NextOffset l)"
proof -
  have "i < length (segments l) - 1 \<or> i = length (segments l) - 1" using i by linarith
  then have "baseOffset (segments l ! i) < NextOffset l"
    using shape_seg(4) [OF sh i] shape_active(1) [OF sh] ne by auto
  then show ?thesis
    using segmentName_inject [of "baseOffset (segments l ! i)" "NextOffset l"] shape_seg(1) [OF sh i] nx by force
qed

lemma roll_any:
  assumes sh: "log_shape l (wDisk w)" and nx: "NextOffset l < 2 ^ 63" and ne: "baseOffset (active l) < NextOffset l"
    and run: "roll (l, w) = (r, l', w')"
  shows "log_shape l' (wDisk w')" "held l (wDisk w) offset p \<Longrightarrow> held l' (wDisk w') offset p" "NextOffset l' = NextOffset l"
proof -
  let ?b = "NextOffset l" and ?d = "wDisk w" and ?d' = "wDisk w'"
  have b: "0 \<le> ?b" using shape_seg(1,2) [OF sh shape_active(2) [OF sh]] by linarith
  obtain q where o: "openSegment (ldir l) ?b ?d = (q, ?d')"
      "case q of Inl e \<Rightarrow> l' = l | Inr s \<Rightarrow> l' = l\<lparr>segments := segments l @ [s]\<rparr>"
    using run by (auto simp: roll_def with_seg_def NextOffset_def on_disk_def seg_update_def elim!: io_bind_cases split: prod.splits)
  have fr: "fs_get ?d' x = fs_get ?d x" if "x \<noteq> logPath (ldir l) ?b" "x \<noteq> indexPath (ldir l) ?b" for x
    using onlyD [OF openSegment_only o(1)] that by simp
  have files: "file_of ?d' (logPath (ldir l) c) = []" if "baseOffset (active l) < c" "c < 2 ^ 63" for c
  proof -
    have e: "file_of ?d (logPath (ldir l) c) = []" using sh that unfolding log_shape_def log_order_def by blast
    show ?thesis
    proof (cases "logPath (ldir l) c = logPath (ldir l) ?b")
      case True
      show ?thesis using openSegment_log [OF o(1)] e unfolding True by simp
    next
      case False
      then show ?thesis using fr [of "logPath (ldir l) c"] e by (simp add: file_of_def)
    qed
  qed
  have "fs_get ?d' (lpath (segments l ! i)) = fs_get ?d (lpath (segments l ! i))
      \<and> fs_get ?d' (ipath (segments l ! i)) = fs_get ?d (ipath (segments l ! i))" if "i < length (segments l)" for i
    using shape_fresh_name [OF sh nx ne that] fr [of "lpath (segments l ! i)"] fr [of "ipath (segments l ! i)"] by simp
  then have h: "held l ?d' offset p" if "held l ?d offset p" using held_frame [OF that] by blast
  have "log_shape l' ?d' \<and> (held l ?d offset p \<longrightarrow> held l' ?d' offset p) \<and> NextOffset l' = NextOffset l"
  proof (cases q)
    case (Inl e)
    then have "l' = l" using o(2) by simp
    then show ?thesis using sh h files unfolding log_shape_def log_order_def by blast
  next
    case (Inr s)
    then have l': "l' = l\<lparr>segments := segments l @ [s]\<rparr>" using o(2) by simp
    have "file_of ?d (logPath (ldir l) ?b) = []" using sh ne nx unfolding log_shape_def log_order_def by blast
    note s = openSegment_empty [OF o(1) [unfolded Inr] this]
    have "NextOffset l' = NextOffset l" using l' s(2) by (simp add: NextOffset_def active_def)
    moreover have "log_shape l' ?d'" using shape_snoc [OF sh ne s(1-4) files] l' by simp
    moreover have "held l ?d offset p \<longrightarrow> held l' ?d' offset p"
      using h l' unfolding held_def by (auto simp: nth_append)
    ultimately show ?thesis by blast
  qed
  then show "log_shape l' ?d'" "held l ?d offset p \<Longrightarrow> held l' ?d' offset p" "NextOffset l' = NextOffset l" by auto
qed


text \<open>Appends one after the other, the caller going on after errors.\<close>

fun appends :: "bytes list \<Rightarrow> 'k slog \<times> 'k world \<Rightarrow> (serr + int) list \<times> 'k slog \<times> 'k world" where
  "appends [] st = ([], st)"
| "appends (p # ps) st = (case Append p st of (r, st1) \<Rightarrow> case appends ps st1 of (rs, st2) \<Rightarrow> (r # rs, st2))"

lemma Append_any:
  assumes sh: "log_shape l (wDisk w)" and nx: "NextOffset l < 2 ^ 63" and run: "Append payload (l, w) = (r, l', w')"
  shows "log_shape l' (wDisk w')" "held l (wDisk w) offset p \<Longrightarrow> held l' (wDisk w') offset p"
    "NextOffset l' \<le> NextOffset l + 1"
proof -
  have "log_shape l' (wDisk w') \<and> (held l (wDisk w) offset p \<longrightarrow> held l' (wDisk w') offset p) \<and> NextOffset l' \<le> NextOffset l + 1"
  proof (cases "segSize (active l) + (4 + int (length payload)) > maxSegmentBytes l \<and> segSize (active l) > 0")
    case True
    then have ne: "baseOffset (active l) < NextOffset l" using sh by (simp add: log_shape_def log_order_def NextOffset_def)
    have "io_then roll (on_active (seg_append payload)) (l, w) = (r, l', w')"
      using run True by (simp add: Append_def with_seg_def)
    then show ?thesis
    proof (rule io_then_cases)
      fix e assume "roll (l, w) = (Inl e, l', w')"
      from roll_any [OF sh nx ne this] show ?thesis by auto
    next
      fix st1 assume 1: "roll (l, w) = (Inr (), st1)" "on_active (seg_append payload) st1 = (r, l', w')"
      obtain l1 w1 where st1: "st1 = (l1, w1)" by (cases st1)
      note r = roll_any [OF sh nx ne 1(1) [unfolded st1]]
      have "NextOffset l1 < 2 ^ 63" using r(3) nx by simp
      from append_active_any [OF r(1) this 1(2) [unfolded st1]] show ?thesis using r(2,3) by auto
    qed
  next
    case False
    then have "on_active (seg_append payload) (l, w) = (r, l', w')"
      using run by (simp only: Append_def with_seg_def Let_def fst_conv if_False)
    from append_active_any [OF sh nx this] show ?thesis by blast
  qed
  then show "log_shape l' (wDisk w')" "held l (wDisk w) offset p \<Longrightarrow> held l' (wDisk w') offset p"
    "NextOffset l' \<le> NextOffset l + 1" by auto
qed

lemma appends_any:
  assumes "log_shape l (wDisk w)" "NextOffset l + int (length ps) \<le> 2 ^ 63" "appends ps (l, w) = (rs, l', w')"
  shows "log_shape l' (wDisk w') \<and> (held l (wDisk w) offset p \<longrightarrow> held l' (wDisk w') offset p)"
  using assms
proof (induction ps arbitrary: l w rs)
  case (Cons x ps)
  obtain r l1 w1 where 1: "Append x (l, w) = (r, l1, w1)" by (metis prod_cases3)
  obtain rs' where 2: "appends ps (l1, w1) = (rs', l', w')"
    using Cons.prems(3) 1 by (auto split: prod.splits)
  have "NextOffset l < 2 ^ 63" using Cons.prems(2) by simp
  note a = Append_any [OF Cons.prems(1) this 1]
  have "NextOffset l1 + int (length ps) \<le> 2 ^ 63" using a(3) Cons.prems(2) by simp
  from Cons.IH [OF a(1) this 2] show ?case using a(2) by blast
qed simp

lemma log_ok_shape:
  assumes ok: "log_ok cs look l w rss"
  shows "log_shape l (wDisk w)"
proof -
  note act = log_active [OF ok] and len = log_okD(3) [OF ok]
  have "file_of (wDisk w) (logPath (ldir l) b) = []" if b: "baseOffset (active l) < b" "b < 2 ^ 63" for b
  proof -
    have b0: "0 \<le> b" using b(1) log_base_bounds(1) [OF ok act(2)] act(1) by simp
    have "fs_get (wDisk w) (logPath (ldir l) b) = None"
    proof (rule ccontr)
      assume "fs_get (wDisk w) (logPath (ldir l) b) \<noteq> None"
      then obtain i where i: "i < length rss" "logPath (ldir l) b = lpath (segments l ! i)"
        using log_ok_clean [OF ok, of "snd (logPath (ldir l) b)"] segment_of_logPath [OF b0 b(2), of "ldir l"]
        by (auto simp: logPath_def)
      then have "b = baseOffset (segments l ! i)" using segmentName_inject [OF b0 b(2) log_base_bounds [OF ok i(1)]] by simp
      moreover have "i < length rss - 1 \<or> i = length rss - 1" using i(1) by linarith
      ultimately show False using log_base_mono(2) [OF ok, of i "length rss - 1"] b(1) act by auto
    qed
    then show ?thesis by (simp add: file_of_def)
  qed
  moreover have "baseOffset (segments l ! i) < nextOffset (segments l ! i) \<and> baseOffset (segments l ! Suc i) = nextOffset (segments l ! i)"
    if "Suc i < length rss" for i using log_okD(10,11) [OF ok that] log_next [OF ok, of i] that by simp
  moreover have "0 < segSize (active l) \<longrightarrow> baseOffset (active l) < nextOffset (active l)"
    using log_ok_active(1) [OF ok] by (auto simp: seg_rep_def)
  ultimately show ?thesis
    using log_okD(2,6) [OF ok] log_okD(9) [OF ok] log_next [OF ok] len by (simp add: log_shape_def log_order_def OldestOffset_def)
qed

lemma log_ok_held:
  assumes ok: "log_ok cs look l w rss" and loc: "\<forall>s \<in> set (segments l). \<not> tiered s" and j: "j < length (concat rss)"
  shows "held l (wDisk w) (OldestOffset l + int j) (concat rss ! j)"
proof -
  obtain i k where ik: "i < length rss" "k < length (rss ! i)" "j = length (concat (take i rss)) + k"
    "concat rss ! j = rss ! i ! k" using concat_nth [OF j] .
  have "\<not> tiered (segments l ! i)" using loc ik(1) log_okD(3) [OF ok] by simp
  then have "seg_holds (segments l ! i) (wDisk w) (rss ! i)"
    using log_okD(8) [OF ok ik(1)] seg_rep_holds by (auto simp: seg_ok_def)
  then show ?thesis unfolding held_def using ik log_base [OF ok ik(1)] log_okD(3) [OF ok]
    by (intro exI [of _ i] conjI exI [of _ "rss ! i"] exI [of _ k]) auto
qed

subsection \<open>Recovery after a torn write\<close>

lemma openAll_snoc:
  "openAll dir (bs @ [b]) = io_bind (openAll dir bs) (\<lambda>ss. io_bind (openSegment dir b) (\<lambda>s. io_ret (ss @ [s])))"
  by (induction bs) (auto simp: io_bind_def io_ret_def fun_eq_iff split: prod.splits sum.splits)

text \<open>
  The disk \<open>d\<close> a crash left: the last log file ends in some bytes \<open>tail\<close> after its
  complete records, the index files are arbitrary.
\<close>

lemma torn_discover:
  assumes ok: "log_ok cs look l w rss" and loc: "\<forall>s \<in> set (segments l). \<not> tiered s" and nf: "faults d = []"
    and last: "fs_get d (lpath (active l)) \<noteq> None"
    and same: "\<And>n. segment_of_name n \<noteq> None \<Longrightarrow> (ldir l, n) \<noteq> lpath (active l) \<Longrightarrow> fs_get d (ldir l, n) = fs_get (wDisk w) (ldir l, n)"
  shows "discoverSegments (ldir l) d = (Inr (map baseOffset (butlast (segments l)) @ [baseOffset (active l)]), d)"
proof -
  have lo: "\<forall>i < length rss. tiered (segments l ! i) \<longleftrightarrow> i < 0" using loc log_okD(3) [OF ok] by simp
  have "fs_get d (ldir l, n) = None \<longleftrightarrow> fs_get (wDisk w) (ldir l, n) = None" if "segment_of_name n \<noteq> None" for n
  proof (cases "(ldir l, n) = lpath (active l)")
    case True
    then show ?thesis using last log_ok_active(1) [OF ok] by (simp add: seg_rep_def)
  qed (use same [OF that] in simp)
  moreover have "map baseOffset (segments l) = map baseOffset (butlast (segments l)) @ [baseOffset (active l)]"
    using log_okD(2) [OF ok] by (metis active_def append_butlast_last_id list.simps(8,9) map_append)
  ultimately show ?thesis using log_discover [OF ok lo nf] by simp
qed

text \<open>The complete segments before the torn one are opened as they were.\<close>

lemma torn_closed:
  assumes ok: "log_ok cs look l (w :: 'k world) rss" and loc: "\<forall>s \<in> set (segments l). \<not> tiered s" and nf: "faults d = []"
    and same: "\<And>n. segment_of_name n \<noteq> None \<Longrightarrow> (ldir l, n) \<noteq> lpath (active l) \<Longrightarrow> fs_get d (ldir l, n) = fs_get (wDisk w) (ldir l, n)"
  defines "bs \<equiv> map baseOffset (butlast (segments l))"
  obtains ss d1 where "(openAll (ldir l) bs d :: (serr + 'k segment list) \<times> disk) = (Inr ss, d1)"
    "length ss = length rss - 1" "faults d1 = []"
    "\<And>i. i < length rss - 1 \<Longrightarrow> seg_rep (ss ! i) d1 (rss ! i) \<and> baseOffset (ss ! i) = baseOffset (segments l ! i)
       \<and> sdir (ss ! i) = ldir l \<and> segmentName (baseOffset (segments l ! i)) \<noteq> segmentName (baseOffset (active l))"
    "fs_get d1 (lpath (active l)) = fs_get d (lpath (active l))"
proof -
  let ?b = "baseOffset (active l)"
  note len = log_okD(3) [OF ok] and act = log_active [OF ok] and la = log_ok_active [OF ok]
  have lb: "length bs = length rss - 1" using len by (simp add: bs_def)
  have bl: "bs ! i = baseOffset (segments l ! i)" "butlast rss ! i = rss ! i" "i < length rss" "i \<noteq> length rss - 1"
    if "i < length bs" for i using that len by (auto simp: nth_butlast bs_def)
  have nm: "segmentName (bs ! i) \<noteq> segmentName ?b" if "i < length bs" for i
    using log_base_inj [OF ok bl(3) [OF that] act(2)] bl [OF that] act(1) by auto
  have "segmentName (bs ! i) \<noteq> segmentName (bs ! j)" if "i < length bs" "j < length bs" "i \<noteq> j" for i j
    using log_base_inj [OF ok bl(3) [OF that(1)] bl(3) [OF that(2)]] bl(1) that by auto
  then have di: "distinct (map segmentName bs)" by (simp add: distinct_conv_nth)
  have f: "encs (butlast rss ! i) = file_of d (logPath (ldir l) (bs ! i)) \<and> small (butlast rss ! i)" if i: "i < length bs" for i
  proof -
    note b = bl [OF i]
    have "fs_get d (ldir l, snd (lpath (segments l ! i))) = fs_get (wDisk w) (ldir l, snd (lpath (segments l ! i)))"
      using nm [OF i] b(1) segment_of_logPath [OF log_base_bounds [OF ok b(3)], of "ldir l"] log_okD(9) [OF ok b(3)] la(2)
      by (intro same) (auto simp: logPath_def)
    moreover have "\<not> tiered (segments l ! i)" using loc b(3) len by simp
    ultimately show ?thesis using log_okD(8,9) [OF ok b(3)] b by (simp add: seg_ok_def seg_rep_def file_of_def logPath_def)
  qed
  have "\<exists>ss d1. (openAll (ldir l) bs d :: (serr + 'k segment list) \<times> disk) = (Inr ss, d1) \<and> length ss = length bs
    \<and> faults d1 = [] \<and> (\<forall>i < length bs. seg_rep (ss ! i) d1 (butlast rss ! i) \<and> baseOffset (ss ! i) = bs ! i \<and> sdir (ss ! i) = ldir l)
    \<and> (\<forall>q. (\<forall>b \<in> set bs. q \<noteq> logPath (ldir l) b \<and> q \<noteq> indexPath (ldir l) b) \<longrightarrow> fs_get d1 q = fs_get d q)"
    using openAll_ok [OF nf, of "butlast rss" bs "ldir l"] di f lb by simp
  then obtain ss d1 where 1: "(openAll (ldir l) bs d :: (serr + 'k segment list) \<times> disk) = (Inr ss, d1)"
      "length ss = length bs" "faults d1 = []"
      "\<forall>i < length bs. seg_rep (ss ! i) d1 (butlast rss ! i) \<and> baseOffset (ss ! i) = bs ! i \<and> sdir (ss ! i) = ldir l"
      "\<forall>q. (\<forall>b \<in> set bs. q \<noteq> logPath (ldir l) b \<and> q \<noteq> indexPath (ldir l) b) \<longrightarrow> fs_get d1 q = fs_get d q" by blast
  have "lpath (active l) \<noteq> logPath (ldir l) b" if "b \<in> set bs" for b
    using nm that by (metis in_set_conv_nth paths_eq(1))
  then have "fs_get d1 (lpath (active l)) = fs_get d (lpath (active l))"
    using 1(5) [rule_format, of "lpath (active l)"] by simp
  then show ?thesis using that [OF 1(1)] 1(2-4) bl nm lb by simp
qed

lemma reopened_holds:
  assumes ok: "log_ok cs look l w rss" and le: "length (segments l') = length rss" "ldir l' = ldir l"
    and seg: "\<And>i. i < length rss \<Longrightarrow> seg_holds (segments l' ! i) d' (rss ! i)
        \<and> baseOffset (segments l' ! i) = baseOffset (segments l ! i) \<and> sdir (segments l' ! i) = ldir l"
      "\<And>i. Suc i < length rss \<Longrightarrow> nextOffset (segments l' ! i) = nextOffset (segments l ! i)"
  shows "log_order l' \<and> (\<forall>j < length (concat rss). held l' d' (OldestOffset l + int j) (concat rss ! j))"
proof
  have ge: "baseOffset (segments l' ! i) + int (length (rss ! i)) \<le> nextOffset (segments l' ! i)" if "i < length rss" for i
    using seg(1) [OF that] by (simp add: seg_holds_def)
  have ne: "rss \<noteq> []" "segments l' \<noteq> []" using log_ok_active(3) [OF ok] le by auto
  show "log_order l'"
    unfolding log_order_def le
  proof (intro conjI allI impI)
    show "0 \<le> baseOffset (hd (segments l'))"
      using seg(1) [of 0] log_base_bounds(1) [OF ok, of 0] ne by (simp add: hd_conv_nth)
  next
    fix i assume i: "i < length rss"
    show "sdir (segments l' ! i) = ldir l" using seg(1) [OF i] by simp
    show "baseOffset (segments l' ! i) \<le> nextOffset (segments l' ! i)" using ge [OF i] by linarith
  next
    fix i assume i: "Suc i < length rss"
    then show "baseOffset (segments l' ! i) < nextOffset (segments l' ! i)"
      using ge [of i] log_okD(10) [OF ok i] by (cases "rss ! i") auto
    show "baseOffset (segments l' ! Suc i) = nextOffset (segments l' ! i)"
      using seg(1) [OF i] seg(2) [OF i] log_okD(11) [OF ok i] by simp
  qed (rule ne)
  show "\<forall>j < length (concat rss). held l' d' (OldestOffset l + int j) (concat rss ! j)"
  proof (intro allI impI)
    fix j assume "j < length (concat rss)"
    then obtain i k where ik: "i < length rss" "k < length (rss ! i)" "j = length (concat (take i rss)) + k"
      "concat rss ! j = rss ! i ! k" by (rule concat_nth)
    then show "held l' d' (OldestOffset l + int j) (concat rss ! j)"
      unfolding held_def le using seg(1) [OF ik(1)] log_base [OF ok ik(1)]
      by (intro exI [of _ i] conjI exI [of _ "rss ! i"] exI [of _ k]) auto
  qed
qed

lemma Reopen_torn:
  assumes ok: "log_ok cs look l (w :: 'k world) rss" and loc: "\<forall>s \<in> set (segments l). \<not> tiered s" and nf: "faults d = []"
    and last: "fs_get d (lpath (active l)) = Some (encs (last rss) @ tail)" "length (encs (last rss) @ tail) < 2 ^ 32"
    and same: "\<And>n. segment_of_name n \<noteq> None \<Longrightarrow> (ldir l, n) \<noteq> lpath (active l) \<Longrightarrow> fs_get d (ldir l, n) = fs_get (wDisk w) (ldir l, n)"
  shows "\<exists>l' d'. (Open (ldir l) mb d :: (serr + 'k slog) \<times> disk) = (Inr l', d') \<and> faults d' = [] \<and> log_order l'
    \<and> (\<forall>j < length (concat rss). held l' d' (OldestOffset l + int j) (concat rss ! j))"
proof -
  let ?n = "length rss - 1" and ?b = "baseOffset (active l)"
  note len = log_okD(3) [OF ok] and act = log_active [OF ok] and la = log_ok_active [OF ok]
  obtain ss d1 where 1: "(openAll (ldir l) (map baseOffset (butlast (segments l))) d :: (serr + 'k segment list) \<times> disk) = (Inr ss, d1)"
      "length ss = ?n" "faults d1 = []"
      "\<And>i. i < ?n \<Longrightarrow> seg_rep (ss ! i) d1 (rss ! i) \<and> baseOffset (ss ! i) = baseOffset (segments l ! i)
         \<and> sdir (ss ! i) = ldir l \<and> segmentName (baseOffset (segments l ! i)) \<noteq> segmentName ?b"
      "fs_get d1 (lpath (active l)) = fs_get d (lpath (active l))"
    by (rule torn_closed [OF ok loc nf same]) iprover+
  then obtain s d' where s: "(openSegment (ldir l) ?b d1 :: (serr + 'k segment) \<times> disk) = (Inr s, d')"
      "seg_holds s d' (last rss)" "faults d' = []" "baseOffset s = ?b" "sdir s = ldir l"
    using openSegment_holds [OF 1(3), of "ldir l" ?b "last rss" tail] last la(2) by auto
  have rep: "seg_rep (ss ! i) d' (rss ! i)" if "i < ?n" for i
  proof -
    have "fs_get d' q = fs_get d1 q" if "q = lpath (ss ! i) \<or> q = ipath (ss ! i)" for q
      using onlyD [OF openSegment_only s(1), of q] 1(4) [OF \<open>i < ?n\<close>] that by auto
    then show ?thesis using 1(4) [OF that] by (auto simp: seg_rep_def)
  qed
  let ?l = "\<lparr>ldir = ldir l, maxSegmentBytes = eff_max mb, segments = ss @ [s], lcold = None\<rparr> :: 'k slog"
  have seg: "seg_holds (segments ?l ! i) d' (rss ! i)" "baseOffset (segments ?l ! i) = baseOffset (segments l ! i)"
      "sdir (segments ?l ! i) = ldir l" "baseOffset (segments ?l ! i) + int (length (rss ! i)) \<le> nextOffset (segments ?l ! i)"
      "Suc i < length rss \<Longrightarrow> nextOffset (segments ?l ! i) = nextOffset (segments l ! i)"
    if i: "i < length rss" for i
  proof -
    have "rss ! ?n = last rss" using la(3) by (simp add: last_conv_nth)
    moreover have "i < ?n \<or> i = ?n" using i by linarith
    ultimately show a: "seg_holds (segments ?l ! i) d' (rss ! i)" "baseOffset (segments ?l ! i) = baseOffset (segments l ! i)"
        "sdir (segments ?l ! i) = ldir l" using seg_rep_holds [OF rep] 1(2,4) s(2,4,5) act(1) by (auto simp: nth_append)
    then show "baseOffset (segments ?l ! i) + int (length (rss ! i)) \<le> nextOffset (segments ?l ! i)" by (simp add: seg_holds_def)
    show "nextOffset (segments ?l ! i) = nextOffset (segments l ! i)" if "Suc i < length rss"
    proof -
      have "i < ?n" using that by linarith
      then show ?thesis using rep [of i] 1(2,4) log_next [OF ok i] by (simp add: nth_append seg_rep_def)
    qed
  qed
  have "length (segments ?l) = length rss" using 1(2) act(2) by simp
  then have "log_order ?l \<and> (\<forall>j < length (concat rss). held ?l d' (OldestOffset l + int j) (concat rss ! j))"
    using reopened_holds [OF ok, of ?l d'] seg by simp
  moreover have "(Open (ldir l) mb d :: (serr + 'k slog) \<times> disk) = (Inr ?l, d')"
    using Open_run [OF nf torn_discover [OF ok loc nf _ same], where ss = "ss @ [s]" and d' = d'] last(1) 1(1) s(1)
    by (simp add: openAll_snoc io_bind_Inr)
  ultimately show ?thesis using s(3) by blast
qed

subsection \<open>The contract of a log\<close>

text \<open>
  What the callers of a log rely on: \<open>holds st o rs\<close> says that the log \<open>st\<close> has the
  records \<open>rs\<close> at the offsets from \<open>o\<close> on.
\<close>

locale record_log =
  fixes append :: "bytes \<Rightarrow> ('st, int) io" and read :: "int \<Rightarrow> ('st, bytes) io"
    and holds :: "'st \<Rightarrow> int \<Rightarrow> bytes list \<Rightarrow> bool" and fits :: "bytes list \<Rightarrow> 'st \<Rightarrow> bool"
  assumes append_holds: "holds st o' rs \<Longrightarrow> fits (p # ps) st \<Longrightarrow>
      \<exists>st'. append p st = (Inr (o' + int (length rs)), st') \<and> holds st' o' (rs @ [p]) \<and> fits ps st'"
    and read_in: "holds st o' rs \<Longrightarrow> i < length rs \<Longrightarrow> read (o' + int i) st = (Inr (rs ! i), st)"
    and read_out: "holds st o' rs \<Longrightarrow> x < o' \<or> o' + int (length rs) \<le> x \<Longrightarrow> \<exists>e. read x st = (Inl e, st)"
begin

text \<open>A run of appends gets consecutive offsets, and each record is read back at its own.\<close>

lemma append_many:
  assumes "holds st o' rs" "fits ps st"
  shows "\<exists>st'. fold (\<lambda>p (os, st). case append p st of (Inl e, st) \<Rightarrow> (os, st) | (Inr o1, st) \<Rightarrow> (os @ [o1], st)) ps ([], st)
      = (map (\<lambda>i. o' + int (length rs + i)) [0..<length ps], st') \<and> holds st' o' (rs @ ps)"
proof -
  let ?f = "\<lambda>p (os, st). case append p st of (Inl e, st) \<Rightarrow> (os, st) | (Inr o1, st) \<Rightarrow> (os @ [o1], st)"
  have "\<exists>st'. fold ?f ps (os, st) = (os @ map (\<lambda>i. o' + int (length rs + i)) [0..<length ps], st') \<and> holds st' o' (rs @ ps)" for os
    using assms
  proof (induction ps arbitrary: os st rs)
    case (Cons p ps)
    obtain st1 where 1: "append p st = (Inr (o' + int (length rs)), st1)" "holds st1 o' (rs @ [p])" "fits ps st1"
      using append_holds [OF Cons.prems] by blast
    from Cons.IH [OF 1(2,3), of "os @ [o' + int (length rs)]"]
    show ?case using 1(1) by (auto simp: upt_conv_Cons map_Suc_upt [symmetric] simp del: upt_Suc)
  qed simp
  from this [of "[]"] show ?thesis by simp
qed

lemma read_back:
  assumes "holds st o' rs" "fits (p # ps) st"
  shows "\<exists>st'. append p st = (Inr (o' + int (length rs)), st') \<and> read (o' + int (length rs)) st' = (Inr p, st')"
  using append_holds [OF assms] read_in by fastforce

end

text \<open>A log over a cold store that answers meets the contract.\<close>

definition log_holds :: "'k coldstore \<Rightarrow> ('k \<Rightarrow> string \<Rightarrow> (bytes \<times> bytes) option) \<Rightarrow> ('k \<Rightarrow> bool) \<Rightarrow>
    'k slog \<times> 'k world \<Rightarrow> int \<Rightarrow> bytes list \<Rightarrow> bool" where
  "log_holds cs look avail st o' rs \<longleftrightarrow> avail (wCold (snd st)) \<and> OldestOffset (fst st) = o'
     \<and> (\<exists>rss. log_ok cs look (fst st) (snd st) rss \<and> concat rss = rs)"

definition log_fits :: "bytes list \<Rightarrow> 'k slog \<times> 'k world \<Rightarrow> bool" where
  "log_fits ps st \<longleftrightarrow> (\<forall>p \<in> set ps. 4 + length p < 2 ^ 32) \<and> NextOffset (fst st) + int (length ps) < 2 ^ 63"

lemma NextOffset_holds: "log_holds cs look avail (l, w) o' rs \<Longrightarrow> NextOffset l = o' + int (length rs)"
  using NextOffset_eq by (auto simp: log_holds_def)

lemma Append_holds:
  assumes h: "log_holds cs look avail (l, w) o' rs" and f: "log_fits (p # ps) (l, w)"
  shows "\<exists>st'. Append p (l, w) = (Inr (o' + int (length rs)), st') \<and> log_holds cs look avail st' o' (rs @ [p]) \<and> log_fits ps st'"
proof -
  obtain rss where ok: "log_ok cs look l w rss" "concat rss = rs" "avail (wCold w)" "OldestOffset l = o'"
    using h by (auto simp: log_holds_def)
  have nx: "NextOffset l = o' + int (length rs)" using NextOffset_holds [OF h] .
  obtain l' w' rss' where a: "Append p (l, w) = (Inr (NextOffset l), l', w')" "log_ok cs look l' w' rss'"
      "concat rss' = concat rss @ [p]" "same_log l l'" "wCold w' = wCold w"
    using Append_ok [OF ok(1), of p] f by (auto simp: log_fits_def)
  have h': "log_holds cs look avail (l', w') o' (rs @ [p])"
    using a ok by (auto simp: log_holds_def same_log_def)
  moreover have "log_fits ps (l', w')" using NextOffset_holds [OF h'] nx f by (simp add: log_fits_def)
  ultimately show ?thesis using a(1) nx by auto
qed

sublocale cold_store \<subseteq> log: record_log Append Read "log_holds cs look avail" log_fits
proof
  fix st :: "'k slog \<times> 'k world" and o' rs
  assume h: "log_holds cs look avail st o' rs"
  show "\<exists>st'. Append p st = (Inr (o' + int (length rs)), st') \<and> log_holds cs look avail st' o' (rs @ [p]) \<and> log_fits ps st'"
    if "log_fits (p # ps) st" for p ps using Append_holds [of cs look avail "fst st" "snd st"] h that by simp
  obtain rss where ok: "log_ok cs look (fst st) (snd st) rss" "concat rss = rs" "avail (wCold (snd st))" "OldestOffset (fst st) = o'"
    using h by (auto simp: log_holds_def)
  show "Read (o' + int i) st = (Inr (rs ! i), st)" if "i < length rs" for i
    using Read_in [OF ok(1), of i] ok(2-4) that by simp
  show "\<exists>e. Read x st = (Inl e, st)" if "x < o' \<or> o' + int (length rs) \<le> x" for x
    using Read_out [OF ok(1), of x] that ok NextOffset_eq [OF ok(1)] by simp
qed


subsection \<open>Tiering and compaction under the contract\<close>

context cold_store
begin

lemma Tier_holds:
  assumes h: "log_holds cs look avail (l, w) o' rs" and c: "lcold l = Some cs"
  shows "\<exists>n l' w'. TierSegments (l, w) = ((n, None), l', w') \<and> log_holds cs look avail (l', w') o' rs
    \<and> (\<forall>i. Suc i < length (segments l') \<longrightarrow> tiered (segments l' ! i))"
proof -
  obtain rss where ok: "log_ok cs look l w rss" "concat rss = rs" "avail (wCold w)" "OldestOffset l = o'"
    using h by (auto simp: log_holds_def)
  have len: "length rss = length (segments l)" using log_okD(3) [OF ok(1)] .
  have run: "TierSegments (l, w) = tierLoop cs [0..<length (segments l)] 0 (l, w)" using c by (simp add: TierSegments_def)
  obtain n l' w' where t: "TierSegments (l, w) = ((n, None), l', w')" "avail (wCold w')"
      "length (segments l') = length (segments l)" "\<forall>i \<in> set [0..<length (segments l)]. Suc i < length rss \<longrightarrow> tiered (segments l' ! i)"
    using tierLoop_all [OF ok(1,3), of "[0..<length (segments l)]" 0] len unfolding run by auto
  have "log_holds cs look avail (l', w') o' rs"
    using TierSegments_ok [OF ok(1) t(1)] t(2) ok(2,4) by (auto simp: log_holds_def)
  then show ?thesis using t len by auto
qed

lemma seg_remove_avail:
  assumes ok: "log_ok cs look l w rss" and i: "i < length rss" and av: "avail (wCold w)"
  shows "\<exists>s' w'. seg_remove (segments l ! i, w) = (Inr (), s', w') \<and> avail (wCold w')"
proof (cases "tiered (segments l ! i)")
  case True
  then have c: "coldStore (segments l ! i) = Some cs" using log_okD(8) [OF ok i] by (auto simp: seg_ok_def)
  obtain k' where "csDelete cs (coldKey (segments l ! i)) (wCold w) = (Inr (), k')" "avail k'" using del_avail [OF av] by blast
  then show ?thesis using True c
    by (simp add: seg_remove_def ignore_err_def seg_close_def with_seg_def io_then_def io_bind_def on_cold_def)
next
  case False
  then have "seg_rep (segments l ! i) (wDisk w) (rss ! i)" using log_okD(8) [OF ok i] by (simp add: seg_ok_def)
  from seg_remove_local [OF this log_okD(1) [OF ok]] show ?thesis using av by simp
qed

lemma compact_loop_run:
  assumes "log_ok cs look (l\<lparr>segments := drop i (segments l)\<rparr>) w (drop i rss)" "i + n < length (segments l)" "avail (wCold w)"
  shows "\<exists>l' w'. each_seg seg_remove [i..<i + n] (l, w) = (Inr (), l', w') \<and> avail (wCold w')"
  using assms
proof (induction n arbitrary: i l w)
  case (Suc n)
  have ds: "drop i (segments l) = segments l ! i # drop (Suc i) (segments l)"
    using Suc.prems(2) by (simp add: Cons_nth_drop_Suc)
  have "i < length rss" using log_okD(3) [OF Suc.prems(1)] Suc.prems(2) by simp
  then have dr: "drop i rss = rss ! i # drop (Suc i) rss" by (simp add: Cons_nth_drop_Suc)
  note ok = Suc.prems(1) [unfolded ds dr]
  obtain s' w1 where 1: "seg_remove (segments l ! i, w) = (Inr (), s', w1)" "avail (wCold w1)"
    using seg_remove_avail [OF ok, of 0] Suc.prems(3) by auto
  have rem: "touch look (ldir l) (baseOffset (segments l ! i)) w w1" "fs_get (wDisk w1) (lpath (segments l ! i)) = None"
    using seg_remove_touch(1,2) [OF ok, of 0 "Inr ()" s' w1] 1(1) by simp_all
  let ?l = "l\<lparr>segments := (segments l)[i := s']\<rparr>"
  have "log_ok cs look (l\<lparr>segments := drop (Suc i) (segments l)\<rparr>) w1 (drop (Suc i) rss)"
    by (rule log_ok_tl [OF ok _ rem]) (use Suc.prems(2) in simp)
  then have "log_ok cs look (?l\<lparr>segments := drop (Suc i) (segments ?l)\<rparr>) w1 (drop (Suc i) rss)" by simp
  then obtain l' w' where 2: "each_seg seg_remove [Suc i..<Suc i + n] (?l, w1) = (Inr (), l', w')" "avail (wCold w')"
    using Suc.IH [where i = "Suc i" and l = ?l and w = w1] Suc.prems(2) 1(2) by auto
  have "at_seg i seg_remove (l, w) = (Inr (), ?l, w1)" using 1(1) by (simp add: at_seg_def)
  moreover have "[i..<i + Suc n] = i # [Suc i..<Suc i + n]" by (simp add: upt_conv_Cons del: upt_Suc)
  ultimately have "each_seg seg_remove [i..<i + Suc n] (l, w) = (Inr (), l', w')"
    using 2(1) by (simp only: each_seg.simps io_then_Inr)
  then show ?case using 2(2) by blast
qed simp

lemma Compact_holds:
  assumes h: "log_holds cs look avail (l, w) o' rs"
  shows "\<exists>m l' w'. Compact keep (l, w) = (Inr (), l', w') \<and> m \<le> length rs
    \<and> log_holds cs look avail (l', w') (o' + int m) (drop m rs)
    \<and> int (SegmentCount l') = min (int (SegmentCount l)) (max 1 keep)"
proof -
  obtain rss where ok: "log_ok cs look l w rss" "concat rss = rs" "avail (wCold w)" "OldestOffset l = o'"
    using h by (auto simp: log_holds_def)
  define n where "n = nat (int (length (segments l)) - max 1 keep)"
  have ne: "segments l \<noteq> []" "length rss = length (segments l)" using log_okD(2,3) [OF ok(1)] by auto
  have n: "n < length (segments l)" using ne unfolding n_def by (cases "segments l") auto
  obtain l' w' where run: "Compact keep (l, w) = (Inr (), l', w')" "avail (wCold w')"
  proof (cases "n = 0")
    case False
    obtain l1 w1 where "each_seg seg_remove [0..<n] (l, w) = (Inr (), l1, w1)" "avail (wCold w1)"
      using compact_loop_run [where i = 0 and l = l and n = n and w = w and rss = rss] ok(1,3) n by auto
    then show ?thesis using that [of "l1\<lparr>segments := drop n (segments l1)\<rparr>" w1] False
      unfolding Compact_unfold [OF n_def] by (simp add: io_then_Inr seg_update_def)
  qed (use that ok(3) in \<open>simp add: Compact_unfold [OF n_def]\<close>)
  note c = Compact_ok [OF ok(1) run(1), folded n_def]
  let ?m = "length (concat (take n rss))"
  have cat: "rs = concat (take n rss) @ concat (drop n rss)"
    using ok(2) concat_append [of "take n rss" "drop n rss"] by simp
  have "OldestOffset l' = o' + int ?m"
    using c(2) log_base [OF ok(1), of n] n ne ok(4) by (simp add: OldestOffset_def hd_drop_conv_nth)
  then have "log_holds cs look avail (l', w') (o' + int ?m) (drop ?m rs)"
    using c(1) run(2) cat by (auto simp: log_holds_def intro!: exI [of _ "drop n rss"])
  moreover have "int (SegmentCount l') = min (int (SegmentCount l)) (max 1 keep)"
    using c(2) n unfolding n_def SegmentCount_def by auto
  moreover have "?m \<le> length rs" using cat by (metis le_add1 length_append)
  ultimately show ?thesis using run(1) by blast
qed

end

end
