(* ===== verification/Storage_Partition.thy ===== *)
theory Storage_Partition
  imports Storage_Log
begin

text \<open>
  The partitioned log: \<^verbatim>\<open>storage/partition.go\<close>. A key is the list of its bytes; it is
  routed by its 32-bit FNV-1a hash. The partitions are logs in directories of their own
  on the same disk. \<^verbatim>\<open>filepath.Join\<close> is modelled on a directory that is already clean.
\<close>

unbundle bit_operations_syntax

subsection \<open>Operations\<close>

definition fnv32a :: "bytes \<Rightarrow> u32" where
  "fnv32a key = foldl (\<lambda>h b. (h XOR ucast b) * 16777619) 2166136261 key"

definition filepath_Join :: "string \<Rightarrow> string \<Rightarrow> string" where
  "filepath_Join dir name = (if dir = [] then name else dir @ ''/'' @ name)"

record 'k plog =
  pdir :: string
  numPartitions :: int
  pmaxBytes :: int
  partitions :: "'k slog list"

definition partDir :: "string \<Rightarrow> nat \<Rightarrow> string" where
  "partDir dir i = filepath_Join dir (''partition-'' @ decimal i)"

fun openParts :: "string \<Rightarrow> int \<Rightarrow> nat list \<Rightarrow> (disk, 'k slog list) io" where
  "openParts dir mb [] = io_ret []"
| "openParts dir mb (i # is) =
     io_bind (Open (partDir dir i) mb) (\<lambda>l. io_bind (openParts dir mb is) (\<lambda>ls. io_ret (l # ls)))"

definition OpenPartitioned :: "string \<Rightarrow> int \<Rightarrow> int \<Rightarrow> (disk, 'k plog) io" where
  "OpenPartitioned dir n mb =
     (if n < 1 then io_err BadPartition
      else io_bind (openParts dir mb [0..<nat n])
        (\<lambda>ls. io_ret \<lparr>pdir = dir, numPartitions = n, pmaxBytes = mb, partitions = ls\<rparr>))"

definition PartitionFor :: "'k plog \<Rightarrow> bytes \<Rightarrow> int" where
  "PartitionFor pl key = int_of_u32 (fnv32a key) mod numPartitions pl"

definition at_part :: "nat \<Rightarrow> ('k slog \<times> 'k world, 'a) io \<Rightarrow> ('k plog \<times> 'k world, 'a) io" where
  "at_part i m st = (case st of (pl, w) \<Rightarrow> case m (partitions pl ! i, w) of
     (r, l, w') \<Rightarrow> (r, pl\<lparr>partitions := (partitions pl)[i := l]\<rparr>, w'))"

definition pl_Append :: "bytes \<Rightarrow> bytes \<Rightarrow> 'k plog \<times> 'k world \<Rightarrow> (int \<times> (serr + int)) \<times> 'k plog \<times> 'k world" where
  "pl_Append key payload st =
     (let part = PartitionFor (fst st) key in
      case at_part (nat part) (Append payload) st of (r, st') \<Rightarrow> ((part, r), st'))"

definition pl_Read :: "int \<Rightarrow> int \<Rightarrow> ('k plog \<times> 'k world, bytes) io" where
  "pl_Read part offset = with_seg (\<lambda>pl.
     if part < 0 \<or> part \<ge> numPartitions pl then io_err BadPartition
     else at_part (nat part) (Read offset))"

definition pl_NextOffset :: "'k plog \<Rightarrow> int \<Rightarrow> int option" where
  "pl_NextOffset pl part = map_option NextOffset (go_nth (partitions pl) part)"

fun closeParts :: "nat list \<Rightarrow> ('k plog \<times> 'k world, unit) io" where
  "closeParts [] = io_ret ()"
| "closeParts (i # is) = io_then (at_part i Close) (closeParts is)"

definition pl_Close :: "('k plog \<times> 'k world, unit) io" where
  "pl_Close = with_seg (\<lambda>pl. closeParts [0..<length (partitions pl)])"

subsection \<open>Files of other directories\<close>

lemma openSegment_dir: "openSegment dir b d = (r, d') \<Longrightarrow> fst q \<noteq> dir \<Longrightarrow> fs_get d' q = fs_get d q"
  by (rule onlyD [OF openSegment_only]) (auto simp: logPath_def indexPath_def)

lemma openAll_dir: "openAll dir bs d = (r, d') \<Longrightarrow> fst q \<noteq> dir \<Longrightarrow> fs_get d' q = fs_get d q"
proof (induction bs arbitrary: d r)
  case (Cons b bs)
  from Cons.prems(1) show ?case
    by (auto elim!: io_bind_cases dest!: openSegment_dir [OF _ Cons.prems(2)] Cons.IH [OF _ Cons.prems(2)])
qed simp

lemma fs_read_dir_get: "fs_read_dir dir d = (r, d') \<Longrightarrow> fs_get d' = fs_get d"
  by (auto simp: fs_read_dir_def dest!: fs_call_get elim!: io_then_cases)

lemma Open_dir:
  assumes "Open dir mb d = (r, d')" "fst q \<noteq> dir"
  shows "fs_get d' q = fs_get d q"
  using assms(1) unfolding Open_def Let_def discoverSegments_def
  by (auto elim!: io_then_cases io_bind_cases dest!: fs_call_get fs_read_dir_get openAll_dir [OF _ assms(2)])

lemma append_active_dir:
  assumes "on_active (seg_append p) (l, w) = (r, l', w')" "sdir (active l) = dir" "segments l \<noteq> []" "fst q \<noteq> dir"
  shows "fs_get (wDisk w') q = fs_get (wDisk w) q"
proof -
  have "segments l ! (length (segments l) - 1) = active l" using assms(3) by (simp add: active_def last_conv_nth)
  then obtain s' where "seg_append p (active l, w) = (r, s', w')"
    using assms(1) by (auto simp: on_active_def with_seg_def at_seg_def split: prod.splits)
  from seg_append_frame(2) [OF this, of q] show ?thesis using assms(2,4) by (cases q) (simp add: logPath_def indexPath_def)
qed

lemma Append_dir:
  assumes sd: "sdir (active l) = ldir l" and ne: "segments l \<noteq> []"
    and run: "Append p (l, w) = (r, l', w')" and q: "fst q \<noteq> ldir l"
  shows "fs_get (wDisk w') q = fs_get (wDisk w) q"
proof -
  have on: "fs_get (wDisk w') q = fs_get (wDisk w1) q"
    if "on_active (seg_append p) (l1, w1) = (r, l', w')" "sdir (active l1) = ldir l" "segments l1 \<noteq> []" for l1 w1
    using append_active_dir [OF that q] .
  have ro: "fs_get (wDisk w1) q = fs_get (wDisk w) q \<and> (x = Inr () \<longrightarrow> segments l1 \<noteq> [] \<and> sdir (active l1) = ldir l)"
    if "roll (l, w) = (x, l1, w1)" for x l1 w1
  proof -
    have "sdir s = dir" if "openSegment dir b d = (Inr s, d')" for dir b d d' and s :: "'a segment"
      using that unfolding openSegment_def rebuildIndex_def
      by (auto elim!: io_then_cases io_bind_cases split: option.splits prod.splits)
    then show ?thesis using that openSegment_dir [OF _ q]
      by (auto simp: roll_def with_seg_def on_disk_def seg_update_def active_def elim!: io_bind_cases split: prod.splits)
  qed
  show ?thesis
  proof (cases "segSize (active l) + (4 + int (length p)) > maxSegmentBytes l \<and> segSize (active l) > 0")
    case True
    then have "io_then roll (on_active (seg_append p)) (l, w) = (r, l', w')"
      using run by (simp add: Append_def with_seg_def)
    then show ?thesis using ro on by (auto elim!: io_then_cases)
  next
    case False
    then have "on_active (seg_append p) (l, w) = (r, l', w')"
      using run by (simp only: Append_def with_seg_def Let_def fst_conv if_False)
    from on [OF this sd ne] show ?thesis .
  qed
qed

text \<open>Two worlds that agree on the directory of a log.\<close>

lemma log_ok_agree:
  assumes ok: "log_ok cs look l w rss" and nf: "faults (wDisk w') = []" and cold: "wCold w' = wCold w"
    and same: "\<And>n. fs_get (wDisk w') (ldir l, n) = fs_get (wDisk w) (ldir l, n)"
  shows "log_ok cs look l w' rss"
proof -
  have "seg_ok cs look (segments l ! i) w' (rss ! i)" if "i < length rss" for i
    using log_okD(8,9) [OF ok that] same cold
    by (auto simp: seg_ok_def seg_rep_def logPath_def indexPath_def split: if_splits)
  moreover have "\<forall>n. fs_get (wDisk w') (ldir l, n) \<noteq> None \<longrightarrow> segment_of_name n \<noteq> None \<longrightarrow>
      (\<exists>i < length rss. \<not> tiered (segments l ! i) \<and> (ldir l, n) = lpath (segments l ! i))"
    using log_ok_clean [OF ok] same by simp
  ultimately show ?thesis using ok nf unfolding log_ok_def by blast
qed

lemma log_holds_agree:
  assumes "log_holds cs look avail (l, w) o' rs" "faults (wDisk w') = []" "wCold w' = wCold w"
    "\<And>n. fs_get (wDisk w') (ldir l, n) = fs_get (wDisk w) (ldir l, n)"
  shows "log_holds cs look avail (l, w') o' rs"
proof -
  obtain rss where "log_ok cs look l w rss" "concat rss = rs" using assms(1) by (auto simp: log_holds_def)
  from log_ok_agree [OF this(1) assms(2-4)] this(2) show ?thesis using assms(1,3) by (auto simp: log_holds_def)
qed


subsection \<open>Isolation\<close>

text \<open>Every partition is a log with contents of its own, in a directory of its own.\<close>

definition pl_holds :: "'k coldstore \<Rightarrow> ('k \<Rightarrow> string \<Rightarrow> (bytes \<times> bytes) option) \<Rightarrow> ('k \<Rightarrow> bool) \<Rightarrow>
    'k plog \<times> 'k world \<Rightarrow> (int \<times> bytes list) list \<Rightarrow> bool" where
  "pl_holds cs look avail st cont \<longleftrightarrow>
     numPartitions (fst st) = int (length cont) \<and> length (partitions (fst st)) = length cont \<and> cont \<noteq> []
     \<and> distinct (map ldir (partitions (fst st)))
     \<and> (\<forall>i < length cont. log_holds cs look avail (partitions (fst st) ! i, snd st) (fst (cont ! i)) (snd (cont ! i)))"

lemma PartitionFor_range:
  assumes "0 < numPartitions pl"
  shows "0 \<le> PartitionFor pl key" "PartitionFor pl key < numPartitions pl"
  using assms by (simp_all add: PartitionFor_def)

lemma Append_same:
  assumes "log_holds cs look avail (l, w) o' rs" "log_fits (p # ps) (l, w)" "Append p (l, w) = (r, l', w')"
  shows "r = Inr (o' + int (length rs))" "log_holds cs look avail (l', w') o' (rs @ [p])" "log_fits ps (l', w')"
    "ldir l' = ldir l" "faults (wDisk w') = []" "wCold w' = wCold w" "fst q \<noteq> ldir l \<Longrightarrow> fs_get (wDisk w') q = fs_get (wDisk w) q"
proof -
  obtain rss where ok: "log_ok cs look l w rss" "concat rss = rs" using assms(1) by (auto simp: log_holds_def)
  show "r = Inr (o' + int (length rs))" "log_holds cs look avail (l', w') o' (rs @ [p])" "log_fits ps (l', w')"
    using Append_holds [OF assms(1,2)] assms(3) by auto
  obtain l2 w2 rss2 where a: "Append p (l, w) = (Inr (NextOffset l), l2, w2)" "log_ok cs look l2 w2 rss2" "same_log l l2" "wCold w2 = wCold w"
    using Append_ok [OF ok(1), of p] assms(2) by (auto simp: log_fits_def)
  then show "ldir l' = ldir l" "faults (wDisk w') = []" "wCold w' = wCold w"
    using assms(3) log_okD(1) [OF a(2)] by (auto simp: same_log_def)
  show "fst q \<noteq> ldir l \<Longrightarrow> fs_get (wDisk w') q = fs_get (wDisk w) q"
    using Append_dir [OF log_ok_active(2) [OF ok(1)] log_okD(2) [OF ok(1)] assms(3)] .
qed

lemma pl_Append_holds:
  assumes h: "pl_holds cs look avail (pl, w) cont" and f: "log_fits [p] (partitions pl ! nat (PartitionFor pl key), w)"
  defines "i \<equiv> nat (PartitionFor pl key)"
  shows "\<exists>pl' w'. pl_Append key p (pl, w) = ((int i, Inr (fst (cont ! i) + int (length (snd (cont ! i))))), pl', w')
    \<and> i < length cont \<and> numPartitions pl' = numPartitions pl
    \<and> pl_holds cs look avail (pl', w') (cont[i := (fst (cont ! i), snd (cont ! i) @ [p])])"
proof -
  have n: "numPartitions pl = int (length cont)" "length (partitions pl) = length cont" "cont \<noteq> []"
    "distinct (map ldir (partitions pl))" using h by (auto simp: pl_holds_def)
  have hi: "log_holds cs look avail (partitions pl ! j, w) (fst (cont ! j)) (snd (cont ! j))" if "j < length cont" for j
    using h that by (simp add: pl_holds_def)
  have i: "i < length cont" "PartitionFor pl key = int i"
    using PartitionFor_range [of pl key] n unfolding i_def by auto
  obtain r l' w' where run: "Append p (partitions pl ! i, w) = (r, l', w')" by (metis prod_cases3)
  note a = Append_same [OF hi [OF i(1)] f [folded i_def] run]
  let ?pl = "pl\<lparr>partitions := (partitions pl)[i := l']\<rparr>" and ?c = "cont[i := (fst (cont ! i), snd (cont ! i) @ [p])]"
  have "log_holds cs look avail (partitions ?pl ! j, w') (fst (?c ! j)) (snd (?c ! j))" if j: "j < length cont" for j
  proof (cases "j = i")
    case True
    then show ?thesis using a(2) i(1) n(2) by simp
  next
    case False
    have "ldir (partitions pl ! j) \<noteq> ldir (partitions pl ! i)"
      using n(2,4) i(1) j False by (simp add: distinct_conv_nth)
    then have "log_holds cs look avail (partitions pl ! j, w') (fst (cont ! j)) (snd (cont ! j))"
      using log_holds_agree [OF hi [OF j] a(5,6)] a(7) by simp
    then show ?thesis using False by simp
  qed
  moreover have "map ldir (partitions ?pl) = map ldir (partitions pl)"
    using a(4) i(1) n(2) by (simp add: map_update list_update_same_conv)
  ultimately have "pl_holds cs look avail (?pl, w') ?c" using n by (simp add: pl_holds_def)
  moreover have "pl_Append key p (pl, w) = ((int i, Inr (fst (cont ! i) + int (length (snd (cont ! i))))), ?pl, w')"
    using run a(1) i(2) by (simp add: pl_Append_def at_part_def)
  ultimately show ?thesis using i(1) by simp
qed

subsection \<open>Opening\<close>

lemma decimal_inject: "decimal m = decimal n \<Longrightarrow> m = n"
  using parse_decimal by metis

lemma partDir_inject: "partDir dir i = partDir dir j \<Longrightarrow> i = j"
  by (auto simp: partDir_def filepath_Join_def dest: decimal_inject split: if_splits)

lemma openParts_fresh:
  assumes "faults d = []" "mb < 2 ^ 32" "distinct is" "avail k"
    "\<And>i n. i \<in> set is \<Longrightarrow> fs_get d (partDir dir i, n) \<noteq> None \<Longrightarrow> segment_of_name n = None"
  shows "\<exists>ls d'. (openParts dir mb is d :: (serr + 'k slog list) \<times> disk) = (Inr ls, d') \<and> faults d' = []
    \<and> map ldir ls = map (partDir dir) is
    \<and> (\<forall>j < length is. log_holds cs look avail (ls ! j, \<lparr>wDisk = d', wCold = k\<rparr>) 0 [])
    \<and> (\<forall>q. fst q \<notin> partDir dir ` set is \<longrightarrow> fs_get d' q = fs_get d q)"
  using assms
proof (induction "is" arbitrary: d)
  case (Cons i "is")
  have "\<forall>n. fs_get d (partDir dir i, n) \<noteq> None \<longrightarrow> segment_of_name n = None" using Cons.prems(5) [OF list.set_intros(1)] by blast
  from Open_fresh [OF Cons.prems(1) this Cons.prems(2), of cs look k]
  obtain l d1 where l: "(Open (partDir dir i) mb d :: (serr + 'k slog) \<times> disk) = (Inr l, d1)"
      "log_ok cs look l \<lparr>wDisk = d1, wCold = k\<rparr> [[]]" "OldestOffset l = 0" "ldir l = partDir dir i"
    by blast
  have ne: "partDir dir j \<noteq> partDir dir i" if "j \<in> set is" for j using partDir_inject Cons.prems(3) that by fastforce
  have fr: "fs_get d1 q = fs_get d q" if "fst q \<noteq> partDir dir i" for q using Open_dir [OF l(1) that] .
  have nf: "faults d1 = []" using log_okD(1) [OF l(2)] by simp
  have emp: "segment_of_name n = None" if "j \<in> set is" "fs_get d1 (partDir dir j, n) \<noteq> None" for j n
    using fr [of "(partDir dir j, n)"] ne [OF that(1)] Cons.prems(5) [of j n] that by simp
  obtain ls d' where ls: "(openParts dir mb is d1 :: (serr + 'k slog list) \<times> disk) = (Inr ls, d')" "faults d' = []"
      "map ldir ls = map (partDir dir) is"
      "\<forall>j < length is. log_holds cs look avail (ls ! j, \<lparr>wDisk = d', wCold = k\<rparr>) 0 []"
      "\<forall>q. fst q \<notin> partDir dir ` set is \<longrightarrow> fs_get d' q = fs_get d1 q"
    using Cons.IH [OF nf Cons.prems(2) _ Cons.prems(4)] emp Cons.prems(3) unfolding distinct.simps by blast
  have ni: "partDir dir i \<notin> partDir dir ` set is" using ne by force
  then have "fs_get d' (ldir l, n) = fs_get d1 (ldir l, n)" for n using ls(5) l(4) by simp
  then have "log_ok cs look l \<lparr>wDisk = d', wCold = k\<rparr> [[]]" using log_ok_agree [OF l(2)] ls(2) by simp
  then have "log_holds cs look avail (l, \<lparr>wDisk = d', wCold = k\<rparr>) 0 []"
    using l(3) Cons.prems(4) by (auto simp: log_holds_def intro: exI [of _ "[[]]"])
  then have "\<forall>j < length (i # is). log_holds cs look avail ((l # ls) ! j, \<lparr>wDisk = d', wCold = k\<rparr>) 0 []"
    using ls(4) by (auto simp: less_Suc_eq_0_disj)
  moreover have "fs_get d' q = fs_get d q" if "fst q \<notin> partDir dir ` set (i # is)" for q
    using ls(5) fr [of q] that by (cases q) simp
  moreover have "(openParts dir mb (i # is) d :: (serr + 'k slog list) \<times> disk) = (Inr (l # ls), d')"
    using l(1) ls(1) by (simp add: io_bind_Inr)
  ultimately show ?case using ls(2,3) l(4) by (intro exI [of _ "l # ls"] exI [of _ d']) auto
qed simp


lemma OpenPartitioned_holds:
  assumes "1 \<le> n" "faults d = []" "mb < 2 ^ 32" "avail k"
    "\<And>i m. i < nat n \<Longrightarrow> fs_get d (partDir dir i, m) \<noteq> None \<Longrightarrow> segment_of_name m = None"
  shows "\<exists>pl d'. (OpenPartitioned dir n mb d :: (serr + 'k plog) \<times> disk) = (Inr pl, d')
    \<and> pl_holds cs look avail (pl, \<lparr>wDisk = d', wCold = k\<rparr>) (replicate (nat n) (0, []))"
proof -
  obtain ls d' where ls: "(openParts dir mb [0..<nat n] d :: (serr + 'k slog list) \<times> disk) = (Inr ls, d')"
      "map ldir ls = map (partDir dir) [0..<nat n]"
      "\<forall>j < nat n. log_holds cs look avail (ls ! j, \<lparr>wDisk = d', wCold = k\<rparr>) 0 []"
    using openParts_fresh [OF assms(2,3) distinct_upt [of 0 "nat n"], of avail k dir cs look] assms(4,5) by auto
  have len: "length ls = nat n" using arg_cong [OF ls(2), of length] by simp
  have "distinct (map ldir ls)" unfolding ls(2) using partDir_inject by (auto simp: distinct_map intro: inj_onI)
  then have "pl_holds cs look avail (\<lparr>pdir = dir, numPartitions = n, pmaxBytes = mb, partitions = ls\<rparr>, \<lparr>wDisk = d', wCold = k\<rparr>)
      (replicate (nat n) (0, []))"
    using ls(3) len assms(1) by (simp add: pl_holds_def)
  moreover have "(OpenPartitioned dir n mb d :: (serr + 'k plog) \<times> disk)
      = (Inr \<lparr>pdir = dir, numPartitions = n, pmaxBytes = mb, partitions = ls\<rparr>, d')"
    using ls(1) assms(1) by (simp add: OpenPartitioned_def io_bind_Inr)
  ultimately show ?thesis by blast
qed

end
