(* ===== verification/Storage_Safety.thy ===== *)
theory Storage_Safety
  imports Storage_Partition
begin

text \<open>
  The properties of the storage engine, and runs of it that show that their hypotheses
  can hold. \<open>dir_log cd st o rs\<close>: the log \<open>st\<close>, tiered to the directory \<open>cd\<close>, has the
  records \<open>rs\<close> at the offsets from \<open>o\<close> on.
\<close>

abbreviation dir_log :: "string \<Rightarrow> disk slog \<times> disk world \<Rightarrow> int \<Rightarrow> bytes list \<Rightarrow> bool" where
  "dir_log cd \<equiv> log_holds (LocalDirColdStore cd) (dir_look cd) (\<lambda>d. faults d = [])"

subsection \<open>Runs\<close>

definition no_files :: disk where
  "no_files = \<lparr>files = [], faults = []\<rparr>"

definition demo_open :: "disk slog \<times> disk world" where
  "demo_open = (case Open ''d'' 12 no_files of
     (Inr l, d) \<Rightarrow> (l, \<lparr>wDisk = d, wCold = no_files\<rparr>)
   | (Inl _, d) \<Rightarrow> undefined)"

definition demo_records :: "bytes list" where
  "demo_records = [[1, 2], [3], [4, 5, 6]]"

definition demo_log :: "disk slog \<times> disk world" where
  "demo_log = snd (appends demo_records demo_open)"

lemma EnableTiering_holds:
  assumes "log_holds cs look avail (l, w) o' rs"
  shows "log_holds cs look avail (EnableTiering cs l, w) o' rs"
proof -
  have e: "segments (EnableTiering cs l) = segments l" "ldir (EnableTiering cs l) = ldir l" "active (EnableTiering cs l) = active l"
    "maxSegmentBytes (EnableTiering cs l) = maxSegmentBytes l" "NextOffset (EnableTiering cs l) = NextOffset l"
    "OldestOffset (EnableTiering cs l) = OldestOffset l" "lcold (EnableTiering cs l) = Some cs"
    by (simp_all add: EnableTiering_def active_def NextOffset_def OldestOffset_def)
  have "log_ok cs look (EnableTiering cs l) w rss" if "log_ok cs look l w rss" for rss
    using that unfolding log_ok_def e option.inject by blast
  then show ?thesis using assms by (auto simp: log_holds_def EnableTiering_def OldestOffset_def)
qed

lemma appends_holds:
  assumes "log_holds cs look avail st o' rs" "log_fits ps st"
  shows "\<exists>st'. appends ps st = (map (\<lambda>i. Inr (o' + int (length rs + i))) [0..<length ps], st')
    \<and> log_holds cs look avail st' o' (rs @ ps)"
  using assms
proof (induction ps arbitrary: st rs)
  case (Cons p ps)
  obtain st1 where 1: "Append p st = (Inr (o' + int (length rs)), st1)" "log_holds cs look avail st1 o' (rs @ [p])" "log_fits ps st1"
    using Append_holds [of cs look avail "fst st" "snd st" o' rs p ps] Cons.prems by (metis prod.collapse)
  from Cons.IH [OF 1(2,3)] obtain st' where 2: "appends ps st1
      = (map (\<lambda>i. Inr (o' + int (length (rs @ [p]) + i))) [0..<length ps], st')" "log_holds cs look avail st' o' (rs @ p # ps)" by auto
  have "[0..<length (p # ps)] = 0 # map Suc [0..<length ps]" by (simp add: upt_conv_Cons map_Suc_upt del: upt_Suc)
  then show ?case using 1(1) 2 by (simp add: o_def del: upt_Suc)
qed simp

lemma demo_open_holds:
  assumes "avail no_files"
  shows "log_holds cs look avail demo_open 0 []"
proof -
  have "\<forall>n. fs_get no_files (''d'', n) \<noteq> None \<longrightarrow> segment_of_name n = None" by (simp add: fs_get_def no_files_def)
  then obtain l d where "(Open ''d'' 12 no_files :: (serr + disk slog) \<times> disk) = (Inr l, d)"
      "log_ok cs look l \<lparr>wDisk = d, wCold = no_files\<rparr> [[]]" "OldestOffset l = 0"
    using Open_fresh [of no_files "''d''" 12 cs look no_files] by (auto simp: no_files_def)
  then show ?thesis using assms by (auto simp: demo_open_def log_holds_def intro!: exI [of _ "[[]]"])
qed

lemma demo_fits: "log_fits demo_records demo_open"
proof -
  have "NextOffset (fst demo_open) = 0" by code_simp
  then show ?thesis by (simp add: log_fits_def demo_records_def)
qed

lemma demo_log_holds:
  assumes "avail no_files"
  shows "log_holds cs look avail demo_log 0 demo_records"
  using appends_holds [OF demo_open_holds demo_fits] assms by (fastforce simp: demo_log_def)

lemma demo_dir: "dir_log cd demo_open 0 []" "dir_log cd demo_log 0 demo_records"
  by (intro demo_open_holds demo_log_holds; simp add: no_files_def)+

lemma demo_log_tier:
  assumes "avail no_files"
  shows "log_holds cs look avail (EnableTiering cs (fst demo_log), snd demo_log) 0 demo_records"
  using EnableTiering_holds [of cs look avail "fst demo_log" "snd demo_log"] demo_log_holds [of avail cs look] assms by simp

lemma demo_segments: "map baseOffset (segments (fst demo_log)) = [0, 2]" "list_all (\<lambda>s. \<not> tiered s) (segments (fst demo_log))"
  "ldir (fst demo_log) = ''d''"
  by code_simp+


subsection \<open>Appending and reading\<close>

text \<open>C12: A log refines the list of its records: without disk errors a sequence of appends gets consecutive offsets from the end of the log on, over as many segments as it takes, and afterwards every offset, old and new, reads its own record.\<close>

theorem log_appends_refine:
  assumes "dir_log cd st o' rs" "log_fits ps st"
  shows "\<exists>st'. appends ps st = (map (\<lambda>i. Inr (o' + int (length rs + i))) [0..<length ps], st')
    \<and> dir_log cd st' o' (rs @ ps) \<and> (\<forall>i < length (rs @ ps). Read (o' + int i) st' = (Inr ((rs @ ps) ! i), st'))"
  using appends_holds [OF assms] local_dir.log.read_in by blast

theorem log_appends_refine_witness:
  "\<exists>st'. appends demo_records demo_open = (map (\<lambda>i. Inr (int i)) [0..<3], st') \<and> dir_log ''c'' st' 0 demo_records"
proof -
  have "length demo_records = 3" by (simp add: demo_records_def)
  then show ?thesis using log_appends_refine [OF demo_dir(1) demo_fits, of "''c''"] by auto
qed

text \<open>C29: \<^verbatim>\<open>Read\<close> is the lookup in that list: at every offset that is held it returns that record, at every other offset the error, and it changes nothing.\<close>

theorem log_Read_spec:
  assumes "dir_log cd st o' rs"
  shows "Read x st = (if o' \<le> x \<and> x < o' + int (length rs) then Inr (rs ! nat (x - o')) else Inl OffsetNotFound, st)"
proof (cases "o' \<le> x \<and> x < o' + int (length rs)")
  case True
  then have "nat (x - o') < length rs" by linarith
  from local_dir.log.read_in [OF assms this] True show ?thesis by simp
next
  case False
  obtain rss where "log_ok (LocalDirColdStore cd) (dir_look cd) (fst st) (snd st) rss" "concat rss = rs" "OldestOffset (fst st) = o'"
    using assms by (auto simp: log_holds_def)
  from Read_out [OF this(1), of x] this False NextOffset_eq [OF this(1)] show ?thesis by auto
qed

theorem log_Read_spec_witness:
  "Read 1 demo_log = (Inr [3], demo_log) \<and> Read 3 demo_log = (Inl OffsetNotFound, demo_log)
    \<and> Read (- 1) demo_log = (Inl OffsetNotFound, demo_log)"
  using log_Read_spec [OF demo_dir(2)] by (simp add: demo_records_def)

subsection \<open>Tiering, compaction, recovery\<close>

text \<open>C16: Tiering to a directory that answers succeeds, moves every segment but the active one, and leaves the log with the same records at the same offsets.\<close>

theorem log_tier_keeps_records:
  assumes "dir_log cd (l, w) o' rs" "lcold l = Some (LocalDirColdStore cd)"
  shows "\<exists>n l' w'. TierSegments (l, w) = ((n, None), l', w') \<and> (\<forall>i. Suc i < SegmentCount l' \<longrightarrow> tiered (segments l' ! i))
    \<and> dir_log cd (l', w') o' rs \<and> (\<forall>i < length rs. Read (o' + int i) (l', w') = (Inr (rs ! i), l', w'))"
  using local_dir.Tier_holds [OF assms] local_dir.log.read_in unfolding SegmentCount_def by fast

theorem log_tier_keeps_records_witness:
  "\<exists>n l' w'. TierSegments (EnableTiering (LocalDirColdStore ''c'') (fst demo_log), snd demo_log) = ((n, None), l', w')
    \<and> Read 0 (l', w') = (Inr [1, 2], l', w')"
  using log_tier_keeps_records [of "''c''" "EnableTiering (LocalDirColdStore ''c'') (fst demo_log)" "snd demo_log" 0 demo_records]
    demo_log_tier [of "\<lambda>d. faults d = []" "LocalDirColdStore ''c''" "dir_look ''c''"]
  by (force simp: demo_records_def EnableTiering_def no_files_def)

text \<open>When the upload of the first segment fails, \<^verbatim>\<open>TierSegments\<close> reports the error and leaves the log, its files and the disk exactly as they were.\<close>

theorem log_failed_upload:
  assumes "log_holds (FailingColdStore e) (\<lambda>_ _. None) (\<lambda>_. True) (l, w) o' rs"
    and "lcold l = Some (FailingColdStore e)" "1 < SegmentCount l"
  shows "TierSegments (l, w) = ((0, Some e), l, w)"
proof -
  obtain rss where ok: "log_ok (FailingColdStore e) (\<lambda>_ _. None) l w rss" using assms(1) by (auto simp: log_holds_def)
  have len: "0 < length rss" "1 < length (segments l)" using log_okD(3) [OF ok] assms(3) by (auto simp: SegmentCount_def)
  then have rep: "\<not> tiered (segments l ! 0)" "seg_rep (segments l ! 0) (wDisk w) (rss ! 0)"
    using log_okD(8) [OF ok len(1)] by (auto simp: seg_ok_def split: if_splits)
  have "tierOut (FailingColdStore e) key (segments l ! 0, w) = (Inl e, segments l ! 0, w)" for key
    using tierOut_run [OF rep(2) log_okD(1) [OF ok], of "FailingColdStore e" key "Inl e" "wCold w"]
    by (simp add: FailingColdStore_def)
  moreover have "[0..<length (segments l)] = 0 # [Suc 0..<length (segments l)]" using len(2) by (intro upt_conv_Cons) linarith
  ultimately show ?thesis using assms(2) rep(1) len(2)
    by (simp add: TierSegments_def at_seg_def del: upt_Suc)
qed

theorem log_failed_upload_witness:
  "TierSegments (EnableTiering (FailingColdStore ColdFailed) (fst demo_log), snd demo_log)
    = ((0, Some ColdFailed), EnableTiering (FailingColdStore ColdFailed) (fst demo_log), snd demo_log)"
proof -
  have "SegmentCount (fst demo_log) = 2" by code_simp
  then show ?thesis
    using log_failed_upload [of ColdFailed "EnableTiering (FailingColdStore ColdFailed) (fst demo_log)" "snd demo_log" 0 demo_records]
      demo_log_tier [of "\<lambda>_. True" "FailingColdStore ColdFailed" "\<lambda>_ _. None"] by (simp add: EnableTiering_def SegmentCount_def)
qed






subsection \<open>Crashes and errors\<close>


definition torn_disk :: disk where
  "torn_disk = fs_set (logPath ''d'' 2) ([0, 0, 0, 3, 4, 5, 6] @ [0, 0]) (wDisk (snd demo_log))"


text \<open>C14: Whatever disk calls fail during a sequence of appends, and wherever they stop writing, the records the log had before stay readable at their offsets.\<close>

theorem log_faults_keep_records:
  assumes h: "dir_log cd (l, w) o' rs" and loc: "\<forall>s \<in> set (segments l). \<not> tiered s"
    and nx: "NextOffset l + int (length ps) \<le> 2 ^ 63" and i: "i < length rs"
    and run: "appends ps (l, w\<lparr>wDisk := (wDisk w)\<lparr>faults := plan\<rparr>\<rparr>) = (res, l', w')"
  shows "fst (Read (o' + int i) (l', w'\<lparr>wDisk := (wDisk w')\<lparr>faults := []\<rparr>\<rparr>)) = Inr (rs ! i)"
proof -
  let ?d = "(wDisk w)\<lparr>faults := plan\<rparr>" and ?w = "w'\<lparr>wDisk := (wDisk w')\<lparr>faults := []\<rparr>\<rparr>"
  obtain rss where ok: "log_ok (LocalDirColdStore cd) (dir_look cd) l w rss" "concat rss = rs" "OldestOffset l = o'"
    using h by (auto simp: log_holds_def)
  have "log_shape l ?d" using log_ok_shape [OF ok(1)] by (simp add: log_shape_def file_of_def)
  moreover have "held l ?d (o' + int i) (rs ! i)"
    using log_ok_held [OF ok(1) loc, of i] ok(2,3) i by (simp add: held_def seg_holds_def)
  ultimately have "log_shape l' (wDisk w')" "held l' (wDisk w') (o' + int i) (rs ! i)"
    using appends_any [OF _ nx run] by auto
  then have "log_order l'" "held l' (wDisk ?w) (o' + int i) (rs ! i)"
    by (auto simp: held_def seg_holds_def dest: shape_order)
  from held_Read [OF this] show ?thesis by simp
qed

definition faulty :: "nat option list \<Rightarrow> disk slog \<times> disk world \<Rightarrow> disk slog \<times> disk world" where
  "faulty plan st = (fst st, (snd st)\<lparr>wDisk := (wDisk (snd st))\<lparr>faults := plan\<rparr>\<rparr>)"

theorem log_faults_keep_records_witness:
  "(case appends [[9], [8]] (faulty [None, Some 1] demo_log) of
     (res, l', w') \<Rightarrow> fst (Read 2 (l', w'\<lparr>wDisk := (wDisk w')\<lparr>faults := []\<rparr>\<rparr>)) = Inr [4, 5, 6])"
proof -
  obtain res l' w' where run: "appends [[9], [8]] (faulty [None, Some 1] demo_log) = (res, l', w')" by (metis prod_cases3)
  have "NextOffset (fst demo_log) = 3" by code_simp
  then show ?thesis
    using log_faults_keep_records [of "''c''" "fst demo_log" "snd demo_log" 0 demo_records "[[9], [8]]" 2 "[None, Some 1]" res l' w']
      run demo_dir(2) [of "''c''"] demo_segments by (simp add: list_all_iff faulty_def demo_records_def)
qed

subsection \<open>What is not kept\<close>


text \<open>After a crash that left the length of a record and only a part of it, the log reopens, but the next append is acknowledged at an offset that cannot be read.\<close>

theorem torn_record_loses_next_append:
  "(case Open ''d'' 100 (fs_set (logPath ''d'' 2) [0, 0, 0, 3, 4, 5, 6, 0, 0, 0, 5, 1] (wDisk (snd demo_log))) of
      (Inr l, d) \<Rightarrow> (case Append [7] (l, \<lparr>wDisk = d, wCold = no_files\<rparr>) of
         (r, st) \<Rightarrow> r = Inr 4 \<and> fst (Read 4 st) = Inl IoErr)
    | _ \<Rightarrow> False)"
  by code_simp

text \<open>A record of a tiered segment is readable, but not after the log is opened again, although the cold store still has it: \<^verbatim>\<open>Open\<close> finds local segments only.\<close>

theorem tiered_records_lost_on_reopen:
  "(case TierSegments (EnableTiering (LocalDirColdStore ''c'') (fst demo_log), snd demo_log) of
      (r, l, w) \<Rightarrow> r = (1, None) \<and> fst (Read 0 (l, w)) = Inr [1, 2]
        \<and> dir_look ''c'' (wCold w) (segmentName 0) \<noteq> None
        \<and> (case Open ''d'' 12 (wDisk w) of
             (Inr l', d') \<Rightarrow> fst (Read 0 (EnableTiering (LocalDirColdStore ''c'') l', w\<lparr>wDisk := d'\<rparr>)) = Inl OffsetNotFound
           | _ \<Rightarrow> False))"
  by code_simp

subsection \<open>Partitions\<close>

text \<open>A write to a partitioned log goes to one partition in range that depends on the key only, gets the next offset there, and changes the contents of no other partition.\<close>

theorem partition_append_isolated:
  assumes "pl_holds (LocalDirColdStore cd) (dir_look cd) (\<lambda>d. faults d = []) (pl, w) cont"
    and "log_fits [p] (partitions pl ! nat (PartitionFor pl key), w)"
  shows "\<exists>i pl' w'. i < length cont \<and> int i = int_of_u32 (fnv32a key) mod int (length cont)
    \<and> pl_Append key p (pl, w) = ((int i, Inr (fst (cont ! i) + int (length (snd (cont ! i))))), pl', w')
    \<and> pl_holds (LocalDirColdStore cd) (dir_look cd) (\<lambda>d. faults d = []) (pl', w')
        (cont[i := (fst (cont ! i), snd (cont ! i) @ [p])])"
proof -
  have n: "numPartitions pl = int (length cont)" "cont \<noteq> []" using assms(1) by (auto simp: pl_holds_def)
  then have "int (nat (PartitionFor pl key)) = int_of_u32 (fnv32a key) mod int (length cont)"
    using PartitionFor_range(1) [of pl key] by (simp add: PartitionFor_def)
  then show ?thesis using pl_Append_holds [OF assms] by blast
qed


definition demo_parts :: "disk plog \<times> disk world" where
  "demo_parts = (case OpenPartitioned ''p'' 2 64 no_files of
     (Inr pl, d) \<Rightarrow> (pl, \<lparr>wDisk = d, wCold = no_files\<rparr>) | (Inl _, d) \<Rightarrow> undefined)"

definition demo_cont :: "(int \<times> bytes list) list" where
  "demo_cont = [(0, []), (0, [])]"

lemma demo_parts_holds: "pl_holds (LocalDirColdStore cd) (dir_look cd) (\<lambda>d. faults d = []) demo_parts demo_cont"
proof -
  obtain pl d where "(OpenPartitioned ''p'' 2 64 no_files :: (serr + disk plog) \<times> disk) = (Inr pl, d)"
      "pl_holds (LocalDirColdStore cd) (dir_look cd) (\<lambda>d. faults d = []) (pl, \<lparr>wDisk = d, wCold = no_files\<rparr>) (replicate (nat 2) (0, []))"
    using OpenPartitioned_holds [of 2 no_files 64 "\<lambda>d. faults d = []" no_files "''p''" "LocalDirColdStore cd" "dir_look cd"]
    by (auto simp: no_files_def fs_get_def)
  then show ?thesis by (simp add: demo_parts_def demo_cont_def numeral_2_eq_2)
qed

theorem partition_append_isolated_witness:
  "\<exists>i pl' w'. i < length demo_cont \<and> int i = int_of_u32 (fnv32a [107]) mod int (length demo_cont)
    \<and> pl_Append [107] [5] (fst demo_parts, snd demo_parts)
        = ((int i, Inr (fst (demo_cont ! i) + int (length (snd (demo_cont ! i))))), pl', w')
    \<and> pl_holds (LocalDirColdStore ''c'') (dir_look ''c'') (\<lambda>d. faults d = []) (pl', w')
        (demo_cont[i := (fst (demo_cont ! i), snd (demo_cont ! i) @ [[5]])])"
proof (rule partition_append_isolated)
  show "pl_holds (LocalDirColdStore ''c'') (dir_look ''c'') (\<lambda>d. faults d = []) (fst demo_parts, snd demo_parts) demo_cont"
    unfolding prod.collapse by (rule demo_parts_holds)
  show "log_fits [[5]] (partitions (fst demo_parts) ! nat (PartitionFor (fst demo_parts) [107]), snd demo_parts)"
  proof -
    let ?i = "nat (PartitionFor (fst demo_parts) [107])"
    note h = demo_parts_holds [of "''c''"]
    have n: "numPartitions (fst demo_parts) = 2" using h by (simp add: pl_holds_def demo_cont_def)
    have "?i < 2" using PartitionFor_range [of "fst demo_parts" "[107]"] n by linarith
    then have "log_holds (LocalDirColdStore ''c'') (dir_look ''c'') (\<lambda>d. faults d = []) (partitions (fst demo_parts) ! ?i, snd demo_parts) 0 []"
      using h by (auto simp: pl_holds_def demo_cont_def less_2_cases_iff)
    then show ?thesis using NextOffset_holds by (fastforce simp: log_fits_def)
  qed
qed

end
