(* ===== verification/Doc_Store.thy ===== *)
theory Doc_Store
  imports Wire_Bytes Prelude
begin

text \<open>
  The document stores: \<^verbatim>\<open>docstore/document.go\<close>, \<^verbatim>\<open>docstore/locked_store.go\<close> and
  \<^verbatim>\<open>docstore/mvcc_store.go\<close>. A Go map is an association list with distinct keys; the
  order of the list is the order an iteration happens to take. A document is a map to
  values of a type \<open>'v\<close>, or nil. The JSON decoder of a document (\<open>unm\<close>) and the
  formatting of a field by \<^verbatim>\<open>%v\<close> (\<open>fmtv\<close>, of a missing field \<open>None\<close>) are arguments.
\<close>

subsection \<open>Documents and transactions\<close>

type_synonym 'v document = "(string \<times> 'v) list option"

definition doc_field :: "'v document \<Rightarrow> string \<Rightarrow> 'v option" where
  "doc_field doc f = (case doc of None \<Rightarrow> None | Some m \<Rightarrow> map_of m f)"

record mutation =
  mOp :: string
  mID :: string
  mData :: bytes
  mExpected :: "int option"

datatype derr = VersionMismatch int string int | InvalidData string

subsection \<open>The locked store\<close>

record 'v lstore =
  ldocs :: "(string \<times> 'v document) list"
  lversion :: "(string \<times> int) list"

definition NewLockedStore :: "'v lstore" where
  "NewLockedStore = \<lparr>ldocs = [], lversion = []\<rparr>"

text \<open>The first loop of \<^verbatim>\<open>ApplyTransaction\<close>, for both stores: \<open>ver\<close> reads a current version.\<close>

fun checkVersions :: "(string \<Rightarrow> int) \<Rightarrow> mutation list \<Rightarrow> derr option" where
  "checkVersions ver [] = None"
| "checkVersions ver (m # ms) =
     (case mExpected m of
        Some e \<Rightarrow> if ver (mID m) \<noteq> e then Some (VersionMismatch e (mID m) (ver (mID m))) else checkVersions ver ms
      | None \<Rightarrow> checkVersions ver ms)"

definition l_bump :: "string \<Rightarrow> 'v lstore \<Rightarrow> 'v lstore" where
  "l_bump k s = s\<lparr>lversion := AList.update k (gm_get 0 (lversion s) k + 1) (lversion s)\<rparr>"

fun l_commit :: "(bytes \<Rightarrow> 'v document option) \<Rightarrow> mutation list \<Rightarrow> 'v lstore \<Rightarrow> derr option \<times> 'v lstore" where
  "l_commit unm [] s = (None, s)"
| "l_commit unm (m # ms) s =
     (if mOp m = ''put'' then
        (case unm (mData m) of
           None \<Rightarrow> (Some (InvalidData (mID m)), s)
         | Some doc \<Rightarrow> l_commit unm ms (l_bump (mID m) (s\<lparr>ldocs := AList.update (mID m) doc (ldocs s)\<rparr>)))
      else if mOp m = ''delete'' then
        l_commit unm ms (l_bump (mID m) (s\<lparr>ldocs := AList.delete (mID m) (ldocs s)\<rparr>))
      else l_commit unm ms s)"

definition l_ApplyTransaction :: "(bytes \<Rightarrow> 'v document option) \<Rightarrow> mutation list \<Rightarrow> 'v lstore \<Rightarrow> derr option \<times> 'v lstore" where
  "l_ApplyTransaction unm muts s =
     (case checkVersions (gm_get 0 (lversion s)) muts of
        Some e \<Rightarrow> (Some e, s)
      | None \<Rightarrow> l_commit unm muts s)"

definition l_Get :: "'v lstore \<Rightarrow> string \<Rightarrow> 'v document option" where
  "l_Get s k = map_of (ldocs s) k"

definition l_Version :: "'v lstore \<Rightarrow> string \<Rightarrow> int" where
  "l_Version s k = gm_get 0 (lversion s) k"

subsection \<open>The multi-version store\<close>

record 'v versionedDocument =
  vVersion :: int
  vData :: "'v document"
  vCommittedAt :: int
  vDeleted :: bool

record 'v mstore =
  vchains :: "(string \<times> 'v versionedDocument list) list"
  mindex :: "(string \<times> string list) list"
  indexField :: string
  commitIdx :: int

definition NewMVCCStore :: "string \<Rightarrow> 'v mstore" where
  "NewMVCCStore f = \<lparr>vchains = [], mindex = [], indexField = f, commitIdx = 0\<rparr>"

abbreviation chain_of :: "'v mstore \<Rightarrow> string \<Rightarrow> 'v versionedDocument list" where
  "chain_of s k \<equiv> gm_get [] (vchains s) k"

definition latestVersion :: "'v mstore \<Rightarrow> string \<Rightarrow> int" where
  "latestVersion s k = (if chain_of s k = [] then 0 else vVersion (last (chain_of s k)))"

definition addVersion :: "string \<Rightarrow> 'v versionedDocument \<Rightarrow> 'v mstore \<Rightarrow> 'v mstore" where
  "addVersion k v s = s\<lparr>vchains := AList.update k (chain_of s k @ [v]) (vchains s)\<rparr>"

definition addIndex :: "('v option \<Rightarrow> string) \<Rightarrow> string \<Rightarrow> 'v document \<Rightarrow> 'v mstore \<Rightarrow> 'v mstore" where
  "addIndex fmtv k doc s =
     (if indexField s \<noteq> [] then
        (case doc_field doc (indexField s) of
           Some val \<Rightarrow> let key = fmtv (Some val) in s\<lparr>mindex := AList.update key (gm_get [] (mindex s) key @ [k]) (mindex s)\<rparr>
         | None \<Rightarrow> s)
      else s)"

fun m_commit :: "(bytes \<Rightarrow> 'v document option) \<Rightarrow> ('v option \<Rightarrow> string) \<Rightarrow> int \<Rightarrow> mutation list \<Rightarrow> 'v mstore \<Rightarrow>
    derr option \<times> 'v mstore" where
  "m_commit unm fmtv raftIndex [] s = (None, s)"
| "m_commit unm fmtv raftIndex (m # ms) s =
     (if mOp m = ''put'' then
        (case unm (mData m) of
           None \<Rightarrow> (Some (InvalidData (mID m)), s)
         | Some doc \<Rightarrow> m_commit unm fmtv raftIndex ms (addIndex fmtv (mID m) doc
             (addVersion (mID m) \<lparr>vVersion = latestVersion s (mID m) + 1, vData = doc, vCommittedAt = raftIndex, vDeleted = False\<rparr> s)))
      else if mOp m = ''delete'' then
        m_commit unm fmtv raftIndex ms
          (addVersion (mID m) \<lparr>vVersion = latestVersion s (mID m) + 1, vData = None, vCommittedAt = raftIndex, vDeleted = True\<rparr> s)
      else m_commit unm fmtv raftIndex ms s)"

definition ApplyTransaction :: "(bytes \<Rightarrow> 'v document option) \<Rightarrow> ('v option \<Rightarrow> string) \<Rightarrow> mutation list \<Rightarrow> int \<Rightarrow>
    'v mstore \<Rightarrow> derr option \<times> 'v mstore" where
  "ApplyTransaction unm fmtv muts raftIndex s =
     (case checkVersions (latestVersion s) muts of
        Some e \<Rightarrow> (Some e, s)
      | None \<Rightarrow>
          (case m_commit unm fmtv raftIndex muts s of
             (Some e, s') \<Rightarrow> (Some e, s')
           | (None, s') \<Rightarrow> (None, s'\<lparr>commitIdx := raftIndex\<rparr>)))"

text \<open>The inner loop of \<^verbatim>\<open>GCBefore\<close>, which stops at the first later version.\<close>

fun keepFrom :: "int \<Rightarrow> nat \<Rightarrow> nat \<Rightarrow> 'v versionedDocument list \<Rightarrow> nat" where
  "keepFrom raftIndex i keep [] = keep"
| "keepFrom raftIndex i keep (v # vs) =
     (if vCommittedAt v \<le> raftIndex then keepFrom raftIndex (i + 1) i vs else keep)"

definition GCBefore :: "int \<Rightarrow> 'v mstore \<Rightarrow> 'v mstore" where
  "GCBefore raftIndex s = s\<lparr>vchains := map (\<lambda>(k, chain).
     let n = keepFrom raftIndex 0 0 chain in (k, if n > 0 then drop n chain else chain)) (vchains s)\<rparr>"

text \<open>A snapshot is its pinned index; it reads the store as it is at the time of the read.\<close>

definition Snapshot :: "'v mstore \<Rightarrow> int" where
  "Snapshot s = commitIdx s"

definition chain_at :: "'v versionedDocument list \<Rightarrow> int \<Rightarrow> 'v document option" where
  "chain_at chain at =
     (let idx = int (sort_Search (length chain) (\<lambda>i. vCommittedAt (chain ! i) > at)) - 1 in
      if idx < 0 \<or> vDeleted (chain ! nat idx) then None else Some (vData (chain ! nat idx)))"

definition snap_Get :: "'v mstore \<Rightarrow> int \<Rightarrow> string \<Rightarrow> 'v document option" where
  "snap_Get s at k = chain_at (chain_of s k) at"

text \<open>
  The loops of \<^verbatim>\<open>QueryByIndex\<close> and \<^verbatim>\<open>Scan\<close> take the lock for each document anew: \<open>st n\<close> is
  the store the \<open>n\<close>-th of these reads sees.
\<close>

fun queryLoop :: "('v option \<Rightarrow> string) \<Rightarrow> (nat \<Rightarrow> 'v mstore) \<Rightarrow> nat \<Rightarrow> int \<Rightarrow> string \<Rightarrow> string list \<Rightarrow> string list \<Rightarrow> string list" where
  "queryLoop fmtv st n at val seen [] = []"
| "queryLoop fmtv st n at val seen (k # ids) =
     (if k \<in> set seen then queryLoop fmtv st n at val seen ids
      else (case snap_Get (st n) at k of
              None \<Rightarrow> queryLoop fmtv st (n + 1) at val (k # seen) ids
            | Some doc \<Rightarrow>
                if fmtv (doc_field doc (indexField (st n))) = val
                then k # queryLoop fmtv st (n + 1) at val (k # seen) ids
                else queryLoop fmtv st (n + 1) at val (k # seen) ids))"

definition QueryByIndex :: "('v option \<Rightarrow> string) \<Rightarrow> 'v mstore \<Rightarrow> (nat \<Rightarrow> 'v mstore) \<Rightarrow> int \<Rightarrow> string \<Rightarrow> string list" where
  "QueryByIndex fmtv s st at val = queryLoop fmtv st 0 at val [] (gm_get [] (mindex s) val)"

fun scanLoop :: "(nat \<Rightarrow> 'v mstore) \<Rightarrow> nat \<Rightarrow> int \<Rightarrow> string list \<Rightarrow> string list" where
  "scanLoop st n at [] = []"
| "scanLoop st n at (k # ids) =
     (if snap_Get (st n) at k \<noteq> None then k # scanLoop st (n + 1) at ids else scanLoop st (n + 1) at ids)"

definition Scan :: "'v mstore \<Rightarrow> (nat \<Rightarrow> 'v mstore) \<Rightarrow> int \<Rightarrow> string list" where
  "Scan s st at = scanLoop st 0 at (map fst (vchains s))"


subsection \<open>Maps and vchains\<close>

lemma add_simps [simp]:
  "chain_of (addVersion k v s) k' = (if k' = k then chain_of s k @ [v] else chain_of s k')"
  "indexField (addVersion k v s) = indexField s" "commitIdx (addVersion k v s) = commitIdx s"
  "mindex (addVersion k v s) = mindex s" "vchains (addIndex fmtv k doc s) = vchains s"
  "indexField (addIndex fmtv k doc s) = indexField s" "commitIdx (addIndex fmtv k doc s) = commitIdx s"
  by (simp_all add: addVersion_def addIndex_def Let_def split: option.splits)

lemma addVersion_keys: "distinct (map fst (vchains s)) \<Longrightarrow> distinct (map fst (vchains (addVersion k v s)))"
  by (simp add: addVersion_def distinct_update)

text \<open>The document the last of some versions stands for.\<close>

definition doc_of :: "'v versionedDocument list \<Rightarrow> 'v document option" where
  "doc_of vs = (if vs = [] \<or> vDeleted (last vs) then None else Some (vData (last vs)))"

lemma doc_of_snoc [simp]: "doc_of (vs @ [v]) = (if vDeleted v then None else Some (vData v))"
  by (simp add: doc_of_def)

lemma doc_of_single [simp]: "doc_of [v] = (if vDeleted v then None else Some (vData v))"
  by (simp add: doc_of_def)

text \<open>The binary search of \<^verbatim>\<open>Get\<close> finds the last version committed at or before the snapshot.\<close>

lemma sorted_split:
  assumes "sorted (map f xs)"
  obtains ys zs where "xs = ys @ zs" "filter (\<lambda>x. f x \<le> (b :: int)) xs = ys" "\<forall>y \<in> set ys. f y \<le> b" "\<forall>z \<in> set zs. b < f z"
proof -
  let ?P = "\<lambda>x. f x \<le> b"
  have "sorted (map f (dropWhile ?P xs))"
    using assms by (metis map_append sorted_append takeWhile_dropWhile_id)
  then have gt: "b < f z" if "z \<in> set (dropWhile ?P xs)" for z
  proof (cases "dropWhile ?P xs")
    case Nil
    show ?thesis using that unfolding Nil by simp
  next
    case (Cons y ys)
    then have "b < f y" by (metis hd_dropWhile linorder_not_le list.distinct(1) list.sel(1))
    moreover have "f y \<le> f z" using \<open>sorted (map f (dropWhile ?P xs))\<close> Cons that by auto
    ultimately show ?thesis by simp
  qed
  have le: "f y \<le> b" if "y \<in> set (takeWhile ?P xs)" for y using set_takeWhileD [OF that] by simp
  have "filter ?P (takeWhile ?P xs) = takeWhile ?P xs" using le by (intro filter_True) blast
  moreover have "filter ?P (dropWhile ?P xs) = []" using gt by (intro filter_False) force
  ultimately have "filter ?P (takeWhile ?P xs @ dropWhile ?P xs) = takeWhile ?P xs" by (simp only: filter_append append_Nil2)
  then have "filter ?P xs = takeWhile ?P xs" by (simp only: takeWhile_dropWhile_id)
  then show ?thesis by (rule that [OF takeWhile_dropWhile_id [symmetric]]) (use gt le in blast)+
qed

lemma chain_at_eq:
  assumes "sorted (map vCommittedAt chain)"
  shows "chain_at chain at = doc_of (filter (\<lambda>v. vCommittedAt v \<le> at) chain)"
proof -
  obtain ys zs where s: "chain = ys @ zs" "filter (\<lambda>v. vCommittedAt v \<le> at) chain = ys"
      "\<forall>y \<in> set ys. vCommittedAt y \<le> at" "\<forall>z \<in> set zs. at < vCommittedAt z"
    using sorted_split [OF assms, of at] .
  have nth: "vCommittedAt (chain ! i) > at \<longleftrightarrow> length ys \<le> i" if "i < length chain" for i
  proof (cases "i < length ys")
    case True
    then have "chain ! i \<in> set ys" using s(1) by (simp add: nth_append)
    then show ?thesis using s(3) True by (metis linorder_not_le)
  next
    case False
    then have "chain ! i \<in> set zs" using s(1) that by (simp add: nth_append)
    then show ?thesis using s(4) False by simp
  qed
  have "sort_Search (length chain) (\<lambda>i. vCommittedAt (chain ! i) > at) = length ys"
    using nth s(1) by (intro sort_Search_eqI) auto
  then show ?thesis
  proof (cases ys rule: rev_cases)
    case (snoc ys' y)
    then have "chain ! length ys' = y" using s(1) by (simp add: nth_append)
    then show ?thesis
      using snoc \<open>sort_Search _ _ = length ys\<close> s(2) by (simp add: chain_at_def doc_of_def Let_def)
  qed (use s(2) in \<open>simp add: chain_at_def doc_of_def\<close>)
qed

subsection \<open>The invariant of the multi-version store\<close>

text \<open>
  With \<open>b\<close> a bound of all commit indices: chains grow in commit order with consecutive
  versions, and the index has every value a document ever had.
\<close>

definition chain_ok :: "int \<Rightarrow> 'v versionedDocument list \<Rightarrow> bool" where
  "chain_ok b c \<longleftrightarrow> sorted (map vCommittedAt c) \<and> (\<forall>v \<in> set c. vCommittedAt v \<le> b)
     \<and> (\<forall>i < length c. vVersion (c ! i) = vVersion (hd c) + int i \<and> 1 \<le> vVersion (c ! i))"

definition index_ok :: "('v option \<Rightarrow> string) \<Rightarrow> 'v mstore \<Rightarrow> bool" where
  "index_ok fmtv s \<longleftrightarrow> (indexField s \<noteq> [] \<longrightarrow> (\<forall>k. \<forall>v \<in> set (chain_of s k). \<not> vDeleted v \<longrightarrow>
     (\<forall>val. doc_field (vData v) (indexField s) = Some val \<longrightarrow> k \<in> set (gm_get [] (mindex s) (fmtv (Some val))))))"

definition mv_ok :: "('v option \<Rightarrow> string) \<Rightarrow> int \<Rightarrow> 'v mstore \<Rightarrow> bool" where
  "mv_ok fmtv b s \<longleftrightarrow> distinct (map fst (vchains s)) \<and> commitIdx s \<le> b \<and> (\<forall>k. chain_ok b (chain_of s k)) \<and> index_ok fmtv s"

lemma NewMVCCStore_ok: "mv_ok fmtv 0 (NewMVCCStore f)"
  by (simp add: mv_ok_def NewMVCCStore_def chain_ok_def index_ok_def gm_get_def)

lemma chain_ok_ver:
  assumes "chain_ok b c" "i < length c"
  shows "vVersion (c ! i) = vVersion (hd c) + int i" "1 \<le> vVersion (c ! i)"
  using assms unfolding chain_ok_def by blast+

lemma chain_ok_snoc:
  assumes "chain_ok b c" "b \<le> r" "vCommittedAt v = r" "vVersion v = (if c = [] then 0 else vVersion (last c)) + 1"
  shows "chain_ok r (c @ [v])"
proof (cases "c = []")
  case False
  note vs = chain_ok_ver [OF assms(1)]
  have "vVersion (last c) = vVersion (hd c) + int (length c - 1)" "1 \<le> vVersion (last c)"
    using vs [of "length c - 1"] False by (simp_all add: last_conv_nth)
  then have "vVersion ((c @ [v]) ! i) = vVersion (hd (c @ [v])) + int i \<and> 1 \<le> vVersion ((c @ [v]) ! i)"
    if "i < length (c @ [v])" for i
    using that vs [of i] assms(4) False by (cases "i < length c") (auto simp: nth_append less_Suc_eq of_nat_diff Suc_le_eq)
  moreover have "sorted (map vCommittedAt (c @ [v]))" "\<forall>u \<in> set (c @ [v]). vCommittedAt u \<le> r"
    using assms(1-3) unfolding chain_ok_def by (auto simp: sorted_append)
  ultimately show ?thesis unfolding chain_ok_def by blast
qed (use assms in \<open>simp add: chain_ok_def\<close>)

lemma chain_ok_mono: "chain_ok b c \<Longrightarrow> b \<le> b' \<Longrightarrow> chain_ok b' c"
  by (fastforce simp: chain_ok_def)


text \<open>A store that has grown by versions committed at \<open>r\<close>.\<close>

definition grown :: "int \<Rightarrow> 'v mstore \<Rightarrow> 'v mstore \<Rightarrow> bool" where
  "grown r s s' \<longleftrightarrow> indexField s' = indexField s
     \<and> (\<forall>k. \<exists>vs. chain_of s' k = chain_of s k @ vs \<and> (\<forall>v \<in> set vs. vCommittedAt v = r))
     \<and> (\<forall>key. set (gm_get [] (mindex s) key) \<subseteq> set (gm_get [] (mindex s') key))"

lemma grown_refl: "grown r s s"
  unfolding grown_def by (auto intro: exI [of _ "[]"])

lemma grown_trans:
  assumes "grown r a b" "grown r b c"
  shows "grown r a c"
  unfolding grown_def
proof (intro conjI allI)
  fix k
  obtain vs where "chain_of b k = chain_of a k @ vs" "\<forall>v \<in> set vs. vCommittedAt v = r" using assms(1) unfolding grown_def by blast
  moreover obtain us where "chain_of c k = chain_of b k @ us" "\<forall>v \<in> set us. vCommittedAt v = r" using assms(2) unfolding grown_def by blast
  ultimately show "\<exists>vs. chain_of c k = chain_of a k @ vs \<and> (\<forall>v \<in> set vs. vCommittedAt v = r)"
    by (intro exI [of _ "vs @ us"]) auto
next
  show "indexField c = indexField a" using assms by (simp add: grown_def)
  show "set (gm_get [] (mindex a) key) \<subseteq> set (gm_get [] (mindex c) key)" for key
    using assms unfolding grown_def by (meson order_trans)
qed

lemma grown_addVersion: "vCommittedAt v = r \<Longrightarrow> grown r s (addVersion k v s)"
  unfolding grown_def by (auto intro: exI [of _ "[]"] exI [of _ "[v]"])

lemma mindex_addIndex:
  "set (gm_get [] (mindex s) key) \<subseteq> set (gm_get [] (mindex (addIndex fmtv k doc s)) key)"
  by (auto simp: addIndex_def Let_def split: option.splits)

lemma grown_addIndex: "grown r s (addIndex fmtv k doc s)"
  unfolding grown_def by (intro conjI allI mindex_addIndex) (auto intro: exI [of _ "[]"])

text \<open>One mutation of the second loop keeps the invariant.\<close>

lemma addVersion_ok:
  assumes ok: "mv_ok fmtv b s" and br: "b \<le> r" and v: "vCommittedAt v = r" "vVersion v = latestVersion s k + 1"
    and ix: "\<And>val. \<not> vDeleted v \<Longrightarrow> indexField s \<noteq> [] \<Longrightarrow> doc_field (vData v) (indexField s) = Some val \<Longrightarrow>
      k \<in> set (gm_get [] (mindex s') (fmtv (Some val)))"
    and s': "vchains s' = vchains (addVersion k v s)" "indexField s' = indexField s" "commitIdx s' = commitIdx s"
      "\<And>key. set (gm_get [] (mindex s) key) \<subseteq> set (gm_get [] (mindex s') key)"
  shows "mv_ok fmtv r s'"
  unfolding mv_ok_def
proof (intro conjI allI)
  have ch: "chain_of s' k' = (if k' = k then chain_of s k @ [v] else chain_of s k')" for k'
    using add_simps(1) [of k v s k'] s'(1) by simp
  show "distinct (map fst (vchains s'))" using ok addVersion_keys s'(1) by (auto simp: mv_ok_def)
  show "commitIdx s' \<le> r" using ok br s'(3) by (simp add: mv_ok_def)
  show "chain_ok r (chain_of s' k')" for k'
    using ok br v chain_ok_snoc [of b "chain_of s k" r v] chain_ok_mono [of b "chain_of s k'" r]
    by (simp add: ch mv_ok_def latestVersion_def)
  have old: "k' \<in> set (gm_get [] (mindex s') (fmtv (Some val)))"
    if "indexField s \<noteq> []" "u \<in> set (chain_of s k')" "\<not> vDeleted u" "doc_field (vData u) (indexField s) = Some val" for k' u val
    using ok that s'(4) unfolding mv_ok_def index_ok_def by blast
  then show "index_ok fmtv s'" using ix unfolding index_ok_def ch s'(2) by (auto split: if_splits)
qed

lemma m_commit_ok:
  assumes "mv_ok fmtv b s" "b \<le> r" "m_commit unm fmtv r muts s = (e, s')"
  shows "mv_ok fmtv r s' \<and> grown r s s' \<and> commitIdx s' = commitIdx s"
  using assms
proof (induction muts arbitrary: b s)
  case Nil
  then show ?case using chain_ok_mono by (fastforce simp: grown_refl mv_ok_def)
next
  case (Cons m muts)
  let ?put = "\<lambda>doc. \<lparr>vVersion = latestVersion s (mID m) + 1, vData = doc, vCommittedAt = r, vDeleted = False\<rparr>"
  let ?del = "\<lparr>vVersion = latestVersion s (mID m) + 1, vData = None, vCommittedAt = r, vDeleted = True\<rparr>"
  have step: "mv_ok fmtv r s' \<and> grown r s s' \<and> commitIdx s' = commitIdx s"
    if "mv_ok fmtv r s1" "grown r s s1" "commitIdx s1 = commitIdx s" "m_commit unm fmtv r muts s1 = (e, s')" for s1
    using Cons.IH [OF that(1) order_refl that(4)] grown_trans [OF that(2)] that(3) by simp
  consider (put) doc where "mOp m = ''put''" "unm (mData m) = Some doc" | (bad) "mOp m = ''put''" "unm (mData m) = None"
    | (del) "mOp m = ''delete''" | (no) "mOp m \<noteq> ''put''" "mOp m \<noteq> ''delete''" by (cases "unm (mData m)") auto
  then show ?case
  proof cases
    case put
    let ?s1 = "addIndex fmtv (mID m) doc (addVersion (mID m) (?put doc) s)"
    have "mv_ok fmtv r ?s1"
      by (rule addVersion_ok [OF Cons.prems(1,2), of "?put doc" "mID m"]) (auto simp: addIndex_def Let_def split: option.splits)
    moreover have "grown r s ?s1" by (rule grown_trans [OF grown_addVersion grown_addIndex]) simp
    ultimately show ?thesis using step [of ?s1] Cons.prems(3) put by simp
  next
    case bad
    then show ?thesis using Cons.prems chain_ok_mono by (fastforce simp: grown_refl mv_ok_def)
  next
    case del
    have "mv_ok fmtv r (addVersion (mID m) ?del s)"
      by (rule addVersion_ok [OF Cons.prems(1,2), of ?del "mID m"]) auto
    moreover have "grown r s (addVersion (mID m) ?del s)" by (rule grown_addVersion) simp
    ultimately show ?thesis using step [of "addVersion (mID m) ?del s"] Cons.prems(3) del by simp
  next
    case no
    then show ?thesis using Cons.IH [OF Cons.prems(1,2)] Cons.prems(3) by simp
  qed
qed

lemma ApplyTransaction_ok:
  assumes ok: "mv_ok fmtv b s" and br: "b \<le> r" and run: "ApplyTransaction unm fmtv muts r s = (e, s')"
  shows "mv_ok fmtv r s'" "grown r s s'" "e = None \<Longrightarrow> commitIdx s' = r"
    "checkVersions (latestVersion s) muts \<noteq> None \<Longrightarrow> e = checkVersions (latestVersion s) muts \<and> s' = s"
proof -
  have mono: "mv_ok fmtv r s" using ok br chain_ok_mono by (fastforce simp: mv_ok_def)
  have "mv_ok fmtv r s' \<and> grown r s s' \<and> (e = None \<longrightarrow> commitIdx s' = r)"
  proof (cases "checkVersions (latestVersion s) muts")
    case None
    obtain e1 s1 where 1: "m_commit unm fmtv r muts s = (e1, s1)" by (cases "m_commit unm fmtv r muts s")
    note c = m_commit_ok [OF ok br 1]
    have "mv_ok fmtv r (s1\<lparr>commitIdx := r\<rparr>)" "grown r s (s1\<lparr>commitIdx := r\<rparr>)"
      using c by (auto simp: mv_ok_def index_ok_def grown_def)
    then show ?thesis using run None 1 c by (auto simp: ApplyTransaction_def split: option.splits)
  next
    case (Some a)
    then show ?thesis using run mono by (auto simp: ApplyTransaction_def grown_refl)
  qed
  then show "mv_ok fmtv r s'" "grown r s s'" "e = None \<Longrightarrow> commitIdx s' = r" by auto
  show "checkVersions (latestVersion s) muts \<noteq> None \<Longrightarrow> e = checkVersions (latestVersion s) muts \<and> s' = s"
    using run by (auto simp: ApplyTransaction_def)
qed


subsection \<open>Snapshots\<close>

lemma snap_Get_eq:
  assumes "mv_ok fmtv b s"
  shows "snap_Get s at k = doc_of (filter (\<lambda>v. vCommittedAt v \<le> at) (chain_of s k))"
  using assms chain_at_eq [of "chain_of s k" at] by (simp add: snap_Get_def mv_ok_def chain_ok_def)

lemma snap_grown:
  assumes "mv_ok fmtv b s" "mv_ok fmtv b' s'" "grown r s s'" "at < r"
  shows "snap_Get s' at k = snap_Get s at k"
proof -
  obtain vs where vs: "chain_of s' k = chain_of s k @ vs" "\<forall>v \<in> set vs. vCommittedAt v = r"
    using assms(3) unfolding grown_def by blast
  then have "filter (\<lambda>v. vCommittedAt v \<le> at) vs = []" using assms(4) by (auto simp: filter_empty_conv)
  then show ?thesis using vs(1) by (simp add: snap_Get_eq [OF assms(1)] snap_Get_eq [OF assms(2)])
qed

text \<open>Garbage collection.\<close>

lemma keepFrom_eq:
  "keepFrom r i keep c = (let m = length (takeWhile (\<lambda>v. vCommittedAt v \<le> r) c) in if m = 0 then keep else i + m - 1)"
  by (induction c arbitrary: i keep) (auto simp: Let_def)

abbreviation gc_chain :: "int \<Rightarrow> 'v versionedDocument list \<Rightarrow> 'v versionedDocument list" where
  "gc_chain r c \<equiv> drop (keepFrom r 0 0 c) c"

lemma gc_chain_of:
  assumes "distinct (map fst (vchains s))"
  shows "chain_of (GCBefore r s) k = gc_chain r (chain_of s k)"
proof -
  have "vchains (GCBefore r s) = map (\<lambda>(k, c). (k, gc_chain r c)) (vchains s)"
    by (auto simp: GCBefore_def Let_def)
  then show ?thesis using gm_get_map [OF _ assms, of "gc_chain r" "[]" k] by simp
qed

lemma gc_split:
  assumes "sorted (map vCommittedAt c)"
  obtains "gc_chain r c = c" | ys y zs where "c = ys @ y # zs" "gc_chain r c = y # zs" "vCommittedAt y \<le> r"
proof -
  let ?P = "\<lambda>v. vCommittedAt v \<le> r"
  show ?thesis
  proof (cases "takeWhile ?P c" rule: rev_cases)
    case Nil
    then show ?thesis using that(1) by (simp add: keepFrom_eq)
  next
    case (snoc ys y)
    have c: "c = ys @ y # dropWhile ?P c" using takeWhile_dropWhile_id [of ?P c] snoc by simp
    have "gc_chain r c = drop (length ys) c" using snoc by (simp add: keepFrom_eq Let_def)
    also have "\<dots> = y # dropWhile ?P c" by (subst c) simp
    finally show ?thesis
      using that(2) [OF c] set_takeWhileD [of y ?P c] snoc by simp
  qed
qed

lemma gc_doc:
  assumes "sorted (map vCommittedAt c)" "r \<le> at"
  shows "doc_of (filter (\<lambda>v. vCommittedAt v \<le> at) (gc_chain r c)) = doc_of (filter (\<lambda>v. vCommittedAt v \<le> at) c)"
proof -
  from assms(1) show ?thesis
  proof (rule gc_split [of c r])
    fix ys y zs assume "c = ys @ y # zs" "gc_chain r c = y # zs" "vCommittedAt y \<le> r"
    then show ?thesis using assms(2) by (simp add: doc_of_def)
  qed simp
qed

lemma GCBefore_ok:
  assumes ok: "mv_ok fmtv b s"
  shows "mv_ok fmtv b (GCBefore r s)"
proof -
  have d: "distinct (map fst (vchains s))" using ok by (simp add: mv_ok_def)
  have sub: "set (gc_chain r c) \<subseteq> set c" for c :: "'a versionedDocument list" by (rule set_drop_subset)
  have ver: "vVersion (drop n c ! i) = vVersion (hd (drop n c)) + int i \<and> 1 \<le> vVersion (drop n c ! i)"
    if "chain_ok b c" "i < length (drop n c)" for c :: "'a versionedDocument list" and n i
  proof -
    have "n + i < length c" "n < length c" using that(2) by auto
    then show ?thesis using chain_ok_ver [OF that(1), of "n + i"] chain_ok_ver [OF that(1), of n] by (simp add: hd_drop_conv_nth)
  qed
  have "chain_ok b (gc_chain r c)" if "chain_ok b c" for c :: "'a versionedDocument list"
    unfolding chain_ok_def
  proof (intro conjI)
    show "sorted (map vCommittedAt (gc_chain r c))" using that unfolding chain_ok_def drop_map [symmetric] by (simp add: sorted_wrt_drop)
    show "\<forall>v \<in> set (gc_chain r c). vCommittedAt v \<le> b" using sub that unfolding chain_ok_def by blast
  qed (use ver [OF that] in blast)
  then have "\<forall>k. chain_ok b (chain_of (GCBefore r s) k)" using ok unfolding gc_chain_of [OF d] mv_ok_def by blast
  moreover have "index_ok fmtv (GCBefore r s)"
    using ok sub unfolding mv_ok_def index_ok_def gc_chain_of [OF d] by (simp add: GCBefore_def) blast
  moreover have "map fst (vchains (GCBefore r s)) = map fst (vchains s)" by (auto simp: GCBefore_def Let_def)
  moreover have "commitIdx (GCBefore r s) = commitIdx s" by (simp add: GCBefore_def)
  ultimately show ?thesis using ok unfolding mv_ok_def by simp
qed

lemma snap_GC:
  assumes ok: "mv_ok fmtv b s" and r: "r \<le> at"
  shows "snap_Get (GCBefore r s) at k = snap_Get s at k"
proof -
  have "distinct (map fst (vchains s))" "sorted (map vCommittedAt (chain_of s k))" using ok by (auto simp: mv_ok_def chain_ok_def)
  then show ?thesis
    using gc_doc [OF _ r] by (simp add: snap_Get_eq [OF ok] snap_Get_eq [OF GCBefore_ok [OF ok]] gc_chain_of)
qed

text \<open>
  The stores a reader with a snapshot at \<open>at\<close> may find later: transactions with later
  indices have been applied, or rejected, and versions before \<open>at\<close> collected.
\<close>

inductive later :: "(bytes \<Rightarrow> 'v document option) \<Rightarrow> ('v option \<Rightarrow> string) \<Rightarrow> int \<Rightarrow> int \<times> 'v mstore \<Rightarrow> int \<times> 'v mstore \<Rightarrow> bool"
  for unm fmtv at p where
  later_refl: "later unm fmtv at p p"
| later_tx: "later unm fmtv at p (b, s) \<Longrightarrow> b < r \<Longrightarrow> at < r \<Longrightarrow> ApplyTransaction unm fmtv muts r s = (e, s') \<Longrightarrow>
    later unm fmtv at p (r, s')"
| later_gc: "later unm fmtv at p (b, s) \<Longrightarrow> r \<le> at \<Longrightarrow> later unm fmtv at p (b, GCBefore r s)"

lemma later_ok:
  assumes "later unm fmtv at p q" "mv_ok fmtv (fst p) (snd p)"
  shows "mv_ok fmtv (fst q) (snd q) \<and> indexField (snd q) = indexField (snd p) \<and> (\<forall>k. snap_Get (snd q) at k = snap_Get (snd p) at k)"
  using assms
proof (induction rule: later.induct)
  case (later_tx b s r muts e s')
  note ok = later_tx.IH [OF later_tx.prems]
  have t: "mv_ok fmtv r s'" "grown r s s'" using ApplyTransaction_ok(1,2) [OF _ _ later_tx.hyps(4)] ok later_tx.hyps(2) by auto
  then show ?case using ok snap_grown [OF _ t later_tx.hyps(3)] by (auto simp: grown_def)
next
  case (later_gc b s r)
  then have ok: "mv_ok fmtv b s" by simp
  then show ?case using later_gc snap_GC [OF ok later_gc.hyps(2)] GCBefore_ok [OF ok] by (simp add: GCBefore_def)
qed simp


subsection \<open>Queries\<close>

lemma queryLoop_spec:
  assumes "\<And>n k. snap_Get (st n) at k = G k" "\<And>n. indexField (st n) = f"
  shows "set (queryLoop fmtv st n at val seen ks) = {k \<in> set ks - set seen. \<exists>doc. G k = Some doc \<and> fmtv (doc_field doc f) = val}
    \<and> distinct (queryLoop fmtv st n at val seen ks)"
  by (induction ks arbitrary: n seen) (auto simp: assms split: option.splits)

lemma scanLoop_eq:
  assumes "\<And>n k. snap_Get (st n) at k = G k"
  shows "scanLoop st n at ks = filter (\<lambda>k. G k \<noteq> None) ks"
  by (induction ks arbitrary: n) (simp_all add: assms)

lemma visible_indexed:
  assumes ok: "mv_ok fmtv b s" and f: "indexField s \<noteq> []" and g: "snap_Get s at k = Some doc"
    and v: "doc_field doc (indexField s) = Some x"
  shows "k \<in> set (gm_get [] (mindex s) (fmtv (Some x)))"
proof -
  let ?vs = "filter (\<lambda>v. vCommittedAt v \<le> at) (chain_of s k)"
  have "?vs \<noteq> []" "\<not> vDeleted (last ?vs)" "vData (last ?vs) = doc"
    using g by (auto simp: snap_Get_eq [OF ok] doc_of_def split: if_splits)
  moreover from this have "last ?vs \<in> set (chain_of s k)" using last_in_set [of ?vs] by auto
  ultimately show ?thesis using ok f v unfolding mv_ok_def index_ok_def by blast
qed

subsection \<open>The two stores agree\<close>

definition agree :: "'v lstore \<Rightarrow> 'v mstore \<Rightarrow> bool" where
  "agree ls ms \<longleftrightarrow> (\<forall>k. l_Get ls k = doc_of (chain_of ms k) \<and> l_Version ls k = latestVersion ms k)"

lemma agree_new: "agree NewLockedStore (NewMVCCStore f)"
  by (simp add: agree_def NewLockedStore_def NewMVCCStore_def l_Get_def l_Version_def latestVersion_def gm_get_def doc_of_def)

lemma agree_step:
  assumes a: "agree ls ms"
    and l: "\<And>k'. map_of (ldocs ls') k' = (if k' = k then (if vDeleted v then None else Some (vData v)) else map_of (ldocs ls) k')"
      "lversion ls' = AList.update k (gm_get 0 (lversion ls) k + 1) (lversion ls)"
    and m: "vchains ms' = vchains (addVersion k v ms)" "vVersion v = latestVersion ms k + 1"
  shows "agree ls' ms'"
proof -
  have ch: "chain_of ms' k' = (if k' = k then chain_of ms k @ [v] else chain_of ms k')" for k'
    using add_simps(1) [of k v ms k'] m(1) by simp
  have "l_Version ls k = latestVersion ms k" using a by (simp add: agree_def)
  then show ?thesis
    using a l m(2) unfolding agree_def by (simp add: l_Get_def l_Version_def latestVersion_def ch)
qed

lemma commit_agree:
  assumes "agree ls ms" "l_commit unm muts ls = (e, ls')" "m_commit unm fmtv r muts ms = (e', ms')"
  shows "e = e' \<and> agree ls' ms'"
  using assms
proof (induction muts arbitrary: ls ms)
  case (Cons m muts)
  let ?put = "\<lambda>doc. \<lparr>vVersion = latestVersion ms (mID m) + 1, vData = doc, vCommittedAt = r, vDeleted = False\<rparr>"
  let ?del = "\<lparr>vVersion = latestVersion ms (mID m) + 1, vData = None, vCommittedAt = r, vDeleted = True\<rparr>"
  consider (put) doc where "mOp m = ''put''" "unm (mData m) = Some doc" | (bad) "mOp m = ''put''" "unm (mData m) = None"
    | (del) "mOp m = ''delete''" | (no) "mOp m \<noteq> ''put''" "mOp m \<noteq> ''delete''" by (cases "unm (mData m)") auto
  then show ?case
  proof cases
    case put
    have "agree (l_bump (mID m) (ls\<lparr>ldocs := AList.update (mID m) doc (ldocs ls)\<rparr>))
        (addIndex fmtv (mID m) doc (addVersion (mID m) (?put doc) ms))"
      by (rule agree_step [OF Cons.prems(1), where v = "?put doc" and k = "mID m"]) (simp_all add: l_bump_def update_conv')
    from Cons.IH [OF this] show ?thesis using Cons.prems(2,3) put by simp
  next
    case del
    have "agree (l_bump (mID m) (ls\<lparr>ldocs := AList.delete (mID m) (ldocs ls)\<rparr>)) (addVersion (mID m) ?del ms)"
      by (rule agree_step [OF Cons.prems(1), where v = ?del and k = "mID m"]) (simp_all add: l_bump_def delete_conv')
    from Cons.IH [OF this] show ?thesis using Cons.prems(2,3) del by simp
  qed (use Cons in auto)
qed simp

lemma Apply_agree:
  assumes "agree ls ms" "l_ApplyTransaction unm muts ls = (e, ls')" "ApplyTransaction unm fmtv muts r ms = (e', ms')"
  shows "e = e' \<and> agree ls' ms'"
proof -
  have v: "gm_get 0 (lversion ls) = latestVersion ms" using assms(1) by (auto simp: agree_def l_Version_def fun_eq_iff)
  obtain e1 l1 where 1: "l_commit unm muts ls = (e1, l1)" by (cases "l_commit unm muts ls")
  obtain e2 m2 where 2: "m_commit unm fmtv r muts ms = (e2, m2)" by (cases "m_commit unm fmtv r muts ms")
  have "agree l1 (m2\<lparr>commitIdx := r\<rparr>)" "agree l1 m2" "e1 = e2"
    using commit_agree [OF assms(1) 1 2] by (auto simp: agree_def latestVersion_def)
  then show ?thesis
    using assms 1 2 by (auto simp: l_ApplyTransaction_def ApplyTransaction_def v split: option.splits)
qed

lemma GC_agree:
  assumes "agree ls ms" "mv_ok fmtv b ms"
  shows "agree ls (GCBefore r ms)"
proof -
  have d: "distinct (map fst (vchains ms))" using assms(2) by (simp add: mv_ok_def)
  have "doc_of (gc_chain r (chain_of ms k)) = doc_of (chain_of ms k)
      \<and> (gc_chain r (chain_of ms k) = [] \<longleftrightarrow> chain_of ms k = []) \<and> last (gc_chain r (chain_of ms k)) = last (chain_of ms k)" for k
  proof -
    have "sorted (map vCommittedAt (chain_of ms k))" using assms(2) by (simp add: mv_ok_def chain_ok_def)
    then show ?thesis
    proof (rule gc_split [of _ r])
      fix ys y zs assume "chain_of ms k = ys @ y # zs" "gc_chain r (chain_of ms k) = y # zs"
      then show ?thesis by (simp add: doc_of_def)
    qed simp
  qed
  then show ?thesis using assms(1) by (simp add: agree_def latestVersion_def gc_chain_of [OF d])
qed

text \<open>A store with all its versions at or before its commit index shows the last of each.\<close>

lemma snap_latest:
  assumes ok: "mv_ok fmtv b s"
  shows "snap_Get s b k = doc_of (chain_of s k)"
proof -
  have "filter (\<lambda>v. vCommittedAt v \<le> b) (chain_of s k) = chain_of s k"
    using ok by (intro filter_True) (simp add: mv_ok_def chain_ok_def)
  then show ?thesis by (simp add: snap_Get_eq [OF ok])
qed


subsection \<open>Versions count the writes\<close>

definition writes :: "string \<Rightarrow> mutation list \<Rightarrow> nat" where
  "writes k muts = length (filter (\<lambda>m. mID m = k \<and> (mOp m = ''put'' \<or> mOp m = ''delete'')) muts)"

lemma latestVersion_add [simp]:
  "latestVersion (addVersion k v s) k' = (if k' = k then vVersion v else latestVersion s k')"
  "latestVersion (addIndex fmtv k doc s) k' = latestVersion s k'"
  "latestVersion (s\<lparr>commitIdx := r\<rparr>) k' = latestVersion s k'"
  by (simp_all add: latestVersion_def)

lemma m_commit_versions:
  assumes "m_commit unm fmtv r muts s = (None, s')"
  shows "latestVersion s' k = latestVersion s k + int (writes k muts)"
  using assms
proof (induction muts arbitrary: s)
  case (Cons m muts)
  show ?case using Cons.prems
    by (auto simp: writes_def split: if_splits option.splits dest!: Cons.IH)
qed (simp add: writes_def)

lemma Apply_versions:
  assumes "ApplyTransaction unm fmtv muts r s = (None, s')"
  shows "latestVersion s' k = latestVersion s k + int (writes k muts)"
proof -
  obtain s1 where "m_commit unm fmtv r muts s = (None, s1)" "s' = s1\<lparr>commitIdx := r\<rparr>"
    using assms by (auto simp: ApplyTransaction_def split: option.splits prod.splits)
  from m_commit_versions [OF this(1), of k] this(2) show ?thesis by simp
qed

lemma checkVersions_fails:
  assumes "m \<in> set muts" "mExpected m = Some e" "ver (mID m) \<noteq> e"
  shows "checkVersions ver muts \<noteq> None"
  using assms by (induction muts) (auto split: option.splits)

text \<open>Transactions one after the other, each at its index.\<close>

fun runTx :: "(bytes \<Rightarrow> 'v document option) \<Rightarrow> ('v option \<Rightarrow> string) \<Rightarrow> (mutation list \<times> int) list \<Rightarrow> 'v mstore \<Rightarrow>
    derr option list \<times> 'v mstore" where
  "runTx unm fmtv [] s = ([], s)"
| "runTx unm fmtv ((muts, r) # txs) s =
     (case ApplyTransaction unm fmtv muts r s of (e, s1) \<Rightarrow> case runTx unm fmtv txs s1 of (es, s2) \<Rightarrow> (e # es, s2))"

fun l_runTx :: "(bytes \<Rightarrow> 'v document option) \<Rightarrow> (mutation list \<times> int) list \<Rightarrow> 'v lstore \<Rightarrow> derr option list \<times> 'v lstore" where
  "l_runTx unm [] s = ([], s)"
| "l_runTx unm ((muts, r) # txs) s =
     (case l_ApplyTransaction unm muts s of (e, s1) \<Rightarrow> case l_runTx unm txs s1 of (es, s2) \<Rightarrow> (e # es, s2))"

lemma runTx_agree:
  assumes "agree ls ms" "l_runTx unm txs ls = (es, ls')" "runTx unm fmtv txs ms = (es', ms')"
  shows "es = es' \<and> agree ls' ms'"
  using assms
proof (induction txs arbitrary: ls ms es es')
  case (Cons tx txs)
  obtain muts r where tx: "tx = (muts, r)" by (cases tx)
  obtain e l1 where l1: "l_ApplyTransaction unm muts ls = (e, l1)" by (cases "l_ApplyTransaction unm muts ls")
  obtain e' m1 where m1: "ApplyTransaction unm fmtv muts r ms = (e', m1)" by (cases "ApplyTransaction unm fmtv muts r ms")
  obtain es1 where l2: "l_runTx unm txs l1 = (es1, ls')" "es = e # es1"
    using Cons.prems(2) tx l1 by (auto split: prod.splits)
  obtain es2 where m2: "runTx unm fmtv txs m1 = (es2, ms')" "es' = e' # es2"
    using Cons.prems(3) tx m1 by (auto split: prod.splits)
  note a = Apply_agree [OF Cons.prems(1) l1 m1]
  from Cons.IH [OF conjunct2 [OF a] l2(1) m2(1)] a show ?case using l2(2) m2(2) by simp
qed simp

lemma runTx_length: "runTx unm fmtv txs s = (es, s') \<Longrightarrow> length es = length txs"
  by (induction txs arbitrary: s es) (auto split: prod.splits)

lemma runTx_ok:
  assumes "mv_ok fmtv b s" "sorted (b # map snd txs)" "runTx unm fmtv txs s = (es, s')"
  shows "mv_ok fmtv (last (b # map snd txs)) s' \<and> (txs \<noteq> [] \<longrightarrow> last es = None \<longrightarrow> commitIdx s' = last (map snd txs))"
  using assms
proof (induction txs arbitrary: b s es)
  case (Cons tx txs)
  obtain muts r where tx: "tx = (muts, r)" by (cases tx)
  obtain e s1 where 1: "ApplyTransaction unm fmtv muts r s = (e, s1)" by (cases "ApplyTransaction unm fmtv muts r s")
  obtain es2 where 2: "runTx unm fmtv txs s1 = (es2, s')" "es = e # es2"
    using Cons.prems(3) tx 1 by (auto split: prod.splits)
  have br: "b \<le> r" "sorted (r # map snd txs)" using Cons.prems(2) tx by auto
  note a = ApplyTransaction_ok [OF Cons.prems(1) br(1) 1]
  have len: "length es2 = length txs" using runTx_length [OF 2(1)] .
  from Cons.IH [OF a(1) br(2) 2(1)] show ?case using tx 2 a(3) len by (cases txs) auto
qed simp

subsection \<open>A run\<close>

text \<open>Documents of one byte in the field \<open>f\<close>; the empty string is not a document.\<close>

definition demo_unm :: "bytes \<Rightarrow> 8 word document option" where
  "demo_unm bs = (case bs of [] \<Rightarrow> None | b # _ \<Rightarrow> Some (Some [(''f'', b)]))"

definition decimal_byte :: "8 word \<Rightarrow> string" where
  "decimal_byte b = [char_of (48 + unat b div 100), char_of (48 + unat b div 10 mod 10), char_of (48 + unat b mod 10)]"

definition demo_fmt :: "8 word option \<Rightarrow> string" where
  "demo_fmt v = (case v of None \<Rightarrow> ''<nil>'' | Some b \<Rightarrow> decimal_byte b)"

definition put :: "string \<Rightarrow> bytes \<Rightarrow> int option \<Rightarrow> mutation" where
  "put k bs e = \<lparr>mOp = ''put'', mID = k, mData = bs, mExpected = e\<rparr>"

definition del :: "string \<Rightarrow> mutation" where
  "del k = \<lparr>mOp = ''delete'', mID = k, mData = [], mExpected = None\<rparr>"

definition demo_txs :: "(mutation list \<times> int) list" where
  "demo_txs = [([put ''a'' [7] None, put ''b'' [7] None], 1), ([put ''a'' [8] (Some 1)], 2), ([put ''b'' [9] (Some 5)], 3), ([del ''b''], 4)]"

definition demo_store :: "8 word mstore" where
  "demo_store = snd (runTx demo_unm demo_fmt (take 2 demo_txs) (NewMVCCStore ''f''))"

definition demo_after :: "8 word mstore" where
  "demo_after = GCBefore 2 (snd (runTx demo_unm demo_fmt (drop 2 demo_txs) demo_store))"

lemma demo_store_ok: "mv_ok demo_fmt 2 demo_store"
proof -
  have "sorted (0 # map snd (take 2 demo_txs))" "last (0 # map snd (take 2 demo_txs)) = 2" by code_simp+
  then show ?thesis
    using runTx_ok [OF NewMVCCStore_ok, of "take 2 demo_txs" demo_unm demo_fmt "''f''"] by (metis demo_store_def prod.collapse)
qed

lemma demo_later: "later demo_unm demo_fmt 2 (2, demo_store) (4, demo_after)"
proof -
  let ?s3 = "snd (ApplyTransaction demo_unm demo_fmt (fst (demo_txs ! 2)) 3 demo_store)"
  let ?s4 = "snd (ApplyTransaction demo_unm demo_fmt (fst (demo_txs ! 3)) 4 ?s3)"
  have "later demo_unm demo_fmt 2 (2, demo_store) (3, ?s3)"
    by (rule later_tx [OF later_refl, where muts = "fst (demo_txs ! 2)"
          and e = "fst (ApplyTransaction demo_unm demo_fmt (fst (demo_txs ! 2)) 3 demo_store)"]) simp_all
  then have "later demo_unm demo_fmt 2 (2, demo_store) (4, ?s4)"
    by (rule later_tx [where muts = "fst (demo_txs ! 3)" and e = "fst (ApplyTransaction demo_unm demo_fmt (fst (demo_txs ! 3)) 4 ?s3)"]) simp_all
  then have "later demo_unm demo_fmt 2 (2, demo_store) (4, GCBefore 2 ?s4)" by (rule later_gc) simp
  moreover have "demo_after = GCBefore 2 ?s4"
    by (simp add: demo_after_def demo_txs_def eval_nat_numeral split: prod.splits)
  ultimately show ?thesis by simp
qed

subsection \<open>Properties\<close>



text \<open>C20: A query by index through a snapshot returns exactly the documents whose field has the value at the snapshot, each once, although the index is not versioned and the reads interleave with later writes.\<close>

theorem query_exact:
  assumes ok: "mv_ok fmtv b s" and lt: "\<And>n. \<exists>c. later unm fmtv at (b, s) (c, st n)"
    and f: "indexField s \<noteq> []" and val: "val \<noteq> fmtv None"
  shows "distinct (QueryByIndex fmtv s st at val)
    \<and> set (QueryByIndex fmtv s st at val) = {k. \<exists>doc. snap_Get s at k = Some doc \<and> fmtv (doc_field doc (indexField s)) = val}"
proof -
  have st: "snap_Get (st n) at k = snap_Get s at k" "indexField (st n) = indexField s" for n k
    using lt [of n] later_ok ok by fastforce+
  have "k \<in> set (gm_get [] (mindex s) val)" if k: "snap_Get s at k = Some doc" "fmtv (doc_field doc (indexField s)) = val" for k doc
  proof -
    obtain x where "doc_field doc (indexField s) = Some x" using k(2) val by (cases "doc_field doc (indexField s)") auto
    then show ?thesis using visible_indexed [OF ok f k(1)] k(2) by simp
  qed
  then show ?thesis unfolding QueryByIndex_def using queryLoop_spec [of st at "snap_Get s at" "indexField s", OF st] by auto
qed

theorem query_exact_witness:
  "distinct (QueryByIndex demo_fmt demo_store (\<lambda>_. demo_after) 2 ''007'') \<and> set (QueryByIndex demo_fmt demo_store (\<lambda>_. demo_after) 2 ''007'')
    = {k. \<exists>doc. snap_Get demo_store 2 k = Some doc \<and> demo_fmt (doc_field doc (indexField demo_store)) = ''007''}"
proof (rule query_exact [OF demo_store_ok, of demo_unm])
  show "\<exists>c. later demo_unm demo_fmt 2 (2, demo_store) (c, demo_after)" using demo_later by blast
qed code_simp+

text \<open>A scan through a snapshot returns exactly the documents that exist at the snapshot, each once.\<close>

theorem scan_exact:
  assumes ok: "mv_ok fmtv b s" and lt: "\<And>n. \<exists>c. later unm fmtv at (b, s) (c, st n)"
  shows "distinct (Scan s st at) \<and> set (Scan s st at) = {k. snap_Get s at k \<noteq> None}"
proof -
  have st: "snap_Get (st n) at k = snap_Get s at k" for n k using lt [of n] later_ok ok by fastforce
  have "k \<in> fst ` set (vchains s)" if "snap_Get s at k \<noteq> None" for k
    using that by (rule contrapos_np) (simp add: snap_Get_eq [OF ok] gm_get_def doc_of_def map_of_eq_None_iff [symmetric])
  moreover have "Scan s st at = filter (\<lambda>k. snap_Get s at k \<noteq> None) (map fst (vchains s))"
    unfolding Scan_def by (rule scanLoop_eq) (rule st)
  ultimately show ?thesis using ok by (auto simp: mv_ok_def)
qed

theorem scan_exact_witness:
  "distinct (Scan demo_store (\<lambda>_. demo_after) 2) \<and> set (Scan demo_store (\<lambda>_. demo_after) 2) = {k. snap_Get demo_store 2 k \<noteq> None}"
proof (rule scan_exact [OF demo_store_ok, of demo_unm])
  show "\<exists>c. later demo_unm demo_fmt 2 (2, demo_store) (c, demo_after)" using demo_later by blast
qed







end
