(* ===== verification/Batch.thy ===== *)
theory Batch
  imports Wire_Bytes
begin

text \<open>
  Batching: \<^verbatim>\<open>batch/batch.go\<close>. Compression and decompression (\<open>gz\<close>, \<open>gunzip\<close>) are arguments
  that return an error or bytes; what the code relies on is that the second undoes the
  first. Times are integers.
\<close>

subsection \<open>Encoding\<close>

datatype berr = GzipErr | TruncatedBody | TruncatedLength | TruncatedPayload

definition magic :: bytes where
  "magic = [76, 68, 66, 66]"

definition encodeBody :: "bytes list \<Rightarrow> bytes" where
  "encodeBody msgs = put_be32 (u32_of (int (length msgs)))
     @ concat (map (\<lambda>m. put_be32 (u32_of (int (length m))) @ m) msgs)"

definition Encode :: "(bytes \<Rightarrow> berr + bytes) \<Rightarrow> bytes list \<Rightarrow> berr + bytes" where
  "Encode gz msgs = (case gz (encodeBody msgs) of Inl e \<Rightarrow> Inl e | Inr z \<Rightarrow> Inr (magic @ z))"

fun decodeLoop :: "bytes \<Rightarrow> nat \<Rightarrow> nat \<Rightarrow> berr + bytes list" where
  "decodeLoop body 0 pos = Inr []"
| "decodeLoop body (Suc n) pos =
     (if pos + 4 > length body then Inl TruncatedLength
      else
        let msgLen = nat (int_of_u32 (get_be32 (take 4 (drop pos body)))); pos = pos + 4 in
        if pos + msgLen > length body then Inl TruncatedPayload
        else (case decodeLoop body n (pos + msgLen) of
                Inl e \<Rightarrow> Inl e
              | Inr ms \<Rightarrow> Inr (take msgLen (drop pos body) # ms)))"

definition TryDecode :: "(bytes \<Rightarrow> berr + bytes) \<Rightarrow> bytes \<Rightarrow> bytes list \<times> bool \<times> berr option" where
  "TryDecode gunzip blob =
     (if length blob < length magic \<or> take (length magic) blob \<noteq> magic then ([], False, None)
      else (case gunzip (drop (length magic) blob) of
              Inl e \<Rightarrow> ([], True, Some e)
            | Inr body \<Rightarrow>
                if length body < 4 then ([], True, Some TruncatedBody)
                else (case decodeLoop body (nat (int_of_u32 (get_be32 (take 4 body)))) 4 of
                        Inl e \<Rightarrow> ([], True, Some e)
                      | Inr msgs \<Rightarrow> (msgs, True, None))))"

subsection \<open>The batcher\<close>

record batcher =
  maxBatchSize :: int
  maxLinger :: int
  pending :: "bytes list"
  firstAdded :: int

definition NewBatcher :: "int \<Rightarrow> int \<Rightarrow> batcher" where
  "NewBatcher sz linger = \<lparr>maxBatchSize = sz, maxLinger = linger, pending = [], firstAdded = 0\<rparr>"

text \<open>
  The critical sections. Each returns what it takes out to be flushed, by the same
  goroutine and outside of the lock.
\<close>

definition b_Add :: "int \<Rightarrow> bytes \<Rightarrow> batcher \<Rightarrow> bytes list option \<times> batcher" where
  "b_Add now msg b =
     (let b = (if pending b = [] then b\<lparr>firstAdded := now\<rparr> else b);
          b = b\<lparr>pending := pending b @ [msg]\<rparr> in
      if int (length (pending b)) \<ge> maxBatchSize b then (Some (pending b), b\<lparr>pending := []\<rparr>) else (None, b))"

definition lingerTick :: "int \<Rightarrow> batcher \<Rightarrow> bytes list option \<times> batcher" where
  "lingerTick now b =
     (if pending b \<noteq> [] \<and> now - firstAdded b \<ge> maxLinger b then (Some (pending b), b\<lparr>pending := []\<rparr>) else (None, b))"

definition b_Flush :: "batcher \<Rightarrow> bytes list option \<times> batcher" where
  "b_Flush b = (if pending b = [] then (None, b\<lparr>pending := []\<rparr>) else (Some (pending b), b\<lparr>pending := []\<rparr>))"

definition b_flush :: "(bytes \<Rightarrow> berr + bytes) \<Rightarrow> (bytes \<Rightarrow> berr option) \<Rightarrow> bytes list \<Rightarrow> berr option" where
  "b_flush gz writeFn msgs = (case Encode gz msgs of Inl e \<Rightarrow> Some e | Inr blob \<Rightarrow> writeFn blob)"

datatype bevent = EAdd int bytes | ETick int | EFlush

definition b_step :: "bevent \<Rightarrow> batcher \<Rightarrow> bytes list option \<times> batcher" where
  "b_step ev b = (case ev of EAdd now msg \<Rightarrow> b_Add now msg b | ETick now \<Rightarrow> lingerTick now b | EFlush \<Rightarrow> b_Flush b)"

text \<open>The batches taken out by a sequence of critical sections, in their order.\<close>

fun b_run :: "bevent list \<Rightarrow> batcher \<Rightarrow> bytes list list \<times> batcher" where
  "b_run [] b = ([], b)"
| "b_run (ev # evs) b = (case b_step ev b of (t, b1) \<Rightarrow> case b_run evs b1 of (ts, b2) \<Rightarrow>
     ((case t of None \<Rightarrow> ts | Some batch \<Rightarrow> batch # ts), b2))"

fun added :: "bevent list \<Rightarrow> bytes list" where
  "added [] = []"
| "added (EAdd _ msg # evs) = msg # added evs"
| "added (_ # evs) = added evs"

subsection \<open>Decoding\<close>

lemma length_magic [simp]: "length magic = 4"
  by (simp add: magic_def)

lemma decodeLoop_encoded:
  assumes "\<forall>m \<in> set msgs. length m < 2 ^ 32"
  shows "decodeLoop (pre @ concat (map (\<lambda>m. put_be32 (u32_of (int (length m))) @ m) msgs) @ suf) (length msgs) (length pre) = Inr msgs"
  using assms
proof (induction msgs arbitrary: pre)
  case (Cons m msgs)
  let ?l = "put_be32 (u32_of (int (length m)))"
  have len: "nat (int_of_u32 (u32_of (int (length m)))) = length m" using Cons.prems by (simp add: int_of_u32_of)
  from Cons.IH [of "pre @ ?l @ m"] Cons.prems show ?case by (simp add: Let_def len add.assoc)
qed simp

lemma decodeLoop_bound:
  assumes "decodeLoop body n pos = Inr msgs" "pos \<le> length body"
  shows "length msgs = n \<and> pos + 4 * n + length (concat msgs) \<le> length body"
  using assms
proof (induction body n pos arbitrary: msgs rule: decodeLoop.induct)
  case (2 body n pos)
  let ?m = "nat (int_of_u32 (get_be32 (take 4 (drop pos body))))"
  obtain ms where ms: "\<not> pos + 4 > length body" "\<not> pos + 4 + ?m > length body"
      "decodeLoop body n (pos + 4 + ?m) = Inr ms" "msgs = take ?m (drop (pos + 4) body) # ms"
    using 2(2) by (auto simp: Let_def split: if_splits sum.splits)
  have "length (take ?m (drop (pos + 4) body)) = ?m" using ms(2) by simp
  moreover have "length ms = n \<and> pos + 4 + ?m + 4 * n + length (concat ms) \<le> length body"
    using 2(1) [OF ms(1) refl refl ms(2,3)] ms(2) by simp
  ultimately show ?case using ms(4) by simp
qed simp

subsection \<open>Batches\<close>

lemma b_step_keeps:
  assumes "b_step ev b = (t, b')"
  shows "(case t of None \<Rightarrow> [] | Some batch \<Rightarrow> batch) @ pending b' = pending b @ added [ev]"
    "maxBatchSize b' = maxBatchSize b" "t = Some batch \<Longrightarrow> batch \<noteq> []"
    "1 \<le> maxBatchSize b \<Longrightarrow> int (length (pending b)) < maxBatchSize b \<Longrightarrow> int (length (pending b')) < maxBatchSize b'
      \<and> (case t of None \<Rightarrow> True | Some batch \<Rightarrow> int (length batch) \<le> maxBatchSize b)"
  using assms by (cases ev; auto simp: b_step_def b_Add_def lingerTick_def b_Flush_def Let_def split: if_splits)+

lemma b_run_step:
  assumes "b_run (ev # evs) b = (ts, b')"
  obtains t b1 ts1 where "b_step ev b = (t, b1)" "b_run evs b1 = (ts1, b')" "ts = (case t of None \<Rightarrow> ts1 | Some batch \<Rightarrow> batch # ts1)"
  using assms by (auto split: prod.splits)

lemma added_Cons: "added (ev # evs) = added [ev] @ added evs"
  by (cases ev) auto

lemma b_run_keeps:
  assumes "b_run evs b = (ts, b')"
  shows "concat ts @ pending b' = pending b @ added evs"
  using assms
proof (induction evs arbitrary: b ts)
  case (Cons ev evs)
  from Cons.prems obtain t b1 ts1 where 1: "b_step ev b = (t, b1)" "b_run evs b1 = (ts1, b')"
      "ts = (case t of None \<Rightarrow> ts1 | Some batch \<Rightarrow> batch # ts1)" by (rule b_run_step)
  have "concat ts @ pending b' = (case t of None \<Rightarrow> [] | Some batch \<Rightarrow> batch) @ concat ts1 @ pending b'" using 1(3) by (cases t) auto
  also have "\<dots> = ((case t of None \<Rightarrow> [] | Some batch \<Rightarrow> batch) @ pending b1) @ added evs" using Cons.IH [OF 1(2)] by simp
  also have "\<dots> = pending b @ added (ev # evs)" using b_step_keeps(1) [OF 1(1)] added_Cons [of ev evs] by simp
  finally show ?case .
qed simp

lemma b_run_sizes:
  assumes "b_run evs b = (ts, b')" "1 \<le> maxBatchSize b" "int (length (pending b)) < maxBatchSize b" "batch \<in> set ts"
  shows "batch \<noteq> [] \<and> int (length batch) \<le> maxBatchSize b"
  using assms
proof (induction evs arbitrary: b ts)
  case (Cons ev evs)
  from Cons.prems(1) obtain t b1 ts1 where 1: "b_step ev b = (t, b1)" "b_run evs b1 = (ts1, b')"
      "ts = (case t of None \<Rightarrow> ts1 | Some batch \<Rightarrow> batch # ts1)" by (rule b_run_step)
  note s = b_step_keeps [OF 1(1)]
  show ?case
  proof (cases "batch \<in> set ts1")
    case True
    then show ?thesis using Cons.IH [OF 1(2)] s(2,4) Cons.prems(2,3) by simp
  next
    case False
    then have "t = Some batch" using Cons.prems(4) 1(3) by (cases t) auto
    then show ?thesis using s(3,4) Cons.prems(2,3) by simp
  qed
qed simp

subsection \<open>Properties\<close>

text \<open>C26: What \<^verbatim>\<open>Encode\<close> writes, \<^verbatim>\<open>TryDecode\<close> reads back: the same messages in the same order, given that decompression undoes compression.\<close>

theorem batch_roundtrip:
  assumes "\<And>b z. gz b = Inr z \<Longrightarrow> gunzip z = Inr b" "Encode gz msgs = Inr blob"
    and "length msgs < 2 ^ 32" "\<forall>m \<in> set msgs. length m < 2 ^ 32"
  shows "TryDecode gunzip blob = (msgs, True, None)"
proof -
  let ?n = "put_be32 (u32_of (int (length msgs)))"
  obtain z where z: "gz (encodeBody msgs) = Inr z" "blob = magic @ z"
    using assms(2) by (auto simp: Encode_def split: sum.splits)
  have n: "nat (int_of_u32 (u32_of (int (length msgs)))) = length msgs" using assms(3) by (simp add: int_of_u32_of)
  have "decodeLoop (encodeBody msgs) (length msgs) 4 = Inr msgs"
    using decodeLoop_encoded [OF assms(4), of ?n "[]"] by (simp add: encodeBody_def)
  then show ?thesis using assms(1) [OF z(1)] z(2) n by (simp add: TryDecode_def encodeBody_def)
qed

theorem batch_roundtrip_witness:
  "TryDecode Inr (magic @ encodeBody [[1], [], [2, 3]]) = ([[1], [], [2, 3]], True, None)"
  by (rule batch_roundtrip [where gz = Inr]) (auto simp: Encode_def)




definition demo_events :: "bevent list" where
  "demo_events = [EAdd 0 [1], EAdd 1 [2], EAdd 2 [3], ETick 3, ETick 9, EAdd 10 [4]]"


end
