(* ===== verification/Replication.thy ===== *)
theory Replication
  imports Raft_Safety Storage_Log
begin

text \<open>
  Replicated state machines over a Raft cluster, as \<^verbatim>\<open>replication/partition.go\<close> and the
  replicated stores of \<^verbatim>\<open>docstore/\<close> build them: a cluster, and for every server an apply
  loop that takes the messages of the server's apply channel one by one and hands each to
  a state machine.

  \<open>sTaken\<close> is how many messages the loop of a server has taken so far. The loop's body
  \<open>ap\<close> is an argument here; the components give their own. An event is a step of the cluster
  or one iteration of an apply loop, so every interleaving of the two is a run.
\<close>

subsection \<open>The system\<close>

record ('c, 'r) system =
  sRaft :: "'c cluster"
  sTaken :: "int \<Rightarrow> nat"
  sReps :: "int \<Rightarrow> 'r"

definition mkSystem :: "int list \<Rightarrow> (int \<Rightarrow> draw) \<Rightarrow> (int \<Rightarrow> 'r) \<Rightarrow> ('c, 'r) system" where
  "mkSystem ps ds reps = \<lparr>sRaft = Make_cluster ps ds, sTaken = (\<lambda>_. 0), sReps = reps\<rparr>"

datatype 'c sevent = ERaft "'c event" | ETake int

fun sstep :: "('c ApplyMsg \<Rightarrow> 'r \<Rightarrow> 'r) \<Rightarrow> int list \<Rightarrow> 'c sevent \<Rightarrow> ('c, 'r) system \<Rightarrow> ('c, 'r) system option" where
  "sstep ap ps (ERaft ev) s = map_option (\<lambda>c. s\<lparr>sRaft := c\<rparr>) (cstep ps ev (sRaft s))"
| "sstep ap ps (ETake n) s =
     (if sTaken s n < length (cApply (sRaft s) n)
      then Some (s\<lparr>sTaken := (sTaken s)(n := sTaken s n + 1),
                   sReps := (sReps s)(n := ap (cApply (sRaft s) n ! sTaken s n) (sReps s n))\<rparr>)
      else Some s)"

fun srun :: "('c ApplyMsg \<Rightarrow> 'r \<Rightarrow> 'r) \<Rightarrow> int list \<Rightarrow> 'c sevent list \<Rightarrow> ('c, 'r) system \<Rightarrow> ('c, 'r) system option" where
  "srun ap ps [] s = Some s"
| "srun ap ps (ev # evs) s = do { s' \<leftarrow> sstep ap ps ev s; srun ap ps evs s' }"

text \<open>
  \<^verbatim>\<open>WaitApplied\<close>: every iteration reads the clock, and then, under the lock, the last
  applied index. \<open>polls\<close> has the clock readings and what the system does before each lock
  is taken. The result is \<^const>\<open>None\<close> while the call has not returned.
\<close>

fun WaitApplied :: "('c ApplyMsg \<Rightarrow> 'r \<Rightarrow> 'r) \<Rightarrow> ('r \<Rightarrow> int) \<Rightarrow> int list \<Rightarrow> int \<Rightarrow> int \<Rightarrow> int \<Rightarrow>
    (int \<times> 'c sevent list) list \<Rightarrow> ('c, 'r) system \<Rightarrow> (bool option \<times> ('c, 'r) system) option" where
  "WaitApplied ap lastIdx ps n raftIndex deadline [] s = Some (None, s)"
| "WaitApplied ap lastIdx ps n raftIndex deadline ((now, evs) # polls) s =
     (if now < deadline then do {
        s' \<leftarrow> srun ap ps evs s;
        if lastIdx (sReps s' n) \<ge> raftIndex then Some (Some True, s')
        else WaitApplied ap lastIdx ps n raftIndex deadline polls s'
      }
      else Some (Some False, s))"

text \<open>\<^verbatim>\<open>Propose\<close>: a call of \<^verbatim>\<open>Start\<close> on the server of this replica.\<close>

definition Propose :: "int \<Rightarrow> 'c \<Rightarrow> ('c, 'r) system \<Rightarrow> ((int \<times> int \<times> bool) \<times> ('c, 'r) system) option" where
  "Propose n payload s = do {
     (rf, res) \<leftarrow> Start payload (cNodes (sRaft s) n);
     Some (res, s\<lparr>sRaft := set_node n rf (sRaft s)\<rparr>)
   }"

subsection \<open>Runs\<close>

fun raft_events :: "'c sevent list \<Rightarrow> 'c event list" where
  "raft_events [] = []"
| "raft_events (ERaft ev # evs) = ev # raft_events evs"
| "raft_events (ETake n # evs) = raft_events evs"

lemma srun_append: "srun ap ps (xs @ ys) s = Option.bind (srun ap ps xs s) (srun ap ps ys)"
  by (induction xs arbitrary: s) (auto split: bind_splits)

lemma srun_raft: "srun ap ps evs s = Some s' \<Longrightarrow> crun ps (raft_events evs) (sRaft s) = Some (sRaft s')"
proof (induction evs arbitrary: s)
  case (Cons ev evs)
  then show ?case by (cases ev) (fastforce split: bind_splits if_splits)+
qed simp

text \<open>A replica is the fold of its loop's body over the messages it has taken.\<close>

definition fed :: "('c ApplyMsg \<Rightarrow> 'r \<Rightarrow> 'r) \<Rightarrow> (int \<Rightarrow> 'r) \<Rightarrow> ('c, 'r) system \<Rightarrow> bool" where
  "fed ap reps s \<longleftrightarrow> (\<forall>n. sTaken s n \<le> length (cApply (sRaft s) n)
     \<and> sReps s n = fold ap (take (sTaken s n) (cApply (sRaft s) n)) (reps n))"

lemma fed_step:
  assumes "fed ap reps s" "sstep ap ps ev s = Some s'"
  shows "fed ap reps s'"
proof (cases ev)
  case (ERaft e)
  then obtain c where c: "cstep ps e (sRaft s) = Some c" "s' = s\<lparr>sRaft := c\<rparr>" using assms(2) by auto
  have p: "prefix (cApply (sRaft s) n) (cApply c n)" for n using cstep_applied_grows [OF c(1)] .
  have "sTaken s n \<le> length (cApply c n)" "take (sTaken s n) (cApply c n) = take (sTaken s n) (cApply (sRaft s) n)" for n
    using assms(1) p [of n] prefix_length_le [OF p, of n] prefix_take_prefix [OF p, of "sTaken s n" n]
    by (auto simp: fed_def intro: le_trans)
  then show ?thesis using assms(1) c(2) by (simp add: fed_def)
next
  case (ETake n)
  then show ?thesis using assms by (auto simp: fed_def take_Suc_conv_app_nth split: if_splits)
qed

lemma srun_fed:
  assumes "srun ap ps evs s = Some s'" "fed ap reps s"
  shows "fed ap reps s'"
  using assms by (induction evs arbitrary: s) (auto split: bind_splits dest: fed_step)

lemma mkSystem_fed: "fed ap reps (mkSystem ps ds reps)"
  by (simp add: fed_def mkSystem_def)

lemma sstep_taken: "sstep ap ps ev s = Some s' \<Longrightarrow> sTaken s n \<le> sTaken s' n"
  by (cases ev) (auto split: if_splits)

text \<open>No schedule of a system makes a server panic.\<close>

lemma srun_total:
  assumes "distinct ps" "\<forall>p \<in> set ps. 0 \<le> p"
  shows "sim ps (sRaft s) a \<Longrightarrow> \<exists>s' b. srun ap ps evs s = Some s' \<and> (pstep (set ps))\<^sup>*\<^sup>* a b \<and> sim ps (sRaft s') b"
proof (induction evs arbitrary: s a)
  case (Cons ev evs)
  have "\<exists>s1 b. sstep ap ps ev s = Some s1 \<and> (pstep (set ps))\<^sup>*\<^sup>* a b \<and> sim ps (sRaft s1) b"
  proof (cases ev)
    case (ERaft e)
    then show ?thesis using cstep_progress [OF Cons.prems assms, of e] by (fastforce simp: progress_def)
  qed (use Cons.prems in auto)
  then obtain s1 b where 1: "sstep ap ps ev s = Some s1" "(pstep (set ps))\<^sup>*\<^sup>* a b" "sim ps (sRaft s1) b" by blast
  from Cons.IH [OF 1(3)] obtain s' c where "srun ap ps evs s1 = Some s'" "(pstep (set ps))\<^sup>*\<^sup>* b c" "sim ps (sRaft s') c" by blast
  then show ?case using 1(1) rtranclp_trans [OF 1(2)] by auto
qed auto

text \<open>The messages two apply loops have taken, at two moments of a run.\<close>

lemma taken_agree:
  assumes "distinct ps" "\<forall>p \<in> set ps. 0 \<le> p"
    and r: "srun ap ps evs1 (mkSystem ps ds reps) = Some s" "srun ap ps evs2 s = Some s'"
  obtains ms k k' where "take (sTaken s n) (cApply (sRaft s) n) = take k ms" "take (sTaken s' m) (cApply (sRaft s') m) = take k' ms"
    "k = sTaken s n" "k' = sTaken s' m" "max k k' \<le> length ms" "ms \<in> {cApply (sRaft s) n, cApply (sRaft s') m}"
proof -
  have c: "crun ps (raft_events evs1) (Make_cluster ps ds) = Some (sRaft s)" "crun ps (raft_events evs2) (sRaft s) = Some (sRaft s')"
    using srun_raft [OF r(1)] srun_raft [OF r(2)] by (simp_all add: mkSystem_def)
  obtain a b where ab: "sim ps (sRaft s) a" "sim ps (sRaft s') b" using crun_two [OF assms(1,2) c] by metis
  have "prefix (cApply (sRaft s) n) (cApply (sRaft s') n)" using crun_applied_grows [OF c(2)] by blast
  then have cmp: "prefix (cApply (sRaft s) n) (cApply (sRaft s') m) \<or> prefix (cApply (sRaft s') m) (cApply (sRaft s) n)"
    using sim_applied_comparable [OF ab(2), of n m] by (meson prefix_order.trans prefix_same_cases)
  have f: "fed ap reps s" "fed ap reps s'" using srun_fed mkSystem_fed r by blast+
  then have len: "sTaken s n \<le> length (cApply (sRaft s) n)" "sTaken s' m \<le> length (cApply (sRaft s') m)" by (auto simp: fed_def)
  from cmp show ?thesis
  proof
    assume p: "prefix (cApply (sRaft s) n) (cApply (sRaft s') m)"
    show ?thesis
      using that [of "sTaken s n" "cApply (sRaft s') m" "sTaken s' m"] prefix_take_prefix [OF p len(1)]
        prefix_length_le [OF p] len by (simp add: max_def)
  next
    assume p: "prefix (cApply (sRaft s') m) (cApply (sRaft s) n)"
    show ?thesis
      using that [of "sTaken s n" "cApply (sRaft s) n" "sTaken s' m"] prefix_take_prefix [OF p len(2)]
        prefix_length_le [OF p] len by (simp add: max_def)
  qed
qed

subsection \<open>State machines\<close>

text \<open>
  The contract of an apply loop: a replica \<open>r\<close> that stands for the state \<open>a\<close> of an abstract
  machine stands for the machine's next state after the message, as long as the messages fit.
\<close>

locale state_machine =
  fixes ap :: "'c ApplyMsg \<Rightarrow> 'r \<Rightarrow> 'r" and rep :: "'r \<Rightarrow> 'a \<Rightarrow> bool" and next_of :: "'c ApplyMsg \<Rightarrow> 'a \<Rightarrow> 'a"
    and room :: "'c ApplyMsg list \<Rightarrow> 'r \<Rightarrow> bool"
  assumes ap_rep: "rep r a \<Longrightarrow> room (m # ms) r \<Longrightarrow> rep (ap m r) (next_of m a) \<and> room ms (ap m r)"
    and room_mono: "room (ms @ ms') r \<Longrightarrow> room ms r"
begin

lemma fold_rep: "rep r a \<Longrightarrow> room ms r \<Longrightarrow> rep (fold ap ms r) (fold next_of ms a)"
proof (induction ms arbitrary: r a)
  case (Cons m ms)
  then show ?case using ap_rep [OF Cons.prems] by simp
qed simp

lemma replicas_agree:
  assumes ps: "distinct ps" "\<forall>p \<in> set ps. 0 \<le> p"
    and r: "srun ap ps evs1 (mkSystem ps ds reps) = Some s" "srun ap ps evs2 s = Some s'"
    and init: "rep (reps n) a" "rep (reps m) a"
    and fits: "room (cApply (sRaft s) n) (reps n)" "room (cApply (sRaft s') m) (reps m)"
  obtains ms k k' where "k = sTaken s n" "k' = sTaken s' m" "max k k' \<le> length ms"
    "rep (sReps s n) (fold next_of (take k ms) a)" "rep (sReps s' m) (fold next_of (take k' ms) a)"
    "take k ms = take k (cApply (sRaft s) n)" "take k' ms = take k' (cApply (sRaft s') m)"
proof -
  have f: "fed ap reps s" "fed ap reps s'" using srun_fed mkSystem_fed r by blast+
  have "room (take (sTaken s n) (cApply (sRaft s) n)) (reps n)" "room (take (sTaken s' m) (cApply (sRaft s') m)) (reps m)"
    using fits room_mono by (metis append_take_drop_id)+
  then have "rep (sReps s n) (fold next_of (take (sTaken s n) (cApply (sRaft s) n)) a)"
    "rep (sReps s' m) (fold next_of (take (sTaken s' m) (cApply (sRaft s') m)) a)"
    using f fold_rep init by (simp_all add: fed_def)
  moreover obtain ms k k' where "take (sTaken s n) (cApply (sRaft s) n) = take k ms"
      "take (sTaken s' m) (cApply (sRaft s') m) = take k' ms" "k = sTaken s n" "k' = sTaken s' m" "max k k' \<le> length ms"
    using taken_agree [OF ps r, of n m] by metis
  ultimately show ?thesis using that [of k k' ms] by simp
qed

end

subsection \<open>Acknowledged commands\<close>

text \<open>The last applied index of a replica is the index of a message it was given.\<close>

locale applied_index =
  fixes ap :: "'c ApplyMsg \<Rightarrow> 'r \<Rightarrow> 'r" and lastIdx :: "'r \<Rightarrow> int"
  assumes ap_index: "lastIdx (ap m r) \<in> {lastIdx r, amCommandIndex m}"
begin

lemma fold_index: "lastIdx (fold ap ms r) = lastIdx r \<or> (\<exists>m \<in> set ms. lastIdx (fold ap ms r) = amCommandIndex m)"
proof (induction ms arbitrary: r)
  case (Cons m ms)
  from Cons [of "ap m r"] ap_index [of m r] show ?case by auto
qed simp

text \<open>What a replica has applied, its server knows to be committed.\<close>

lemma applied_committed:
  assumes "fed ap reps s" "sim ps (sRaft s) a" "lastIdx (reps n) = 0" "1 \<le> i" "i \<le> lastIdx (sReps s n)"
  shows "nat i \<le> pCommit a n"
proof -
  let ?rf = "cNodes (sRaft s) n"
  have "lastIdx (sReps s n) \<noteq> lastIdx (reps n)" using assms(3-5) by simp
  then obtain m where m: "m \<in> set (take (sTaken s n) (cApply (sRaft s) n))" "lastIdx (sReps s n) = amCommandIndex m"
    using assms(1) fold_index [of "take (sTaken s n) (cApply (sRaft s) n)" "reps n"] by (auto simp: fed_def)
  have "m \<in> set (applied_of (take (Suc (nat (lastApplied ?rf))) (pLog a n)))"
    using m(1) sim_node(7) [OF assms(2), of n] by (metis in_set_takeD)
  then obtain e where "e \<in> set (take (Suc (nat (lastApplied ?rf))) (pLog a n))" "amCommandIndex m = leIndex e"
    by (auto simp: applied_of_def)
  then obtain j where "j < length (pLog a n)" "j \<le> nat (lastApplied ?rf)" "amCommandIndex m = leIndex (pLog a n ! j)"
    by (auto simp: in_set_conv_nth)
  moreover have "wf_log (pLog a n)" using assms(2) pinv_logD(1) by (auto simp: sim_def)
  ultimately have "amCommandIndex m \<le> lastApplied ?rf" using sim_node(5) [OF assms(2), of n] by (simp add: wf_log_def)
  then show ?thesis using sim_node(5,6) [OF assms(2), of n] assms(5) m(2) by simp
qed

lemma WaitApplied_run:
  assumes "WaitApplied ap lastIdx ps n i deadline polls s = Some (Some True, s')"
  shows "\<exists>evs. srun ap ps evs s = Some s' \<and> i \<le> lastIdx (sReps s' n)"
  using assms
proof (induction polls arbitrary: s)
  case (Cons p polls)
  obtain now evs where p: "p = (now, evs)" by (cases p)
  with Cons.prems obtain s1 where 1: "srun ap ps evs s = Some s1" by (auto split: if_splits bind_splits)
  show ?case
  proof (cases "i \<le> lastIdx (sReps s1 n)")
    case True
    then show ?thesis using Cons.prems p 1 by (auto split: if_splits)
  next
    case False
    then have "WaitApplied ap lastIdx ps n i deadline polls s1 = Some (Some True, s')"
      using Cons.prems p 1 by (auto split: if_splits)
    from Cons.IH [OF this] 1 show ?thesis by (metis Option.bind.bind_lunit srun_append)
  qed
qed simp

text \<open>A call of \<^verbatim>\<open>WaitApplied\<close> returns by the first clock reading at or past its deadline.\<close>

lemma WaitApplied_returns:
  assumes "distinct ps" "\<forall>p \<in> set ps. 0 \<le> p" "sim ps (sRaft s) a" "(now, evs) \<in> set polls" "deadline \<le> now"
  shows "\<exists>b s'. WaitApplied ap lastIdx ps n i deadline polls s = Some (Some b, s')"
  using assms(3,4)
proof (induction polls arbitrary: s a)
  case (Cons p polls)
  obtain now1 evs1 where p: "p = (now1, evs1)" by (cases p)
  obtain s1 a1 where 1: "srun ap ps evs1 s = Some s1" "sim ps (sRaft s1) a1"
    using srun_total [OF assms(1,2) Cons.prems(1), of ap evs1] by blast
  have "(now, evs) \<in> set polls" if "now1 < deadline" using Cons.prems(2) p that assms(5) by auto
  then show ?case using Cons.IH [OF 1(2)] p 1(1) by auto
qed simp

end

lemma Propose_run:
  assumes "Propose n c s = Some ((i, t, True), s1)" "n \<in> set ps"
  shows "srun ap ps [ERaft (EvStart n c)] s = Some s1" "rstate (cNodes (sRaft s) n) = Leader"
    "t = currentTerm (cNodes (sRaft s) n)" "currentTerm (cNodes (sRaft s1) n) = t" "rstate (cNodes (sRaft s1) n) = Leader"
    "rlog (cNodes (sRaft s1) n) = rlog (cNodes (sRaft s) n) @ [\<lparr>leTerm = t, leIndex = i, leCommand = Some c\<rparr>]"
  using assms by (auto simp: Propose_def step_start_def Start_def set_node_def Let_def gomap_put_def split: bind_splits if_splits option.splits)

lemma wf_log_last_index:
  assumes "wf_log (xs @ [e])"
  shows "leIndex e = int (length xs)"
proof -
  have "leIndex ((xs @ [e]) ! length xs) = int (length xs)" using assms unfolding wf_log_def by auto
  then show ?thesis by simp
qed

text \<open>A server only adds to its log in a term it leads.\<close>

lemma leader_keeps_log:
  assumes "pext a b" "pinv S a" "pinv S b" "pLead a t = Some n" "pTerm a n = t" "pTerm b n = t"
  shows "prefix (pLog a n) (pLog b n)"
proof -
  have "pLead b t = Some n" "prefix (pLLog a t) (pLLog b t)" using assms(1,4) unfolding pext_def by blast+
  then show ?thesis using leader_log [OF assms(2), of n] leader_log [OF assms(3), of n] assms(4-6) by simp
qed

text \<open>A run of a system seen through the protocol, at two moments.\<close>

lemma srun_two:
  assumes "distinct ps" "\<forall>p \<in> set ps. 0 \<le> p"
    and "srun ap ps evs1 (mkSystem ps ds reps) = Some s" "srun ap ps evs2 s = Some s'"
  obtains a b where "sim ps (sRaft s) a" "sim ps (sRaft s') b" "pext a b" "pinv (set ps) a" "pinv (set ps) b"
  using crun_two [OF assms(1,2) _ srun_raft [OF assms(4)], of "raft_events evs1" ds] srun_raft [OF assms(3)]
  by (metis mkSystem_def system.select_convs(1))

text \<open>The messages of an apply channel have increasing indices, from 1 on.\<close>

lemma sorted_applied:
  assumes "wf_log xs"
  shows "sorted_wrt (<) (map amCommandIndex (applied_of (take k xs)))" "\<forall>m \<in> set (applied_of (take k xs)). 1 \<le> amCommandIndex m"
proof -
  have ix: "leIndex (xs ! i) = int i" if "i < length xs" for i using assms that unfolding wf_log_def by blast
  have "sorted_wrt (<) (map leIndex (take k xs))" using ix by (simp add: sorted_wrt_iff_nth_less)
  then have "sorted_wrt (<) (map leIndex (filter (\<lambda>e. leCommand e \<noteq> None) (take k xs)))"
    by (simp add: sorted_wrt_map sorted_wrt_filter)
  then show "sorted_wrt (<) (map amCommandIndex (applied_of (take k xs)))" by (simp add: applied_of_def comp_def)
  have "1 \<le> leIndex e" if e: "e \<in> set (take k xs)" "leCommand e \<noteq> None" for e
  proof -
    obtain i where i: "i < length xs" "e = xs ! i" using in_set_takeD [OF e(1)] unfolding in_set_conv_nth by blast
    have "leCommand (xs ! 0) = None" using assms unfolding wf_log_def by (simp add: sentinel_def)
    then have "i \<noteq> 0" using i(2) e(2) by metis
    then show ?thesis using i ix by simp
  qed
  then show "\<forall>m \<in> set (applied_of (take k xs)). 1 \<le> amCommandIndex m" by (auto simp: applied_of_def)
qed

context applied_index
begin

text \<open>
  A command that was proposed by a leader, and whose index was applied while the server
  was still in the term of the proposal, is at that index of its log, and committed.
\<close>

lemma acked_entry:
  assumes ps: "distinct ps" "\<forall>p \<in> set ps. 0 \<le> p" "n \<in> set ps"
    and run: "srun ap ps evs (mkSystem ps ds reps) = Some s" and zero: "lastIdx (reps n) = 0"
    and pp: "Propose n c s = Some ((i, t, True), s0)"
    and wait: "WaitApplied ap lastIdx ps n i deadline polls s0 = Some (Some True, s1)"
    and same: "currentTerm (cNodes (sRaft s1) n) = t"
  obtains evs1 b where "srun ap ps evs1 (mkSystem ps ds reps) = Some s1" "sim ps (sRaft s1) b" "i \<le> lastIdx (sReps s1 n)"
    "1 \<le> i" "nat i \<le> pCommit b n" "nat i < length (pLog b n)" "pLog b n ! nat i = \<lparr>leTerm = t, leIndex = i, leCommand = Some c\<rparr>"
proof -
  note pr = Propose_run [OF pp ps(3)]
  obtain evs1 where w: "srun ap ps evs1 s0 = Some s1" "i \<le> lastIdx (sReps s1 n)" using WaitApplied_run [OF wait] by blast
  have r0: "srun ap ps (evs @ [ERaft (EvStart n c)]) (mkSystem ps ds reps) = Some s0" using run pr(1) by (simp add: srun_append)
  have r1: "srun ap ps ((evs @ [ERaft (EvStart n c)]) @ evs1) (mkSystem ps ds reps) = Some s1" unfolding srun_append [of _ _ _ evs1] r0 using w(1) by simp
  obtain a b where ab: "sim ps (sRaft s0) a" "sim ps (sRaft s1) b" "pext a b" "pinv (set ps) a" "pinv (set ps) b"
    using srun_two [OF ps(1,2) r0 w(1)] by metis
  let ?l = "rlog (cNodes (sRaft s) n)"
  have la: "pLead a t = Some n" "pLog a n = ?l @ [\<lparr>leTerm = t, leIndex = i, leCommand = Some c\<rparr>]" "pTerm a n = t"
    using sim_node(1,2,4) [OF ab(1), of n] pr by auto
  have i: "i = int (length ?l)" using pinv_logD(1) [OF ab(4), of n] la(2) wf_log_last_index by fastforce
  obtain z where "sim ps (sRaft s) z"
    using crun_sim [OF ps(1,2) sim_init, of "raft_events evs" ds] srun_raft [OF run] by (auto simp: mkSystem_def)
  then have "0 < length ?l" using pinv_logD(1) [of "set ps" z n] sim_node(1) [of ps "sRaft s" z n] by (auto simp: sim_def wf_log_def)
  then have one: "1 \<le> i" using i by linarith
  then have com: "nat i \<le> pCommit b n" using applied_committed [OF srun_fed [OF r1 mkSystem_fed] ab(2) zero _ w(2)] by simp
  have p: "prefix (pLog a n) (pLog b n)"
    using leader_keeps_log [OF ab(3-5) la(1,3)] sim_node(2) [OF ab(2), of n] same by simp
  have len: "nat i < length (pLog a n)" using la(2) i by simp
  then have "pLog b n ! nat i = pLog a n ! nat i" using prefix_nth [OF p] by simp
  then have "pLog b n ! nat i = \<lparr>leTerm = t, leIndex = i, leCommand = Some c\<rparr>" using la(2) i by simp
  then show ?thesis using that [OF r1 ab(2) w(2) one com] prefix_length_le [OF p] len by simp
qed

text \<open>It is in the log of every later leader, and the server's apply loop has taken it.\<close>

lemma acked_durable:
  assumes "distinct ps" "\<forall>p \<in> set ps. 0 \<le> p" "n \<in> set ps"
    and "srun ap ps evs (mkSystem ps ds reps) = Some s" "lastIdx (reps n) = 0"
    and "Propose n c s = Some ((i, t, True), s0)"
    and "WaitApplied ap lastIdx ps n i deadline polls s0 = Some (Some True, s1)"
    and same: "currentTerm (cNodes (sRaft s1) n) = t"
    and later: "srun ap ps evs' s1 = Some s2"
    and leader: "rstate (cNodes (sRaft s2) m) = Leader" "t \<le> currentTerm (cNodes (sRaft s2) m)"
  shows "\<exists>e. go_nth (rlog (cNodes (sRaft s2) m)) i = Some e \<and> leCommand e = Some c \<and> leTerm e = t"
proof -
  obtain evs1 b where e: "srun ap ps evs1 (mkSystem ps ds reps) = Some s1" "sim ps (sRaft s1) b" "nat i \<le> pCommit b n" "1 \<le> i"
      "pLog b n ! nat i = \<lparr>leTerm = t, leIndex = i, leCommand = Some c\<rparr>"
    using acked_entry [OF assms(1-8)] by metis
  obtain b' d where bd: "sim ps (sRaft s1) b'" "sim ps (sRaft s2) d" "pext b' d" "pinv (set ps) b'" "pinv (set ps) d"
    using srun_two [OF assms(1,2) e(1) later] by metis
  have b: "pLog b' n = pLog b n" "pCommit b' n = pCommit b n" "pTerm b' n = t"
    using sim_node(1-3) [OF bd(1), of n] sim_node(1-3) [OF e(2), of n] same by simp_all
  have d: "nat i < length (pLog d m) \<and> take (Suc (nat i)) (pLog d m) = take (Suc (nat i)) (pLog b' n)"
    using committed_in_leader [OF bd(4,5,3), of m "nat i" n] sim_node(2,4) [OF bd(2), of m] leader b e(3) by simp
  have "pLog d m ! nat i = pLog b n ! nat i" using arg_cong [OF conjunct2 [OF d], of "\<lambda>xs. xs ! nat i"] b by simp
  moreover have "i < int (length (pLog d m))" using d e(4) by linarith
  ultimately show ?thesis using sim_node(1) [OF bd(2), of m] e(4,5) by (simp add: go_nth_def)
qed

lemma acked_taken:
  assumes "distinct ps" "\<forall>p \<in> set ps. 0 \<le> p" "n \<in> set ps"
    and "srun ap ps evs (mkSystem ps ds reps) = Some s" and zero: "lastIdx (reps n) = 0"
    and "Propose n c s = Some ((i, t, True), s0)"
    and "WaitApplied ap lastIdx ps n i deadline polls s0 = Some (Some True, s1)"
    and "currentTerm (cNodes (sRaft s1) n) = t"
  shows "\<lparr>amCommandValid = True, amCommand = Some c, amCommandIndex = i\<rparr> \<in> set (take (sTaken s1 n) (cApply (sRaft s1) n))"
proof -
  let ?m = "\<lparr>amCommandValid = True, amCommand = Some c, amCommandIndex = i\<rparr>" and ?ms = "cApply (sRaft s1) n"
  obtain evs1 b where e: "srun ap ps evs1 (mkSystem ps ds reps) = Some s1" "sim ps (sRaft s1) b" "i \<le> lastIdx (sReps s1 n)" "1 \<le> i"
      "nat i < length (pLog b n)" "pLog b n ! nat i = \<lparr>leTerm = t, leIndex = i, leCommand = Some c\<rparr>"
    using acked_entry [OF assms] by metis
  have wf: "wf_log (pLog b n)" using e(2) pinv_logD(1) by (auto simp: sim_def)
  have ms: "?ms = applied_of (take (Suc (nat (lastApplied (cNodes (sRaft s1) n)))) (pLog b n))" using sim_node(7) [OF e(2)] .
  have fed: "fed ap reps s1" using srun_fed [OF e(1) mkSystem_fed] .
  have "lastIdx (sReps s1 n) \<noteq> lastIdx (reps n)" using e(3,4) zero by simp
  then obtain x where x: "x \<in> set (take (sTaken s1 n) ?ms)" "lastIdx (sReps s1 n) = amCommandIndex x"
    using fed fold_index [of "take (sTaken s1 n) ?ms" "reps n"] by (auto simp: fed_def)
  then obtain j where j: "j < sTaken s1 n" "j < length ?ms" "x = ?ms ! j" by (auto simp: in_set_conv_nth)
  have "\<exists>y \<in> set ?ms. y = ?m"
  proof -
    obtain k where k: "k \<le> nat (lastApplied (cNodes (sRaft s1) n))" "k < length (pLog b n)" "amCommandIndex x = leIndex (pLog b n ! k)"
    proof -
      obtain y where "y \<in> set (take (Suc (nat (lastApplied (cNodes (sRaft s1) n)))) (pLog b n))" "amCommandIndex x = leIndex y"
        using nth_mem [OF j(2)] j(3) unfolding ms by (auto simp: applied_of_def)
      then show thesis using that by (auto simp: in_set_conv_nth less_Suc_eq_le)
    qed
    then have "nat i \<le> k" using wf e(3) x(2) by (simp add: wf_log_def)
    then have "pLog b n ! nat i \<in> set (take (Suc (nat (lastApplied (cNodes (sRaft s1) n)))) (pLog b n))"
      using k e(5) by (auto simp: in_set_conv_nth intro!: exI [of _ "nat i"])
    then show ?thesis unfolding ms using e(6) by (force simp: applied_of_def)
  qed
  then obtain l where l: "l < length ?ms" "?ms ! l = ?m" by (auto simp: in_set_conv_nth)
  have "sorted_wrt (<) (map amCommandIndex ?ms)" unfolding ms by (rule sorted_applied(1) [OF wf])
  then have "\<not> j < l" using sorted_wrt_nth_less [of "(<)" "map amCommandIndex ?ms" j l] l j(2,3) e(3) x(2) by auto
  then show ?thesis using l j(1) by (auto simp: in_set_conv_nth intro!: exI [of _ l])
qed

end

end
