(* ===== verification/Replicated_Log.thy ===== *)
theory Replicated_Log
  imports Replication Storage_Safety Batch
begin

text \<open>
  The replicated partition (\<^verbatim>\<open>replication/partition.go\<close>) and the producer with its
  acknowledgment levels (\<^verbatim>\<open>producer/producer.go\<close>): the composition of the Raft cluster, the
  batch encoding and the storage log. Every replica has a disk of its own. The gzip decoder
  is an argument, as in the theory of batches.
\<close>

subsection \<open>The partition\<close>

text \<open>A command as the type assertion \<^verbatim>\<open>Command.([]byte)\<close> sees it.\<close>

datatype command = Bytes bytes | OtherValue

record 'k rpart =
  rpLog :: "'k slog"
  rpWorld :: "'k world"
  lastAppliedRaftIndex :: int

definition NewReplicatedPartition :: "string \<Rightarrow> 'k world \<Rightarrow> serr + 'k rpart" where
  "NewReplicatedPartition dir w =
     (case Open dir 0 (wDisk w) of
        (Inl e, _) \<Rightarrow> Inl e
      | (Inr l, d) \<Rightarrow> Inr \<lparr>rpLog = l, rpWorld = w\<lparr>wDisk := d\<rparr>, lastAppliedRaftIndex = 0\<rparr>)"

fun appendMessages :: "bytes list \<Rightarrow> 'k slog \<times> 'k world \<Rightarrow> 'k slog \<times> 'k world" where
  "appendMessages [] st = st"
| "appendMessages (m # ms) st = (case Append m st of (Inl _, st') \<Rightarrow> st' | (Inr _, st') \<Rightarrow> appendMessages ms st')"

definition rp_messages :: "(bytes \<Rightarrow> berr + bytes) \<Rightarrow> bytes \<Rightarrow> bytes list" where
  "rp_messages gunzip payload =
     (case TryDecode gunzip payload of
        (decoded, isBatch, err) \<Rightarrow> if err = None \<and> isBatch then decoded else [payload])"

definition applyLoop :: "(bytes \<Rightarrow> berr + bytes) \<Rightarrow> command ApplyMsg \<Rightarrow> 'k rpart \<Rightarrow> 'k rpart" where
  "applyLoop gunzip msg rp =
     (if \<not> amCommandValid msg then rp
      else (case amCommand msg of
              Some (Bytes payload) \<Rightarrow>
                (case appendMessages (rp_messages gunzip payload) (rpLog rp, rpWorld rp) of
                   (l, w) \<Rightarrow> \<lparr>rpLog = l, rpWorld = w, lastAppliedRaftIndex = amCommandIndex msg\<rparr>)
            | _ \<Rightarrow> rp))"

definition ReadLocal :: "int \<Rightarrow> 'k rpart \<Rightarrow> (serr + bytes) \<times> 'k rpart" where
  "ReadLocal offset rp =
     (case Read offset (rpLog rp, rpWorld rp) of (r, l, w) \<Rightarrow> (r, rp\<lparr>rpLog := l, rpWorld := w\<rparr>))"

definition NextLocalOffset :: "'k rpart \<Rightarrow> int" where
  "NextLocalOffset rp = NextOffset (rpLog rp)"

type_synonym 'k rsystem = "(command, 'k rpart) system"

definition rp_GetState :: "int \<Rightarrow> 'k rsystem \<Rightarrow> int \<times> bool" where
  "rp_GetState n s = GetState (cNodes (sRaft s) n)"

definition rp_Close :: "int \<Rightarrow> 'k rsystem \<Rightarrow> (serr + unit) \<times> 'k rsystem" where
  "rp_Close n s =
     (let s = s\<lparr>sRaft := set_node n (Kill (cNodes (sRaft s) n)) (sRaft s)\<rparr>; rp = sReps s n in
      case Close (rpLog rp, rpWorld rp) of
        (r, l, w) \<Rightarrow> (r, s\<lparr>sReps := (sReps s)(n := rp\<lparr>rpLog := l, rpWorld := w\<rparr>)\<rparr>))"

subsection \<open>The producer\<close>

definition AckNone :: int where
  "AckNone = 0"

definition AckLeader :: int where
  "AckLeader = 1"

definition AckAll :: int where
  "AckAll = 2"

datatype perr = ErrNotLeader | ErrCommitTimeout | UnknownAckLevel

definition defaultCommitTimeout :: int where
  "defaultCommitTimeout = 2 * 1000000000"

text \<open>
  \<^verbatim>\<open>Write\<close>, called at time \<open>now\<close>. The result is \<^const>\<open>None\<close> while the call waits.
\<close>

definition Write :: "(bytes \<Rightarrow> berr + bytes) \<Rightarrow> int list \<Rightarrow> int \<Rightarrow> bytes \<Rightarrow> int \<Rightarrow> int \<Rightarrow>
    (int \<times> command sevent list) list \<Rightarrow> 'k rsystem \<Rightarrow> ((perr + int) option \<times> 'k rsystem) option" where
  "Write gunzip ps n payload ack now polls s = do {
     ((idx, term, isLeader), s1) \<leftarrow> Propose n (Bytes payload) s;
     if ack = AckNone then Some (Some (Inr idx), s1)
     else if ack = AckLeader then
       (if \<not> isLeader then Some (Some (Inl ErrNotLeader), s1) else Some (Some (Inr idx), s1))
     else if ack = AckAll then
       (if \<not> isLeader then Some (Some (Inl ErrNotLeader), s1)
        else do {
          (r, s2) \<leftarrow> WaitApplied (applyLoop gunzip) lastAppliedRaftIndex ps n idx (now + defaultCommitTimeout) polls s1;
          Some (map_option (\<lambda>applied. if applied then Inr idx else Inl ErrCommitTimeout) r, s2)
        })
     else Some (Some (Inl UnknownAckLevel), s1)
   }"

subsection \<open>The records of a replica\<close>

definition rp_holds :: "string \<Rightarrow> disk rpart \<Rightarrow> bytes list \<Rightarrow> bool" where
  "rp_holds cd rp rs \<longleftrightarrow> dir_log cd (rpLog rp, rpWorld rp) 0 rs"

definition msg_records :: "(bytes \<Rightarrow> berr + bytes) \<Rightarrow> command ApplyMsg \<Rightarrow> bytes list" where
  "msg_records gunzip msg =
     (case amCommand msg of
        Some (Bytes payload) \<Rightarrow> if amCommandValid msg then rp_messages gunzip payload else []
      | _ \<Rightarrow> [])"

text \<open>The messages that reach a replica fit its log: none of 4 GiB or more, fewer than \<open>2^63\<close> in all.\<close>

definition rp_room :: "(bytes \<Rightarrow> berr + bytes) \<Rightarrow> command ApplyMsg list \<Rightarrow> 'k rpart \<Rightarrow> bool" where
  "rp_room gunzip ms rp \<longleftrightarrow> log_fits (concat (map (msg_records gunzip) ms)) (rpLog rp, rpWorld rp)"

lemma appendMessages_holds:
  assumes "dir_log cd st o' rs" "log_fits (ms @ ms') st"
  shows "dir_log cd (appendMessages ms st) o' (rs @ ms) \<and> log_fits ms' (appendMessages ms st)"
  using assms
proof (induction ms arbitrary: st rs)
  case (Cons m ms)
  obtain st1 where "Append m st = (Inr (o' + int (length rs)), st1)" "dir_log cd st1 o' (rs @ [m])" "log_fits (ms @ ms') st1"
    using local_dir.log.append_holds [of cd st o' rs m "ms @ ms'"] Cons.prems by auto
  then show ?case using Cons.IH [of st1 "rs @ [m]"] by simp
qed simp

lemma applyLoop_holds:
  assumes "rp_holds cd rp rs" "rp_room gunzip (m # ms) rp"
  shows "rp_holds cd (applyLoop gunzip m rp) (rs @ msg_records gunzip m) \<and> rp_room gunzip ms (applyLoop gunzip m rp)"
proof -
  let ?st = "appendMessages (msg_records gunzip m) (rpLog rp, rpWorld rp)"
  have "dir_log cd ?st 0 (rs @ msg_records gunzip m) \<and> log_fits (concat (map (msg_records gunzip) ms)) ?st"
    using appendMessages_holds [of cd "(rpLog rp, rpWorld rp)" 0 rs] assms by (auto simp: rp_holds_def rp_room_def)
  then show ?thesis
    by (cases "appendMessages (msg_records gunzip m) (rpLog rp, rpWorld rp)")
      (auto simp: applyLoop_def rp_holds_def rp_room_def msg_records_def split: option.splits command.splits if_splits)
qed

interpretation rpart: state_machine "applyLoop gunzip" "rp_holds cd" "\<lambda>m rs. rs @ msg_records gunzip m" "rp_room gunzip"
  for gunzip cd
proof
  show "rp_holds cd (applyLoop gunzip m rp) (rs @ msg_records gunzip m) \<and> rp_room gunzip ms (applyLoop gunzip m rp)"
    if "rp_holds cd rp rs" "rp_room gunzip (m # ms) rp" for rp rs m ms using applyLoop_holds [OF that] .
  show "rp_room gunzip ms rp" if "rp_room gunzip (ms @ ms') rp" for ms ms' rp
    using that by (auto simp: rp_room_def log_fits_def)
qed

interpretation rpart_index: applied_index "applyLoop gunzip" lastAppliedRaftIndex for gunzip
  by unfold_locales (auto simp: applyLoop_def split: option.splits command.splits prod.splits)

lemma fold_records: "fold (\<lambda>m rs. rs @ msg_records gunzip m) ms rs = rs @ concat (map (msg_records gunzip) ms)"
  by (induction ms arbitrary: rs) auto

text \<open>A partition on an empty directory holds no record.\<close>

lemma NewReplicatedPartition_holds:
  assumes "faults (wDisk w) = []" "faults (wCold w) = []" "\<forall>n. fs_get (wDisk w) (dir, n) \<noteq> None \<longrightarrow> segment_of_name n = None"
  shows "\<exists>rp. NewReplicatedPartition dir w = Inr rp \<and> rp_holds cd rp [] \<and> lastAppliedRaftIndex rp = 0 \<and> NextLocalOffset rp = 0"
proof -
  obtain l d where l: "(Open dir 0 (wDisk w) :: (serr + disk slog) \<times> disk) = (Inr l, d)"
      "log_ok (LocalDirColdStore cd) (dir_look cd) l \<lparr>wDisk = d, wCold = wCold w\<rparr> [[]]" "OldestOffset l = 0"
    using Open_fresh [OF assms(1,3), of 0 "LocalDirColdStore cd" "dir_look cd" "wCold w"] by auto
  have w: "w\<lparr>wDisk := d\<rparr> = \<lparr>wDisk = d, wCold = wCold w\<rparr>" by (cases w) simp
  have "dir_log cd (l, w\<lparr>wDisk := d\<rparr>) 0 []"
    unfolding w using l(2,3) assms(2) by (auto simp: log_holds_def intro!: exI [of _ "[[]]"])
  then show ?thesis using l(1) NextOffset_holds by (fastforce simp: NewReplicatedPartition_def rp_holds_def NextLocalOffset_def)
qed


lemma ReadLocal_holds:
  assumes "rp_holds cd rp rs" "fst (ReadLocal x rp) = Inr b"
  shows "0 \<le> x \<and> x < int (length rs) \<and> b = rs ! nat x"
proof -
  have d: "dir_log cd (rpLog rp, rpWorld rp) 0 rs" using assms(1) by (simp add: rp_holds_def)
  have r: "fst (Read x (rpLog rp, rpWorld rp)) = Inr b" using assms(2) by (simp add: ReadLocal_def split: prod.splits)
  then have "0 \<le> x \<and> x < int (length rs)" using local_dir.log.read_out [OF d, of x] by force
  then show ?thesis using local_dir.log.read_in [OF d, of "nat x"] r by (simp add: nat_less_iff)
qed

lemma replicas_records:
  assumes "distinct ps" "\<forall>p \<in> set ps. 0 \<le> p"
    and "srun (applyLoop gunzip) ps evs1 (mkSystem ps ds reps) = Some s" "srun (applyLoop gunzip) ps evs2 s = Some s'"
    and "rp_holds cd (reps n) []" "rp_holds cd (reps m) []"
    and "rp_room gunzip (cApply (sRaft s) n) (reps n)" "rp_room gunzip (cApply (sRaft s') m) (reps m)"
  obtains rs k k' where "rp_holds cd (sReps s n) (take k rs)" "rp_holds cd (sReps s' m) (take k' rs)"
proof -
  let ?r = "\<lambda>ms. concat (map (msg_records gunzip) ms)"
  obtain ms k k' where h: "rp_holds cd (sReps s n) (?r (take k ms))" "rp_holds cd (sReps s' m) (?r (take k' ms))"
    using rpart.replicas_agree [OF assms] by (simp add: fold_records) metis
  have t: "?r (take j ms) = take (length (?r (take j ms))) (?r ms)" for j
    by (metis append_eq_conv_conj append_take_drop_id concat_append map_append)
  show ?thesis using h that [of "length (?r (take k ms))" "?r ms" "length (?r (take k' ms))"] unfolding t [symmetric] by blast
qed

subsection \<open>Properties\<close>


text \<open>Three replicas with empty disks; server 0 is elected.\<close>

definition empty_world :: "disk world" where
  "empty_world = \<lparr>wDisk = no_files, wCold = no_files\<rparr>"

definition fresh_rp :: "disk rpart" where
  "fresh_rp = (case NewReplicatedPartition ''d'' empty_world of Inr rp \<Rightarrow> rp | Inl _ \<Rightarrow> undefined)"

definition no_gunzip :: "bytes \<Rightarrow> berr + bytes" where
  "no_gunzip z = Inl GzipErr"

abbreviation demo_servers :: "int list" where
  "demo_servers \<equiv> [0, 1, 2]"

definition fresh_system :: "disk rsystem" where
  "fresh_system = mkSystem demo_servers (\<lambda>_. (0, 0)) (\<lambda>_. fresh_rp)"

definition elect_0 :: "command sevent list" where
  "elect_0 = map ERaft [EvTick 0 0 (0, 0), EvTick 0 700000000 (0, 0), EvTick 0 700000000 (700000000, 0),
     EvAdmit 0 500, EvHandle 0 (0, 0) (0, 0), EvReturn 0, EvReply 0 (0, 0)]"

definition replicate_to_1 :: "command sevent list" where
  "replicate_to_1 = map ERaft [EvSend 0 1, EvAdmit 1 500, EvHandle 1 (0, 0) (0, 0), EvReturn 1, EvReply 1 (0, 0), EvApply 0] @ [ETake 0]"

definition follower_applies :: "command sevent list" where
  "follower_applies = map ERaft [EvSend 0 1, EvAdmit 1 500, EvHandle 1 (0, 0) (0, 0), EvApply 1] @ [ETake 1]"

definition led_system :: "disk rsystem" where
  "led_system = the (srun (applyLoop no_gunzip) demo_servers elect_0 fresh_system)"

lemma fresh_rp_holds: "rp_holds cd fresh_rp []" "lastAppliedRaftIndex fresh_rp = 0" "NextLocalOffset fresh_rp = 0"
  using NewReplicatedPartition_holds [of empty_world "''d''" cd]
  by (auto simp: fresh_rp_def empty_world_def no_files_def fs_get_def)

lemma led_system_run: "srun (applyLoop no_gunzip) demo_servers elect_0 fresh_system = Some led_system"
proof -
  have "srun (applyLoop no_gunzip) demo_servers elect_0 fresh_system \<noteq> None" by code_simp
  then show ?thesis by (auto simp: led_system_def)
qed


definition shared_first :: "command sevent list" where
  "shared_first = elect_0 @ [ERaft (EvStart 0 (Bytes [7]))] @ replicate_to_1"

definition shared_mid :: "disk rsystem" where
  "shared_mid = the (srun (applyLoop no_gunzip) demo_servers shared_first fresh_system)"

definition shared_end :: "disk rsystem" where
  "shared_end = the (srun (applyLoop no_gunzip) demo_servers follower_applies shared_mid)"

lemma shared_runs:
  "srun (applyLoop no_gunzip) demo_servers shared_first fresh_system = Some shared_mid"
  "srun (applyLoop no_gunzip) demo_servers follower_applies shared_mid = Some shared_end"
proof -
  have "srun (applyLoop no_gunzip) demo_servers shared_first fresh_system \<noteq> None" by code_simp
  then show "srun (applyLoop no_gunzip) demo_servers shared_first fresh_system = Some shared_mid" by (auto simp: shared_mid_def)
  have "srun (applyLoop no_gunzip) demo_servers follower_applies shared_mid \<noteq> None" by code_simp
  then show "srun (applyLoop no_gunzip) demo_servers follower_applies shared_mid = Some shared_end" by (auto simp: shared_end_def)
qed

lemma shared_applied:
  "cApply (sRaft shared_mid) 0 = [\<lparr>amCommandValid = True, amCommand = Some (Bytes [7]), amCommandIndex = 2\<rparr>]"
  "cApply (sRaft shared_end) 1 = [\<lparr>amCommandValid = True, amCommand = Some (Bytes [7]), amCommandIndex = 2\<rparr>]"
  by code_simp+


text \<open>
  C4: A write acknowledged at \<^verbatim>\<open>AckAll\<close> is not lost, provided the server that took it is
  still in the term in which it took it when the call returns: at every later moment every
  leader of that or a later term has the payload in its log, at the index that was returned.
\<close>

theorem ack_all_durable:
  assumes "distinct ps" "\<forall>p \<in> set ps. 0 \<le> p" "n \<in> set ps"
    and "srun (applyLoop gunzip) ps evs (mkSystem ps ds reps) = Some s" "lastAppliedRaftIndex (reps n) = 0"
    and "Write gunzip ps n payload AckAll now polls s = Some (Some (Inr i), s1)"
    and "currentTerm (cNodes (sRaft s1) n) = currentTerm (cNodes (sRaft s) n)"
    and "srun (applyLoop gunzip) ps evs' s1 = Some s2"
    and "rstate (cNodes (sRaft s2) m) = Leader" "currentTerm (cNodes (sRaft s1) n) \<le> currentTerm (cNodes (sRaft s2) m)"
  shows "\<exists>e. go_nth (rlog (cNodes (sRaft s2) m)) i = Some e \<and> leCommand e = Some (Bytes payload)"
proof -
  obtain t s0 where p: "Propose n (Bytes payload) s = Some ((i, t, True), s0)"
      "WaitApplied (applyLoop gunzip) lastAppliedRaftIndex ps n i (now + defaultCommitTimeout) polls s0 = Some (Some True, s1)"
    using assms(6) by (auto simp: Write_def AckNone_def AckLeader_def AckAll_def split: bind_splits if_splits)
  have "t = currentTerm (cNodes (sRaft s) n)" using Propose_run(3) [OF p(1) assms(3)] .
  with rpart_index.acked_durable [OF assms(1-5) p _ assms(8,9)] assms(7,10) show ?thesis by auto
qed

definition write_polls :: "(int \<times> command sevent list) list" where
  "write_polls = [(0, []), (10000000, replicate_to_1)]"

definition acked_system :: "disk rsystem" where
  "acked_system = snd (the (Write no_gunzip demo_servers 0 [7] AckAll 0 write_polls led_system))"

lemma acked_run: "Write no_gunzip demo_servers 0 [7] AckAll 0 write_polls led_system = Some (Some (Inr 2), acked_system)"
proof -
  have "map_option fst (Write no_gunzip demo_servers 0 [7] AckAll 0 write_polls led_system) = Some (Some (Inr 2))" by code_simp
  then show ?thesis by (auto simp: acked_system_def)
qed

definition elect_1 :: "command sevent list" where
  "elect_1 = map ERaft [EvDisconnect 0, EvTick 1 0 (0, 0), EvTick 1 2000000000 (0, 0), EvTick 1 2000000000 (2000000000, 0),
     EvAdmit 2 500, EvHandle 2 (2000000000, 0) (2000000000, 0), EvReturn 2, EvReply 2 (0, 0)]"

definition next_leader :: "disk rsystem" where
  "next_leader = the (srun (applyLoop no_gunzip) demo_servers elect_1 acked_system)"

theorem ack_all_durable_witness:
  "rstate (cNodes (sRaft next_leader) 1) = Leader
    \<and> (\<exists>e. go_nth (rlog (cNodes (sRaft next_leader) 1)) 2 = Some e \<and> leCommand e = Some (Bytes [7]))"
proof -
  have run: "srun (applyLoop no_gunzip) demo_servers elect_1 acked_system = Some next_leader"
  proof -
    have "srun (applyLoop no_gunzip) demo_servers elect_1 acked_system \<noteq> None" by code_simp
    then show ?thesis by (auto simp: next_leader_def)
  qed
  have a: "rstate (cNodes (sRaft next_leader) 1) = Leader" by code_simp
  have b: "currentTerm (cNodes (sRaft acked_system) 0) = 1" "currentTerm (cNodes (sRaft led_system) 0) = 1"
    "currentTerm (cNodes (sRaft next_leader) 1) = 2" by code_simp+
  show ?thesis
    using ack_all_durable [OF _ _ _ led_system_run [unfolded fresh_system_def] _ acked_run _ run a] b fresh_rp_holds(2) a by simp
qed


subsection \<open>What is not guaranteed\<close>

text \<open>
  Server 0 is cut off when it takes the payload \<open>[9]\<close>; server 1 is elected, commits \<open>[1]\<close> and
  \<open>[2]\<close> with server 2, and then server 0 is back and receives them, within the two seconds of
  the call.
\<close>

definition takeover :: "command sevent list" where
  "takeover = map ERaft [EvTick 1 0 (0, 0), EvTick 1 2000000000 (0, 0), EvTick 1 2000000000 (2000000000, 0),
     EvAdmit 2 500, EvHandle 2 (2000000000, 0) (2000000000, 0), EvReturn 2, EvReply 2 (0, 0),
     EvStart 1 (Bytes [1]), EvStart 1 (Bytes [2]), EvSend 1 2, EvAdmit 2 500, EvHandle 2 (0, 0) (0, 0), EvReturn 2, EvReply 2 (0, 0),
     EvConnect 0, EvSend 1 0, EvAdmit 2 500, EvHandle 2 (0, 0) (0, 0), EvApply 0] @ [ETake 0]"


definition two_writes :: "command ApplyMsg list" where
  "two_writes = [\<lparr>amCommandValid = True, amCommand = Some (Bytes [1]), amCommandIndex = 2\<rparr>,
     \<lparr>amCommandValid = True, amCommand = Some (Bytes [2]), amCommandIndex = 3\<rparr>]"

definition failing_rp :: "disk rpart" where
  "failing_rp = fresh_rp\<lparr>rpWorld := (rpWorld fresh_rp)\<lparr>wDisk := (wDisk (rpWorld fresh_rp))\<lparr>faults := [Some 0]\<rparr>\<rparr>\<rparr>"

text \<open>
  When one append fails on one replica, its loop goes on: the offsets of all later
  records differ between the replicas, although both report the same last applied index.
\<close>

theorem failed_append_shifts_offsets:
  "(let a = fold (applyLoop no_gunzip) two_writes fresh_rp; b = fold (applyLoop no_gunzip) two_writes failing_rp in
    lastAppliedRaftIndex a = 3 \<and> lastAppliedRaftIndex b = 3
    \<and> fst (ReadLocal 0 a) = Inr [1] \<and> fst (ReadLocal 0 b) = Inr [2]
    \<and> NextLocalOffset a = 2 \<and> NextLocalOffset b = 1)"
  by code_simp

end
