(* ===== verification/Json_Strings.thy ===== *)
theory Json_Strings
  imports Prelude
begin

text \<open>
  String literals of JSON texts as \<^verbatim>\<open>encoding/json\<close> reads and writes them: UTF-8, the quoting
  of strings with the HTML-safe escapes of \<^verbatim>\<open>json.Marshal\<close>, the scanner of literals, its inverse
  \<^verbatim>\<open>unquote\<close>, and the escapes that compaction adds. A Go string or byte slice is a \<^typ>\<open>string\<close>
  here, one character per byte. Quoting and unquoting give back the string when it is
  valid UTF-8, and the string with each invalid byte replaced by U+FFFD otherwise.
\<close>

subsection \<open>UTF-8\<close>

abbreviation code :: "char \<Rightarrow> int" where "code c \<equiv> of_char c"

definition cont :: "char \<Rightarrow> bool" where
  "cont c \<longleftrightarrow> 0x80 \<le> code c \<and> code c \<le> 0xBF"

definition second_ok :: "int \<Rightarrow> char \<Rightarrow> bool" where
  "second_ok b c \<longleftrightarrow> (if b = 0xE0 then 0xA0 else if b = 0xF0 then 0x90 else 0x80) \<le> code c
     \<and> code c \<le> (if b = 0xED then 0x9F else if b = 0xF4 then 0x8F else 0xBF)"

text \<open>The length of the first rune, 0 where \<^verbatim>\<open>utf8.DecodeRune\<close> finds an invalid encoding.\<close>

fun rune_len :: "string \<Rightarrow> nat" where
  "rune_len [] = 0"
| "rune_len (c # r) =
     (if code c < 0x80 then 1
      else if 0xC2 \<le> code c \<and> code c \<le> 0xDF then
        (case r of c1 # _ \<Rightarrow> if cont c1 then 2 else 0 | _ \<Rightarrow> 0)
      else if 0xE0 \<le> code c \<and> code c \<le> 0xEF then
        (case r of c1 # c2 # _ \<Rightarrow> if second_ok (code c) c1 \<and> cont c2 then 3 else 0 | _ \<Rightarrow> 0)
      else if 0xF0 \<le> code c \<and> code c \<le> 0xF4 then
        (case r of c1 # c2 # c3 # _ \<Rightarrow> if second_ok (code c) c1 \<and> cont c2 \<and> cont c3 then 4 else 0 | _ \<Rightarrow> 0)
      else 0)"

definition put_rune :: "int \<Rightarrow> string" where
  "put_rune v =
     (if v < 0x80 then [char_of v]
      else if v < 0x800 then [char_of (0xC0 + v div 0x40), char_of (0x80 + v mod 0x40)]
      else if v < 0x10000 then
        [char_of (0xE0 + v div 0x1000), char_of (0x80 + v div 0x40 mod 0x40), char_of (0x80 + v mod 0x40)]
      else
        [char_of (0xF0 + v div 0x40000), char_of (0x80 + v div 0x1000 mod 0x40), char_of (0x80 + v div 0x40 mod 0x40),
         char_of (0x80 + v mod 0x40)])"

definition fffd :: string where
  "fffd = put_rune 0xFFFD"

text \<open>Every byte of an invalid encoding replaced by U+FFFD.\<close>

function to_valid :: "string \<Rightarrow> string" where
  "to_valid s =
     (if s = [] then []
      else if rune_len s = 0 then fffd @ to_valid (tl s)
      else take (rune_len s) s @ to_valid (drop (rune_len s) s))"
  by auto
termination by (relation "measure length") auto

function valid_utf8 :: "string \<Rightarrow> bool" where
  "valid_utf8 s = (if s = [] then True else if rune_len s = 0 then False else valid_utf8 (drop (rune_len s) s))"
  by auto
termination by (relation "measure length") auto

declare to_valid.simps [simp del] valid_utf8.simps [simp del]

subsection \<open>Strings\<close>

abbreviation qt :: char where "qt \<equiv> CHR 0x22"
abbreviation bsl :: char where "bsl \<equiv> CHR 0x5C"

definition hexd :: "int \<Rightarrow> char" where
  "hexd d = (if d < 10 then char_of (48 + d) else char_of (87 + d))"

definition is_hex :: "char \<Rightarrow> bool" where
  "is_hex c \<longleftrightarrow> 48 \<le> code c \<and> code c \<le> 57 \<or> 97 \<le> code c \<and> code c \<le> 102 \<or> 65 \<le> code c \<and> code c \<le> 70"

definition hexv :: "char \<Rightarrow> int" where
  "hexv c = (if code c \<le> 57 then code c - 48 else if 97 \<le> code c then code c - 87 else code c - 55)"

definition hex_num :: "string \<Rightarrow> int" where
  "hex_num cs = foldl (\<lambda>n c. 16 * n + hexv c) 0 cs"

text \<open>Characters that \<^verbatim>\<open>json.Marshal\<close> escapes for HTML, and the two line separators it escapes for JavaScript.\<close>

definition html :: "char \<Rightarrow> bool" where
  "html c \<longleftrightarrow> c = CHR ''<'' \<or> c = CHR ''>'' \<or> c = CHR ''&''"

definition line_sep :: "string \<Rightarrow> bool" where
  "line_sep s \<longleftrightarrow> take 3 s = [CHR 0xE2, CHR 0x80, CHR 0xA8] \<or> take 3 s = [CHR 0xE2, CHR 0x80, CHR 0xA9]"

definition u00 :: "char \<Rightarrow> string" where
  "u00 c = bsl # ''u00'' @ [hexd (code c div 16), hexd (code c mod 16)]"

definition u202 :: "string \<Rightarrow> string" where
  "u202 s = bsl # ''u202'' @ [hexd (code (s ! 2) mod 16)]"

definition ufffd :: string where
  "ufffd = bsl # ''ufffd''"

definition escape1 :: "char \<Rightarrow> string" where
  "escape1 c =
     (if c = bsl \<or> c = qt then [bsl, c]
      else if code c = 8 then [bsl, CHR ''b'']
      else if code c = 12 then [bsl, CHR ''f'']
      else if code c = 10 then [bsl, CHR ''n'']
      else if code c = 13 then [bsl, CHR ''r'']
      else if code c = 9 then [bsl, CHR ''t'']
      else if code c < 0x20 \<or> html c then u00 c
      else [c])"

text \<open>The text between the quotes that \<^verbatim>\<open>Marshal\<close> writes for a string.\<close>

function quote :: "string \<Rightarrow> string" where
  "quote s =
     (if s = [] then []
      else if rune_len s = 0 then ufffd @ quote (tl s)
      else if rune_len s = 1 then escape1 (hd s) @ quote (tl s)
      else if line_sep s then u202 s @ quote (drop 3 s)
      else take (rune_len s) s @ quote (drop (rune_len s) s))"
  by auto
termination by (relation "measure length") auto

declare quote.simps [simp del]

text \<open>The length of the first unit of a string literal, 0 where the scanner reports an error.\<close>

definition unit_len :: "string \<Rightarrow> nat" where
  "unit_len s =
     (case s of
        [] \<Rightarrow> 0
      | c # r \<Rightarrow>
          if c = qt \<or> code c < 0x20 then 0
          else if c = bsl then
            (case r of
               [] \<Rightarrow> 0
             | e # r1 \<Rightarrow>
                 if e = CHR ''u'' then (if 4 \<le> length r1 \<and> list_all is_hex (take 4 r1) then 6 else 0)
                 else if e \<in> set ''bfnrt/'' \<or> e = bsl \<or> e = qt then 2 else 0)
          else 1)"

lemma unit_len_pos: "0 < unit_len s \<Longrightarrow> s \<noteq> []"
  by (auto simp: unit_len_def)

function scan_str :: "string \<Rightarrow> (string \<times> string) option" where
  "scan_str s =
     (if s \<noteq> [] \<and> hd s = qt then Some ([], tl s)
      else if unit_len s = 0 then None
      else map_option (\<lambda>(a, r). (take (unit_len s) s @ a, r)) (scan_str (drop (unit_len s) s)))"
  by auto
termination by (relation "measure length") (auto simp: unit_len_pos)

declare scan_str.simps [simp del]

definition simple_escape :: "char \<Rightarrow> char" where
  "simple_escape e =
     (if e = CHR ''b'' then CHR 8 else if e = CHR ''f'' then CHR 12 else if e = CHR ''n'' then CHR 10
      else if e = CHR ''r'' then CHR 13 else if e = CHR ''t'' then CHR 9 else e)"

definition surrogate :: "int \<Rightarrow> bool" where
  "surrogate v \<longleftrightarrow> 0xD800 \<le> v \<and> v < 0xE000"

text \<open>The low half of a surrogate pair, when the text goes on with one.\<close>

definition low_half :: "string \<Rightarrow> int option" where
  "low_half s =
     (if 6 \<le> length s \<and> s ! 0 = bsl \<and> s ! 1 = CHR ''u'' \<and> list_all is_hex (take 4 (drop 2 s))
         \<and> 0xDC00 \<le> hex_num (take 4 (drop 2 s)) \<and> hex_num (take 4 (drop 2 s)) < 0xE000
      then Some (hex_num (take 4 (drop 2 s))) else None)"

text \<open>\<^verbatim>\<open>unquote\<close>: the string of a scanned literal, given the text between its quotes.\<close>

function unquote :: "string \<Rightarrow> string" where
  "unquote s =
     (if s = [] then []
      else if hd s = bsl \<and> 2 \<le> length s then
        (if s ! 1 = CHR ''u'' then
           (let v = hex_num (take 4 (drop 2 s)); r = drop 6 s in
            if surrogate v then
              (case low_half r of
                 Some w \<Rightarrow> if v < 0xDC00 then put_rune (0x10000 + (v - 0xD800) * 0x400 + (w - 0xDC00)) @ unquote (drop 6 r)
                           else fffd @ unquote r
               | None \<Rightarrow> fffd @ unquote r)
            else put_rune v @ unquote r)
         else simple_escape (s ! 1) # unquote (drop 2 s))
      else if rune_len s = 0 then fffd @ unquote (tl s)
      else take (rune_len s) s @ unquote (drop (rune_len s) s))"
  by auto
termination by (relation "measure length") auto

declare unquote.simps [simp del]

text \<open>The escapes that compaction applies inside the string literals of a raw value.\<close>

function hesc :: "string \<Rightarrow> string" where
  "hesc s =
     (if s = [] then []
      else if html (hd s) then u00 (hd s) @ hesc (tl s)
      else if line_sep s then u202 s @ hesc (drop 3 s)
      else hd s # hesc (tl s))"
  by auto
termination by (relation "measure length") auto

declare hesc.simps [simp del]

subsection \<open>Quoting and scanning\<close>

definition add_text :: "string \<Rightarrow> (string \<times> string) option \<Rightarrow> (string \<times> string) option" where
  "add_text u x = (case x of None \<Rightarrow> None | Some (a, r) \<Rightarrow> Some (u @ a, r))"

lemma add_text_simps [simp]: "add_text [] x = x" "add_text a (add_text b x) = add_text (a @ b) x" "add_text a (Some (b, r)) = Some (a @ b, r)"
  by (auto simp: add_text_def split: option.splits)

lemma rune_intros:
  "code c < 0x80 \<Longrightarrow> rune_len (c # r) = 1"
  "0xC2 \<le> code c \<Longrightarrow> code c \<le> 0xDF \<Longrightarrow> cont c1 \<Longrightarrow> rune_len (c # c1 # r) = 2"
  "0xE0 \<le> code c \<Longrightarrow> code c \<le> 0xEF \<Longrightarrow> second_ok (code c) c1 \<Longrightarrow> cont c2 \<Longrightarrow> rune_len (c # c1 # c2 # r) = 3"
  "0xF0 \<le> code c \<Longrightarrow> code c \<le> 0xF4 \<Longrightarrow> second_ok (code c) c1 \<Longrightarrow> cont c2 \<Longrightarrow> cont c3 \<Longrightarrow> rune_len (c # c1 # c2 # c3 # r) = 4"
  by simp_all

lemma rune_cases:
  assumes "rune_len s \<noteq> 0"
  obtains (R1) c r where "s = c # r" "code c < 0x80" "rune_len s = 1"
  | (R2) c c1 r where "s = c # c1 # r" "0xC2 \<le> code c" "code c \<le> 0xDF" "cont c1" "rune_len s = 2"
  | (R3) c c1 c2 r where "s = c # c1 # c2 # r" "0xE0 \<le> code c" "code c \<le> 0xEF" "second_ok (code c) c1" "cont c2" "rune_len s = 3"
  | (R4) c c1 c2 c3 r where "s = c # c1 # c2 # c3 # r" "0xF0 \<le> code c" "code c \<le> 0xF4" "second_ok (code c) c1" "cont c2" "cont c3"
      "rune_len s = 4"
proof (cases s)
  case (Cons c r)
  show ?thesis using assms unfolding Cons rune_len.simps
    by (cases r; cases "tl r"; cases "tl (tl r)") (auto split: if_splits intro: R1 R2 R3 R4 simp: Cons)
qed (use assms in simp)

declare rune_len.simps(2) [simp del]

text \<open>A rune is read the same whatever follows it, and a longer one has no ASCII byte.\<close>

lemma rune_len_take:
  assumes "rune_len s \<noteq> 0"
  shows "rune_len (take (rune_len s) s @ x) = rune_len s"
  using assms by (cases rule: rune_cases) (simp_all add: rune_intros)

lemma second_ok_cont: "second_ok b c \<Longrightarrow> cont c"
  by (auto simp: second_ok_def cont_def split: if_splits)

lemma rune_high:
  assumes "2 \<le> rune_len s" "c \<in> set (take (rune_len s) s)"
  shows "0x80 \<le> code c"
proof -
  from assms have "rune_len s \<noteq> 0" by simp
  then show ?thesis using assms by (cases rule: rune_cases) (auto dest!: second_ok_cont simp: cont_def)
qed

lemma rune_one: "rune_len s = 1 \<longleftrightarrow> s \<noteq> [] \<and> code (hd s) < 0x80"
proof
  assume "rune_len s = 1"
  then have "rune_len s \<noteq> 0" by simp
  then show "s \<noteq> [] \<and> code (hd s) < 0x80" using \<open>rune_len s = 1\<close> by (cases rule: rune_cases) auto
qed (cases s, auto simp: rune_intros)

lemma code_range: "0 \<le> code c" "code c < 256"
proof -
  have "code c = int (of_char c)" by (cases c) simp
  moreover have "of_char c < (256 :: nat)" by simp
  ultimately show "0 \<le> code c" "code c < 256" by linarith+
qed

lemma code_div: "code c div 16 < 16" "0 \<le> code c div 16"
  using code_range [of c] by auto

lemma hexd_hex: "0 \<le> d \<Longrightarrow> d < 16 \<Longrightarrow> is_hex (hexd d)" "0 \<le> d \<Longrightarrow> d < 16 \<Longrightarrow> hexv (hexd d) = d"
  by (auto simp: hexd_def is_hex_def hexv_def)

lemma to_valid_eqs:
  "to_valid [] = []"
  "s \<noteq> [] \<Longrightarrow> rune_len s = 0 \<Longrightarrow> to_valid s = fffd @ to_valid (tl s)"
  "rune_len s \<noteq> 0 \<Longrightarrow> to_valid s = take (rune_len s) s @ to_valid (drop (rune_len s) s)"
  by (subst to_valid.simps; auto)+

lemma valid_to_valid: "valid_utf8 s \<Longrightarrow> to_valid s = s"
proof (induction s rule: valid_utf8.induct)
  case (1 s)
  from "1.prems" show ?case
    by (subst (asm) valid_utf8.simps) (use "1.IH" in \<open>auto simp: to_valid_eqs split: if_splits\<close>)
qed

lemma unit_one: "c \<noteq> qt \<Longrightarrow> c \<noteq> bsl \<Longrightarrow> 0x20 \<le> code c \<Longrightarrow> unit_len (c # r) = 1"
  by (simp add: unit_len_def)

lemma unit_simple: "e \<in> set ''bfnrt/'' \<or> e = bsl \<or> e = qt \<Longrightarrow> unit_len (bsl # e # r) = 2"
  by (auto simp: unit_len_def)

lemma unit_hex:
  assumes "is_hex a" "is_hex b" "is_hex c" "is_hex d"
  shows "unit_len (bsl # CHR ''u'' # a # b # c # d # r) = 6"
  using assms by (simp add: unit_len_def)

lemma scan_one: "c \<noteq> qt \<Longrightarrow> c \<noteq> bsl \<Longrightarrow> 0x20 \<le> code c \<Longrightarrow> scan_str (c # r) = add_text [c] (scan_str r)"
  by (subst scan_str.simps) (auto simp: unit_one add_text_def split: option.splits)

lemma scan_simple:
  "e \<in> set ''bfnrt/'' \<or> e = bsl \<or> e = qt \<Longrightarrow> scan_str (bsl # e # r) = add_text [bsl, e] (scan_str r)"
  by (subst scan_str.simps) (auto simp: unit_simple add_text_def split: option.splits)

lemma scan_hex:
  assumes "is_hex a" "is_hex b" "is_hex c" "is_hex d"
  shows "scan_str (bsl # CHR ''u'' # a # b # c # d # r) = add_text [bsl, CHR ''u'', a, b, c, d] (scan_str r)"
  using assms by (subst scan_str.simps) (auto simp: unit_hex add_text_def split: option.splits)

lemma scan_end [simp]: "scan_str (qt # r) = Some ([], r)"
  by (simp add: scan_str.simps)

lemma scan_high: "\<forall>c \<in> set u. 0x80 \<le> code c \<Longrightarrow> scan_str (u @ r) = add_text u (scan_str r)"
proof (induction u)
  case (Cons c u)
  then have "c \<noteq> qt" "c \<noteq> bsl" "0x20 \<le> code c" by auto
  then show ?case using Cons by (simp add: scan_one)
qed simp

lemma is_hex_lits [simp]: "is_hex CHR ''0''" "is_hex CHR ''2''" "is_hex CHR ''f''" "is_hex CHR ''d''"
  by (simp_all add: is_hex_def)

lemma scan_u00: "scan_str (u00 c @ r) = add_text (u00 c) (scan_str r)"
  using code_div [of c] by (simp add: u00_def scan_hex hexd_hex)

lemma scan_u202: "scan_str (u202 s @ r) = add_text (u202 s) (scan_str r)"
  by (simp add: u202_def scan_hex hexd_hex)

lemma scan_fffd: "scan_str (ufffd @ r) = add_text ufffd (scan_str r)"
  by (simp add: ufffd_def scan_hex)

lemma scan_escape1: "scan_str (escape1 c @ r) = add_text (escape1 c) (scan_str r)"
  by (auto simp: escape1_def scan_simple scan_u00 scan_one)

lemma quote_eqs:
  "quote [] = []"
  "s \<noteq> [] \<Longrightarrow> rune_len s = 0 \<Longrightarrow> quote s = ufffd @ quote (tl s)"
  "rune_len s = 1 \<Longrightarrow> quote s = escape1 (hd s) @ quote (tl s)"
  "2 \<le> rune_len s \<Longrightarrow> line_sep s \<Longrightarrow> quote s = u202 s @ quote (drop 3 s)"
  "2 \<le> rune_len s \<Longrightarrow> \<not> line_sep s \<Longrightarrow> quote s = take (rune_len s) s @ quote (drop (rune_len s) s)"
  by (subst quote.simps; auto)+

lemma quote_cases:
  obtains (Nil) "s = []" | (Bad) "s \<noteq> []" "rune_len s = 0" | (One) "rune_len s = 1"
  | (Sep) "2 \<le> rune_len s" "line_sep s" | (Long) "2 \<le> rune_len s" "\<not> line_sep s"
  by (metis One_nat_def less_2_cases not_le)

lemma line_sep_rune:
  assumes "line_sep s"
  shows "rune_len s = 3" "\<exists>r. s = CHR 0xE2 # CHR 0x80 # CHR 0xA8 # r \<or> s = CHR 0xE2 # CHR 0x80 # CHR 0xA9 # r"
proof -
  obtain r where "s = take 3 s @ r" by (metis append_take_drop_id)
  then show "\<exists>r. s = CHR 0xE2 # CHR 0x80 # CHR 0xA8 # r \<or> s = CHR 0xE2 # CHR 0x80 # CHR 0xA9 # r"
    using assms unfolding line_sep_def by (metis append_Cons append_Nil)
  then show "rune_len s = 3" by (auto simp: rune_intros second_ok_def cont_def)
qed

lemma scan_quote: "scan_str (quote s @ r) = add_text (quote s) (scan_str r)"
proof (induction s rule: quote.induct)
  case (1 s)
  show ?case
  proof (cases s rule: quote_cases)
    case Nil
    then show ?thesis by (simp add: quote_eqs)
  next
    case Bad
    then show ?thesis using "1.IH"(1) by (simp add: quote_eqs(2) scan_fffd)
  next
    case One
    then have "scan_str (quote (tl s) @ r) = add_text (quote (tl s)) (scan_str r)" using "1.IH"(2) by force
    then show ?thesis unfolding quote_eqs(3) [OF One] append_assoc scan_escape1 by simp
  next
    case Sep
    then have "scan_str (quote (drop 3 s) @ r) = add_text (quote (drop 3 s)) (scan_str r)" using "1.IH"(3) by force
    then show ?thesis unfolding quote_eqs(4) [OF Sep] append_assoc scan_u202 by simp
  next
    case Long
    then have "scan_str (quote (drop (rune_len s) s) @ r) = add_text (quote (drop (rune_len s) s)) (scan_str r)" using "1.IH"(4) by force
    then show ?thesis unfolding quote_eqs(5) [OF Long] append_assoc
      using scan_high [of "take (rune_len s) s"] rune_high [OF Long(1)] by simp
  qed
qed

text \<open>Reading back what \<^verbatim>\<open>Marshal\<close> wrote gives the string with its invalid bytes replaced.\<close>

lemma unquote_eqs:
  "unquote [] = []"
  "e \<noteq> CHR ''u'' \<Longrightarrow> unquote (bsl # e # r) = simple_escape e # unquote r"
  "\<not> surrogate (hex_num [a, b, c, d]) \<Longrightarrow> unquote (bsl # CHR ''u'' # a # b # c # d # r) = put_rune (hex_num [a, b, c, d]) @ unquote r"
  "rune_len s \<noteq> 0 \<Longrightarrow> hd s \<noteq> bsl \<Longrightarrow> unquote s = take (rune_len s) s @ unquote (drop (rune_len s) s)"
  by (subst unquote.simps; auto)+

lemma hexv_lits [simp]: "hexv CHR ''0'' = 0" "hexv CHR ''2'' = 2" "hexv CHR ''f'' = 15" "hexv CHR ''d'' = 13"
  by (simp_all add: hexv_def)

lemma unquote_u00: "code c < 0x80 \<Longrightarrow> unquote (u00 c @ r) = c # unquote r"
proof -
  assume c: "code c < 0x80"
  have n: "16 * (code c div 16) + code c mod 16 = code c" by simp
  show ?thesis using code_div [of c] c code_range [of c]
    by (simp add: u00_def unquote_eqs(3) hex_num_def hexd_hex n surrogate_def put_rune_def)
qed

lemma code_lits:
  "code c = 8 \<longleftrightarrow> c = CHR 0x08" "code c = 9 \<longleftrightarrow> c = CHR 0x09" "code c = 10 \<longleftrightarrow> c = CHR 0x0A"
  "code c = 12 \<longleftrightarrow> c = CHR 0x0C" "code c = 13 \<longleftrightarrow> c = CHR 0x0D"
  using of_char_eq_iff [of c "CHR 0x08", where 'a = int] of_char_eq_iff [of c "CHR 0x09", where 'a = int]
    of_char_eq_iff [of c "CHR 0x0A", where 'a = int] of_char_eq_iff [of c "CHR 0x0C", where 'a = int]
    of_char_eq_iff [of c "CHR 0x0D", where 'a = int]
  by simp_all

lemma char_lits: "char_of (226 :: int) = CHR 0xE2" "char_of (128 :: int) = CHR 0x80" "char_of (168 :: int) = CHR 0xA8" "char_of (169 :: int) = CHR 0xA9"
  by code_simp+

lemma unquote_escape1:
  assumes "code c < 0x80"
  shows "unquote (escape1 c @ r) = c # unquote r"
  using unquote_u00 [OF assms, of r] unquote_eqs(4) [of "c # r"] rune_intros(1) [OF assms]
  by (simp add: escape1_def code_lits unquote_eqs simple_escape_def)

lemma unquote_quote: "unquote (quote s) = to_valid s"
proof (induction s rule: quote.induct)
  case (1 s)
  show ?case
  proof (cases s rule: quote_cases)
    case Nil
    then show ?thesis by (simp add: quote_eqs unquote_eqs to_valid_eqs)
  next
    case Bad
    then have "unquote (quote (tl s)) = to_valid (tl s)" using "1.IH"(1) by force
    moreover have "unquote (ufffd @ r) = fffd @ unquote r" for r
      by (simp add: ufffd_def unquote_eqs(3) hex_num_def surrogate_def fffd_def)
    ultimately show ?thesis unfolding quote_eqs(2) [OF Bad] to_valid_eqs(2) [OF Bad] by simp
  next
    case One
    then have "unquote (quote (tl s)) = to_valid (tl s)" using "1.IH"(2) by force
    moreover have "to_valid s = hd s # to_valid (tl s)" using One to_valid_eqs(3) [of s] by (cases s) auto
    moreover have "code (hd s) < 0x80" using One rune_one by blast
    ultimately show ?thesis unfolding quote_eqs(3) [OF One] by (simp add: unquote_escape1)
  next
    case Sep
    then have "unquote (quote (drop 3 s)) = to_valid (drop 3 s)" using "1.IH"(3) by force
    moreover have "unquote (u202 s @ r) = take 3 s @ unquote r" for r using line_sep_rune(2) [OF Sep(2)]
      by (auto simp: char_lits u202_def unquote_eqs(3) hexd_hex hex_num_def surrogate_def put_rune_def)
    moreover have "to_valid s = take 3 s @ to_valid (drop 3 s)" using to_valid_eqs(3) [of s] line_sep_rune(1) [OF Sep(2)] by simp
    ultimately show ?thesis unfolding quote_eqs(4) [OF Sep] by simp
  next
    case Long
    then have "unquote (quote (drop (rune_len s) s)) = to_valid (drop (rune_len s) s)" using "1.IH"(4) by force
    moreover have "unquote (take (rune_len s) s @ r) = take (rune_len s) s @ unquote r" for r
    proof -
      have n: "rune_len s \<noteq> 0" using Long by simp
      have "hd (take (rune_len s) s @ r) \<noteq> bsl" using rune_high [OF Long(1), of bsl] n by (cases s; cases "rune_len s") auto
      then show ?thesis using unquote_eqs(4) [of "take (rune_len s) s @ r"] rune_len_take [OF n, of r] n
        by (cases rule: rune_cases [OF n]) auto
    qed
    moreover have "to_valid s = take (rune_len s) s @ to_valid (drop (rune_len s) s)" using to_valid_eqs(3) [of s] Long by simp
    ultimately show ?thesis unfolding quote_eqs(5) [OF Long] by simp
  qed
qed

text \<open>Compaction keeps a scanned literal scannable, changes nothing that it wrote, and nothing that \<^verbatim>\<open>Marshal\<close> wrote.\<close>

definition lit :: "string \<Rightarrow> bool" where
  "lit c \<longleftrightarrow> (\<forall>r. scan_str (c @ r) = add_text c (scan_str r))"

lemma lit_scan: "lit c \<Longrightarrow> scan_str (c @ qt # r) = Some (c, r)"
  by (simp add: lit_def)

lemma lit_simps: "lit []" "lit a \<Longrightarrow> lit b \<Longrightarrow> lit (a @ b)" "lit (u00 c)" "lit (u202 s)" "lit (quote s)" "lit ufffd"
  by (simp_all add: lit_def scan_u00 scan_u202 scan_quote scan_fffd)

text \<open>The units of a literal.\<close>

inductive lit_unit :: "string \<Rightarrow> bool" where
  "c \<noteq> qt \<Longrightarrow> c \<noteq> bsl \<Longrightarrow> 0x20 \<le> code c \<Longrightarrow> lit_unit [c]"
| "e \<in> set ''bfnrt/'' \<or> e = bsl \<or> e = qt \<Longrightarrow> lit_unit [bsl, e]"
| "is_hex a \<Longrightarrow> is_hex b \<Longrightarrow> is_hex c \<Longrightarrow> is_hex d \<Longrightarrow> lit_unit [bsl, CHR ''u'', a, b, c, d]"

lemma unit_lit: "lit_unit u \<Longrightarrow> lit u"
  by (induction rule: lit_unit.induct) (simp_all add: lit_def scan_one scan_simple scan_hex)

lemma unit_take:
  assumes "unit_len s \<noteq> 0"
  shows "lit_unit (take (unit_len s) s)"
proof -
  obtain c r where s: "s = c # r" "c \<noteq> qt" "0x20 \<le> code c" using assms
    by (cases s) (auto simp: unit_len_def split: if_splits)
  show ?thesis
  proof (cases "c = bsl")
    case False
    then show ?thesis using s by (simp add: unit_one lit_unit.intros(1))
  next
    case True
    then obtain e r1 where r: "r = e # r1" using assms s by (cases r) (auto simp: unit_len_def)
    show ?thesis
    proof (cases "e = CHR ''u''")
      case True
      then have "4 \<le> length r1 \<and> list_all is_hex (take 4 r1)"
        using assms s r \<open>c = bsl\<close> by (auto simp: unit_len_def split: if_splits)
      then obtain a b c' d r2 where "r1 = a # b # c' # d # r2" "is_hex a" "is_hex b" "is_hex c'" "is_hex d"
        by (auto simp: eval_nat_numeral Suc_le_length_iff)
      then show ?thesis using True \<open>c = bsl\<close> r s lit_unit.intros(3) [of a b c' d] by (simp add: unit_hex)
    next
      case False
      then have "e \<in> set ''bfnrt/'' \<or> e = bsl \<or> e = qt" using assms s r \<open>c = bsl\<close> by (auto simp: unit_len_def split: if_splits)
      then show ?thesis using \<open>c = bsl\<close> r s lit_unit.intros(2) [of e] unit_simple [of e r1] by simp
    qed
  qed
qed

lemma scan_units:
  assumes "scan_str s = Some (c, r)"
  shows "\<exists>us. list_all lit_unit us \<and> c = concat us \<and> s = c @ qt # r"
  using assms
proof (induction s arbitrary: c rule: scan_str.induct)
  case (1 s)
  show ?case
  proof (cases "s \<noteq> [] \<and> hd s = qt")
    case True
    then show ?thesis using "1.prems" by (cases s) (auto intro: exI [of _ "[]"])
  next
    case False
    then obtain a where a: "unit_len s \<noteq> 0" "scan_str (drop (unit_len s) s) = Some (a, r)" "c = take (unit_len s) s @ a"
      using "1.prems" by (subst (asm) scan_str.simps) (auto split: if_splits)
    from "1.IH" [OF False a(1,2)] obtain us where "list_all lit_unit us" "a = concat us" "drop (unit_len s) s = a @ qt # r" by blast
    then show ?thesis using a(3) unit_take [OF a(1)]
      by (intro exI [of _ "take (unit_len s) s # us"]) (auto, metis append_take_drop_id)
  qed
qed

lemma units_lit: "list_all lit_unit us \<Longrightarrow> lit (concat us)"
  by (induction us) (auto simp: lit_simps unit_lit)

lemma hesc_eqs:
  "hesc [] = []"
  "html c \<Longrightarrow> hesc (c # r) = u00 c @ hesc r"
  "line_sep s \<Longrightarrow> hesc s = u202 s @ hesc (drop 3 s)"
  "\<not> html c \<Longrightarrow> \<not> line_sep (c # r) \<Longrightarrow> hesc (c # r) = c # hesc r"
proof -
  assume s: "line_sep s"
  from line_sep_rune(2) [OF s] have "s \<noteq> []" "\<not> html (hd s)" by (auto simp: html_def)
  with s show "hesc s = u202 s @ hesc (drop 3 s)" by (subst hesc.simps) simp
qed (subst hesc.simps; simp)+

lemma line_sep_E2: "line_sep (c # r) \<Longrightarrow> c = CHR 0xE2"
  by (auto simp: line_sep_def)

lemma hesc_plain: "\<forall>c \<in> set u. \<not> html c \<and> c \<noteq> CHR 0xE2 \<Longrightarrow> hesc (u @ r) = u @ hesc r"
proof (induction u)
  case (Cons c u)
  then have "\<not> html c" "\<not> line_sep (c # u @ r)" using line_sep_E2 by auto
  then show ?case using Cons hesc_eqs(4) [of c "u @ r"] by simp
qed simp

lemma hex_plain: "is_hex c \<Longrightarrow> \<not> html c \<and> c \<noteq> CHR 0xE2"
  by (auto simp: is_hex_def html_def)

lemma hesc_escape: "lit_unit u \<Longrightarrow> length u \<noteq> 1 \<Longrightarrow> hesc (u @ r) = u @ hesc r"
  by (rule hesc_plain, erule lit_unit.cases) (auto dest: hex_plain simp: html_def)

lemma hexd_plain: "0 \<le> d \<Longrightarrow> d < 16 \<Longrightarrow> \<not> html (hexd d) \<and> hexd d \<noteq> CHR 0xE2"
  by (rule hex_plain [OF hexd_hex(1)])

lemma hesc_u00: "hesc (u00 c @ r) = u00 c @ hesc r"
  using hexd_plain [OF code_div(2,1) [of c]] hexd_plain [of "code c mod 16"]
  by (intro hesc_plain) (auto simp: u00_def html_def [of bsl] html_def [of "CHR ''0''"] html_def [of "CHR ''u''"])

lemma hesc_u202: "hesc (u202 s @ r) = u202 s @ hesc r"
  using hexd_plain [of "code (s ! 2) mod 16"]
  by (intro hesc_plain)
    (auto simp: u202_def html_def [of bsl] html_def [of "CHR ''0''"] html_def [of "CHR ''u''"] html_def [of "CHR ''2''"])

lemma unit_high: "lit_unit u \<Longrightarrow> u \<noteq> [] \<and> (0x80 \<le> code (hd u) \<longrightarrow> length u = 1)"
  by (induction rule: lit_unit.induct) auto

lemma lit_hesc: "list_all lit_unit us \<Longrightarrow> lit (hesc (concat us))"
proof (induction "length us" arbitrary: us rule: less_induct)
  case less
  show ?case
  proof (cases us)
    case Nil
    then show ?thesis by (simp add: hesc_eqs lit_simps)
  next
    case (Cons u vs)
    then have u: "lit_unit u" "list_all lit_unit vs" "lit (hesc (concat vs))" using less by auto
    consider "length u \<noteq> 1" | c where "u = [c]" "html c" | c where "u = [c]" "\<not> html c" "\<not> line_sep (c # concat vs)"
      | c where "u = [c]" "line_sep (c # concat vs)" by (cases u; cases "tl u") auto
    then show ?thesis
    proof cases
      case 1
      then show ?thesis using Cons u by (simp add: hesc_escape lit_simps unit_lit)
    next
      case 2
      then show ?thesis using Cons u by (simp add: hesc_eqs lit_simps)
    next
      case 3
      then show ?thesis using Cons u lit_simps(2) [OF unit_lit [OF u(1)] u(3)] by (simp add: hesc_eqs)
    next
      case 4
      then obtain a b r where r: "concat vs = a # b # r" "0x80 \<le> code a" "0x80 \<le> code b" using line_sep_rune(2) by fastforce
      then obtain v vs' where v: "vs = v # vs'" by (cases vs) auto
      then have va: "v = [a]" "concat vs' = b # r" using r u(2) unit_high [of v] by (cases v; auto)+
      then obtain w ws where w: "vs' = w # ws" by (cases vs') auto
      then have wb: "w = [b]" "concat ws = r" using va r u(2) v unit_high [of w] by (cases w; auto)+
      have "lit (hesc (concat ws))" using less.hyps [of ws] Cons v w u(2) by simp
      then show ?thesis using 4 Cons v w va wb by (simp add: hesc_eqs(3) lit_simps)
    qed
  qed
qed

lemma line_sep_hesc: "line_sep (c # hesc r) \<Longrightarrow> line_sep (c # r)"
proof -
  assume s: "line_sep (c # hesc r)"
  have h: "hesc x = a # y \<Longrightarrow> a \<noteq> bsl \<Longrightarrow> \<exists>x'. x = a # x' \<and> y = hesc x'" for x a y
    by (cases x; subst (asm) hesc.simps) (auto simp: u00_def u202_def hesc_eqs split: if_splits)
  from line_sep_rune(2) [OF s] obtain b d y where y: "hesc r = b # d # y" "c = CHR 0xE2" "b = CHR 0x80" "d \<in> {CHR 0xA8, CHR 0xA9}" by auto
  then obtain x' where x: "r = b # x'" "d # y = hesc x'" using h [of r b "d # y"] by auto
  then obtain x'' where "x' = d # x''" using h [of x' d y] y by fastforce
  then show ?thesis using x y by (auto simp: line_sep_def)
qed

lemma hesc_idem: "hesc (hesc s) = hesc s"
proof (induction s rule: hesc.induct)
  case (1 s)
  consider "s = []" | c r where "s = c # r" "html c" | "line_sep s" | c r where "s = c # r" "\<not> html c" "\<not> line_sep s"
    by (cases s) auto
  then show ?case
  proof cases
    case 3
    then have "hesc (hesc (drop 3 s)) = hesc (drop 3 s)" using "1.IH"(2) line_sep_rune(2) [OF 3] by (auto simp: html_def)
    then show ?thesis by (simp add: hesc_eqs(3) [OF 3] hesc_u202)
  next
    case 4
    then have "hesc (hesc r) = hesc r" using "1.IH"(3) by auto
    then show ?thesis using 4 line_sep_hesc [of c r] hesc_eqs(4) [of c r] hesc_eqs(4) [of c "hesc r"] by auto
  qed (use "1.IH"(1) in \<open>auto simp: hesc_eqs hesc_u00\<close>)
qed

lemma escape1_shape: "escape1 c = u00 c \<or> escape1 c = [c] \<and> \<not> html c \<or> (\<exists>x \<in> set ''bfnrt''. escape1 c = [bsl, x]) \<or> escape1 c = [bsl, c] \<and> c \<in> {bsl, qt}"
  unfolding escape1_def by simp

lemma hesc_escape1:
  assumes "code c < 0x80"
  shows "hesc (escape1 c @ r) = escape1 c @ hesc r"
proof -
  have b: "\<not> html bsl" "\<not> html qt" "\<forall>x \<in> set ''bfnrt''. \<not> html x \<and> x \<noteq> CHR 0xE2" by (simp_all add: html_def)
  have "c \<noteq> CHR 0xE2" using assms by auto
  then have "escape1 c = u00 c \<or> (\<forall>x \<in> set (escape1 c). \<not> html x \<and> x \<noteq> CHR 0xE2)"
    using escape1_shape [of c] b by auto
  then show ?thesis using hesc_u00 [of c r] hesc_plain [of "escape1 c" r] by auto
qed

lemma hesc_rune:
  assumes "2 \<le> rune_len s" "\<not> line_sep s"
  shows "hesc (take (rune_len s) s @ r) = take (rune_len s) s @ hesc r"
proof -
  have n: "rune_len s \<noteq> 0" using assms by simp
  have p: "cont c \<Longrightarrow> \<not> html c \<and> c \<noteq> CHR 0xE2" for c by (auto simp: cont_def html_def)
  have three: "hesc (c # c1 # c2 # x) = c # c1 # c2 # hesc x" if "s = c # c1 # c2 # r'" "cont c1" "cont c2" "0x80 \<le> code c" for c c1 c2 r' x
  proof -
    have "\<not> line_sep (c # [c1, c2] @ x)" "\<not> html c" using that assms(2) by (auto simp: line_sep_def html_def)
    then show ?thesis using hesc_plain [of "[c1, c2]" x] p that(2,3) by (simp add: hesc_eqs(4))
  qed
  from n show ?thesis
  proof (cases rule: rune_cases)
    case (R2 c c1 r')
    then have "\<not> html c" "c \<noteq> CHR 0xE2" by (auto simp: html_def)
    then show ?thesis using R2 p hesc_plain [of "[c, c1]" r] by simp
  next
    case (R3 c c1 c2 r')
    then show ?thesis using three [of c c1 c2 r' r] second_ok_cont by simp
  next
    case (R4 c c1 c2 c3 r')
    then have "\<not> html c" "c \<noteq> CHR 0xE2" by (auto simp: html_def)
    then show ?thesis using R4 p second_ok_cont hesc_plain [of "[c, c1, c2, c3]" r] by simp
  qed (use assms in simp)
qed

lemma hesc_quote: "hesc (quote s) = quote s"
proof (induction s rule: quote.induct)
  case (1 s)
  show ?case
  proof (cases s rule: quote_cases)
    case Nil
    then show ?thesis by (simp add: quote_eqs hesc_eqs)
  next
    case Bad
    then have "hesc (quote (tl s)) = quote (tl s)" using "1.IH"(1) by force
    moreover have "hesc (ufffd @ r) = ufffd @ hesc r" for r by (rule hesc_plain) (simp add: ufffd_def html_def)
    ultimately show ?thesis unfolding quote_eqs(2) [OF Bad] by simp
  next
    case One
    then have "hesc (quote (tl s)) = quote (tl s)" using "1.IH"(2) by force
    then show ?thesis unfolding quote_eqs(3) [OF One] using One rune_one hesc_escape1 by auto
  next
    case Sep
    then have "hesc (quote (drop 3 s)) = quote (drop 3 s)" using "1.IH"(3) by force
    then show ?thesis unfolding quote_eqs(4) [OF Sep] by (simp add: hesc_u202)
  next
    case Long
    then have "hesc (quote (drop (rune_len s) s)) = quote (drop (rune_len s) s)" using "1.IH"(4) by force
    then show ?thesis unfolding quote_eqs(5) [OF Long] by (simp add: hesc_rune [OF Long])
  qed
qed

end
