(* ===== verification/Json_Values.thy ===== *)
theory Json_Values
  imports Json_Strings Storage_Segment
begin

text \<open>
  Values of JSON texts as \<^verbatim>\<open>encoding/json\<close> reads and writes them: numbers, the syntax of values
  with the nesting limit of the scanner, and the compaction that \<^verbatim>\<open>json.Marshal\<close> applies to a
  \<^verbatim>\<open>json.RawMessage\<close>. A compact text parses to the value it was printed from.
\<close>

subsection \<open>Values\<close>

lemma is_digit_int [code]: "is_digit c \<longleftrightarrow> 48 \<le> code c \<and> code c \<le> 57"
proof -
  have "code c = int (of_char c)" by (cases c) simp
  then show ?thesis by (simp add: is_digit_def)
qed

definition opt_digits :: "string \<Rightarrow> string \<Rightarrow> (string \<times> string) option" where
  "opt_digits p s = (if takeWhile is_digit s = [] then None else Some (p @ takeWhile is_digit s, dropWhile is_digit s))"

definition scan_int :: "string \<Rightarrow> (string \<times> string) option" where
  "scan_int s = (if s \<noteq> [] \<and> hd s = CHR ''0'' then Some (''0'', tl s) else opt_digits [] s)"

definition scan_frac :: "string \<Rightarrow> (string \<times> string) option" where
  "scan_frac s = (if s \<noteq> [] \<and> hd s = CHR ''.'' then opt_digits ''.'' (tl s) else Some ([], s))"

definition scan_exp :: "string \<Rightarrow> (string \<times> string) option" where
  "scan_exp s =
     (if s \<noteq> [] \<and> (hd s = CHR ''e'' \<or> hd s = CHR ''E'') then
        (if tl s \<noteq> [] \<and> (hd (tl s) = CHR ''+'' \<or> hd (tl s) = CHR ''-'') then opt_digits (take 2 s) (drop 2 s)
         else opt_digits (take 1 s) (tl s))
      else Some ([], s))"

definition scan_num :: "string \<Rightarrow> (string \<times> string) option" where
  "scan_num s = do {
     let sg = (if s \<noteq> [] \<and> hd s = CHR ''-'' then ''-'' else []);
     (i, r) \<leftarrow> scan_int (drop (length sg) s);
     (f, r1) \<leftarrow> scan_frac r;
     (e, r2) \<leftarrow> scan_exp r1;
     Some (sg @ i @ f @ e, r2)
   }"

text \<open>
  A parsed value: the scalars keep their text, a string without its quotes; a member of an
  object is its key, the text of its value and the value.
\<close>

datatype jtree = JNull | JBool bool | JNum string | JStr string | JArr "jtree list" | JObj "(string \<times> string \<times> jtree) list"

definition jspace :: "char \<Rightarrow> bool" where
  "jspace c \<longleftrightarrow> code c = 32 \<or> code c = 9 \<or> code c = 10 \<or> code c = 13"

abbreviation skip_ws :: "string \<Rightarrow> string" where
  "skip_ws s \<equiv> dropWhile jspace s"

definition scalar :: "string \<Rightarrow> (jtree \<times> string) option" where
  "scalar s =
     (if s \<noteq> [] \<and> hd s = qt then map_option (map_prod JStr id) (scan_str (tl s))
      else if take 4 s = ''null'' then Some (JNull, drop 4 s)
      else if take 4 s = ''true'' then Some (JBool True, drop 4 s)
      else if take 5 s = ''false'' then Some (JBool False, drop 5 s)
      else map_option (map_prod JNum id) (scan_num s))"

text \<open>
  The value at the start of a text, with at most \<open>n\<close> levels of nesting, and the text after it. The
  first argument is the fuel.
\<close>

fun pval :: "nat \<Rightarrow> int \<Rightarrow> string \<Rightarrow> (jtree \<times> string) option"
  and pelems :: "nat \<Rightarrow> int \<Rightarrow> string \<Rightarrow> (jtree list \<times> string) option"
  and pmems :: "nat \<Rightarrow> int \<Rightarrow> string \<Rightarrow> ((string \<times> string \<times> jtree) list \<times> string) option" where
  "pval 0 n s = None"
| "pval (Suc f) n s =
     (case skip_ws s of
        [] \<Rightarrow> None
      | c # r \<Rightarrow>
          if c = CHR ''['' then
            (if n \<le> 0 then None
             else if skip_ws r \<noteq> [] \<and> hd (skip_ws r) = CHR '']'' then Some (JArr [], tl (skip_ws r))
             else map_option (map_prod JArr id) (pelems f (n - 1) r))
          else if c = CHR ''{'' then
            (if n \<le> 0 then None
             else if skip_ws r \<noteq> [] \<and> hd (skip_ws r) = CHR ''}'' then Some (JObj [], tl (skip_ws r))
             else map_option (map_prod JObj id) (pmems f (n - 1) r))
          else scalar (c # r))"
| "pelems 0 n s = None"
| "pelems (Suc f) n s = do {
     (t, r) \<leftarrow> pval f n s;
     case skip_ws r of
       [] \<Rightarrow> None
     | c # r1 \<Rightarrow>
         if c = CHR '']'' then Some ([t], r1)
         else if c = CHR '','' then map_option (map_prod ((#) t) id) (pelems f n r1)
         else None
   }"
| "pmems 0 n s = None"
| "pmems (Suc f) n s =
     (case skip_ws s of
        [] \<Rightarrow> None
      | c # s1 \<Rightarrow>
          if c \<noteq> qt then None
          else do {
            (k, r) \<leftarrow> scan_str s1;
            (case skip_ws r of
               [] \<Rightarrow> None
             | c1 # r1 \<Rightarrow>
                 if c1 \<noteq> CHR '':'' then None
                 else do {
                   (t, r2) \<leftarrow> pval f n r1;
                   let m = (k, take (length (skip_ws r1) - length r2) (skip_ws r1), t);
                   (case skip_ws r2 of
                      [] \<Rightarrow> None
                    | c2 # r3 \<Rightarrow>
                        if c2 = CHR ''}'' then Some ([m], r3)
                        else if c2 = CHR '','' then map_option (map_prod ((#) m) id) (pmems f n r3)
                        else None)
                 })
          })"

definition max_depth :: int where
  "max_depth = 10000"

definition parse_json :: "string \<Rightarrow> jtree option" where
  "parse_json s =
     (case pval (2 * length s + 1) max_depth s of
        Some (t, r) \<Rightarrow> if skip_ws r = [] then Some t else None
      | None \<Rightarrow> None)"

text \<open>The compact text of a value, and the value which that text has.\<close>

fun pr :: "jtree \<Rightarrow> string"
  and prs :: "jtree list \<Rightarrow> string"
  and prm :: "(string \<times> string \<times> jtree) list \<Rightarrow> string" where
  "pr JNull = ''null''"
| "pr (JBool b) = (if b then ''true'' else ''false'')"
| "pr (JNum l) = l"
| "pr (JStr c) = qt # hesc c @ [qt]"
| "pr (JArr ts) = CHR ''['' # prs ts @ '']''"
| "pr (JObj ms) = CHR ''{'' # prm ms @ ''}''"
| "prs [] = []"
| "prs (t # ts) = pr t @ (if ts = [] then [] else CHR '','' # prs ts)"
| "prm [] = []"
| "prm ((k, _, t) # ms) = qt # hesc k @ [qt, CHR '':''] @ pr t @ (if ms = [] then [] else CHR '','' # prm ms)"

definition compact :: "string \<Rightarrow> string option" where
  "compact s = map_option pr (parse_json s)"

subsection \<open>Parsing compact texts\<close>

definition digs :: "string \<Rightarrow> bool" where
  "digs d \<longleftrightarrow> d \<noteq> [] \<and> list_all is_digit d"

text \<open>The texts that may follow a number without becoming part of it.\<close>

definition num_end :: "string \<Rightarrow> bool" where
  "num_end r \<longleftrightarrow> r = [] \<or> \<not> is_digit (hd r) \<and> hd r \<noteq> CHR ''.'' \<and> hd r \<noteq> CHR ''e'' \<and> hd r \<noteq> CHR ''E''"

lemma opt_digits_Some: "opt_digits p s = Some (l, r) \<Longrightarrow> \<exists>d. digs d \<and> l = p @ d \<and> s = d @ r"
  by (auto simp: opt_digits_def digs_def list_all_iff split: if_splits dest: set_takeWhileD intro!: exI [of _ "takeWhile is_digit s"])

lemma opt_digits_app: "digs d \<Longrightarrow> r = [] \<or> \<not> is_digit (hd r) \<Longrightarrow> opt_digits p (d @ r) = Some (p @ d, r)"
proof -
  assume d: "digs d" and r: "r = [] \<or> \<not> is_digit (hd r)"
  have "takeWhile is_digit (d @ r) = d @ takeWhile is_digit r" "dropWhile is_digit (d @ r) = dropWhile is_digit r"
    using d by (auto simp: digs_def list_all_iff takeWhile_append2 dropWhile_append2)
  moreover have "takeWhile is_digit r = []" "dropWhile is_digit r = r" using r by (cases r; simp)+
  ultimately show ?thesis using d by (simp add: opt_digits_def digs_def)
qed

lemma scan_int_Some: "scan_int s = Some (i, r) \<Longrightarrow> s = i @ r \<and> (i = ''0'' \<or> digs i \<and> hd i \<noteq> CHR ''0'')"
proof (cases "s \<noteq> [] \<and> hd s = CHR ''0''")
  case False
  assume "scan_int s = Some (i, r)"
  with False have "digs i \<and> s = i @ r" using opt_digits_Some [of "[]" s i r] by (auto simp: scan_int_def)
  then show ?thesis using False by (cases i) (auto simp: digs_def)
qed (cases s, auto simp: scan_int_def)

lemma scan_frac_Some: "scan_frac s = Some (f, r) \<Longrightarrow> s = f @ r \<and> (f = [] \<or> (\<exists>d. digs d \<and> f = CHR ''.'' # d))"
proof (cases "s \<noteq> [] \<and> hd s = CHR ''.''")
  case True
  assume "scan_frac s = Some (f, r)"
  with True show ?thesis using opt_digits_Some [of "''.''" "tl s" f r] by (cases s) (auto simp: scan_frac_def)
qed (auto simp: scan_frac_def)

inductive exp_lit :: "string \<Rightarrow> bool" where
  "exp_lit []"
| "x = CHR ''e'' \<or> x = CHR ''E'' \<Longrightarrow> g \<in> {[], ''+'', ''-''} \<Longrightarrow> digs d \<Longrightarrow> exp_lit (x # g @ d)"

lemma scan_exp_Some:
  "scan_exp s = Some (e, r) \<Longrightarrow> s = e @ r \<and> exp_lit e"
proof (cases "s \<noteq> [] \<and> (hd s = CHR ''e'' \<or> hd s = CHR ''E'')")
  case True
  assume e: "scan_exp s = Some (e, r)"
  show ?thesis
  proof (cases "tl s \<noteq> [] \<and> (hd (tl s) = CHR ''+'' \<or> hd (tl s) = CHR ''-'')")
    case sg: True
    then obtain x g s' where s: "s = x # g # s'" using True by (cases s; cases "tl s") auto
    then obtain d where "digs d" "e = [x, g] @ d" "s' = d @ r" using e True sg opt_digits_Some [of "[x, g]" s' e r] by (auto simp: scan_exp_def)
    then show ?thesis using s True sg exp_lit.intros(2) [of x "[g]" d] by simp
  next
    case False
    obtain x s' where s: "s = x # s'" using True by (cases s) auto
    then obtain d where "digs d" "e = [x] @ d" "s' = d @ r" using e True False opt_digits_Some [of "[x]" s' e r] by (auto simp: scan_exp_def)
    then show ?thesis using s True exp_lit.intros(2) [of x "[]" d] by simp
  qed
qed (auto simp: scan_exp_def intro: exp_lit.intros)

lemma digs_hd: "digs d \<Longrightarrow> is_digit (hd (d @ r)) \<and> d @ r \<noteq> []"
  by (cases d) (auto simp: digs_def)

lemma is_digit_lits: "\<not> is_digit CHR ''.''" "\<not> is_digit CHR ''e''" "\<not> is_digit CHR ''E''" "\<not> is_digit CHR ''+''" "\<not> is_digit CHR ''-''"
  "is_digit CHR ''0''"
  by (simp_all add: is_digit_int)

lemma scan_int_app:
  assumes "i = ''0'' \<or> digs i \<and> hd i \<noteq> CHR ''0''" "r = [] \<or> \<not> is_digit (hd r)"
  shows "scan_int (i @ r) = Some (i, r)"
  using assms(1)
proof
  assume i: "digs i \<and> hd i \<noteq> CHR ''0''"
  then have "\<not> (i @ r \<noteq> [] \<and> hd (i @ r) = CHR ''0'')" by (cases i) (auto simp: digs_def)
  then show ?thesis using opt_digits_app [of i r "[]"] i assms(2) by (auto simp: scan_int_def)
qed (simp add: scan_int_def)

lemma scan_frac_app:
  assumes "f = [] \<or> (\<exists>d. digs d \<and> f = CHR ''.'' # d)" "r = [] \<or> \<not> is_digit (hd r) \<and> hd r \<noteq> CHR ''.''"
  shows "scan_frac (f @ r) = Some (f, r)"
  using assms opt_digits_app [of _ r "''.''"] by (auto simp: scan_frac_def)

lemma scan_exp_app:
  assumes "exp_lit e" "num_end r"
  shows "scan_exp (e @ r) = Some (e, r)"
  using assms(1)
proof cases
  case x: (2 x g d)
  have r: "r = [] \<or> \<not> is_digit (hd r)" using assms(2) by (auto simp: num_end_def)
  show ?thesis
  proof (cases "g = []")
    case True
    have "hd (d @ r) \<noteq> CHR ''+''" "hd (d @ r) \<noteq> CHR ''-''" using digs_hd [OF x(4), of r] is_digit_lits(4,5) by metis+
    then show ?thesis using x(1,2) True opt_digits_app [OF x(4) r, of "[x]"] by (auto simp: scan_exp_def)
  next
    case False
    then show ?thesis using x(1-3) opt_digits_app [OF x(4) r, of "x # g"] by (auto simp: scan_exp_def)
  qed
qed (use assms(2) in \<open>auto simp: scan_exp_def num_end_def\<close>)

definition num_lit :: "string \<Rightarrow> bool" where
  "num_lit l \<longleftrightarrow> l \<noteq> [] \<and> (is_digit (hd l) \<or> hd l = CHR ''-'') \<and> (\<forall>r. num_end r \<longrightarrow> scan_num (l @ r) = Some (l, r))"

lemma scan_num_lit:
  assumes "scan_num s = Some (l, r)"
  shows "s = l @ r" "num_lit l"
proof -
  obtain sg i f e r1 r2 where p: "s = sg @ i @ r1" "sg = (if s \<noteq> [] \<and> hd s = CHR ''-'' then ''-'' else [])" "scan_int (i @ r1) = Some (i, r1)"
      "scan_frac r1 = Some (f, r2)" "scan_exp r2 = Some (e, r)" "l = sg @ i @ f @ e"
  proof -
    have "s = (if s \<noteq> [] \<and> hd s = CHR ''-'' then ''-'' else []) @ drop (length (if s \<noteq> [] \<and> hd s = CHR ''-'' then ''-'' else [])) s"
      by (cases s) auto
    then show ?thesis using assms that
      by (auto simp: scan_num_def Let_def split: bind_splits simp del: if_split dest: scan_int_Some) (metis scan_int_Some)
  qed
  note q = scan_int_Some [OF p(3)] scan_frac_Some [OF p(4)] scan_exp_Some [OF p(5)]
  show "s = l @ r" using p q by simp
  have i: "i \<noteq> []" "is_digit (hd i)" using q(1) is_digit_lits by (auto simp: digs_def neq_Nil_conv)
  have "scan_num (l @ x) = Some (l, x)" if x: "num_end x" for x
  proof -
    have sg: "(if l @ x \<noteq> [] \<and> hd (l @ x) = CHR ''-'' then ''-'' else []) = sg"
      using p(1,2,6) i is_digit_lits(5) by (cases i) (auto split: if_splits)
    have a: "e @ x = [] \<or> \<not> is_digit (hd (e @ x)) \<and> hd (e @ x) \<noteq> CHR ''.''"
      using q(3) x is_digit_lits by (auto simp: num_end_def elim!: exp_lit.cases)
    then have b: "f @ e @ x = [] \<or> \<not> is_digit (hd (f @ e @ x))" using q(2) is_digit_lits(1) by auto
    have "scan_int (i @ f @ e @ x) = Some (i, f @ e @ x)" by (rule scan_int_app [OF conjunct2 [OF q(1)] b])
    moreover have "scan_frac (f @ e @ x) = Some (f, e @ x)" by (rule scan_frac_app [OF conjunct2 [OF q(2)] a])
    moreover have "scan_exp (e @ x) = Some (e, x)" by (rule scan_exp_app [OF conjunct2 [OF q(3)] x])
    ultimately show ?thesis unfolding scan_num_def Let_def sg by (simp add: p(6))
  qed
  then show "num_lit l" using i p(2,6) by (auto simp: num_lit_def)
qed

definition str_lit :: "string \<Rightarrow> bool" where
  "str_lit c \<longleftrightarrow> (\<exists>us. list_all lit_unit us \<and> c = concat us)"

text \<open>The values the parser returns, with at most \<open>n\<close> levels of nesting.\<close>

fun jwf :: "int \<Rightarrow> jtree \<Rightarrow> bool"
  and jwfs :: "int \<Rightarrow> jtree list \<Rightarrow> bool"
  and jwfm :: "int \<Rightarrow> (string \<times> string \<times> jtree) list \<Rightarrow> bool" where
  "jwf n JNull = True"
| "jwf n (JBool b) = True"
| "jwf n (JNum l) = num_lit l"
| "jwf n (JStr c) = str_lit c"
| "jwf n (JArr ts) = (0 < n \<and> jwfs (n - 1) ts)"
| "jwf n (JObj ms) = (0 < n \<and> jwfm (n - 1) ms)"
| "jwfs n [] = True"
| "jwfs n (t # ts) = (jwf n t \<and> jwfs n ts)"
| "jwfm n [] = True"
| "jwfm n ((k, _, t) # ms) = (str_lit k \<and> jwf n t \<and> jwfm n ms)"

fun jn :: "jtree \<Rightarrow> jtree"
  and jns :: "jtree list \<Rightarrow> jtree list"
  and jnm :: "(string \<times> string \<times> jtree) list \<Rightarrow> (string \<times> string \<times> jtree) list" where
  "jn JNull = JNull"
| "jn (JBool b) = JBool b"
| "jn (JNum l) = JNum l"
| "jn (JStr c) = JStr (hesc c)"
| "jn (JArr ts) = JArr (jns ts)"
| "jn (JObj ms) = JObj (jnm ms)"
| "jns [] = []"
| "jns (t # ts) = jn t # jns ts"
| "jnm [] = []"
| "jnm ((k, _, t) # ms) = (hesc k, pr t, jn t) # jnm ms"

lemma scan_str_lit: "scan_str s = Some (c, r) \<Longrightarrow> str_lit c"
  using scan_units [of s c r] by (auto simp: str_lit_def)

lemma scalar_wf: "scalar s = Some (t, r) \<Longrightarrow> jwf n t"
  by (auto simp: scalar_def split: if_splits dest: scan_str_lit scan_num_lit(2))

lemma pval_elim:
  assumes "pval (Suc f) n s = Some (t, r)"
  obtains "0 < n" "t = JArr []" "\<exists>u. skip_ws s = CHR ''['' # u \<and> skip_ws u = CHR '']'' # r"
  | ts u where "0 < n" "t = JArr ts" "skip_ws s = CHR ''['' # u" "pelems f (n - 1) u = Some (ts, r)"
  | "0 < n" "t = JObj []" "\<exists>u. skip_ws s = CHR ''{'' # u \<and> skip_ws u = CHR ''}'' # r"
  | ms u where "0 < n" "t = JObj ms" "skip_ws s = CHR ''{'' # u" "pmems f (n - 1) u = Some (ms, r)"
  | "scalar (skip_ws s) = Some (t, r)"
proof (cases "skip_ws s")
  case (Cons c u)
  consider "c = CHR ''[''" | "c = CHR ''{''" | "c \<noteq> CHR ''[''" "c \<noteq> CHR ''{''" by blast
  then show ?thesis
  proof cases
    case 1
    then show ?thesis using assms Cons that(1,2) by (cases "skip_ws u") (auto split: if_splits)
  next
    case 2
    then show ?thesis using assms Cons that(3,4) by (cases "skip_ws u") (auto split: if_splits)
  next
    case 3
    then show ?thesis using assms Cons that(5) by simp
  qed
next
  case Nil
  then show ?thesis using assms by (simp only: pval.simps list.case option.distinct)
qed

lemma pelems_elim:
  assumes "pelems (Suc f) n s = Some (ts, r)"
  obtains t u where "pval f n s = Some (t, u)" "skip_ws u = CHR '']'' # r" "ts = [t]"
  | t u v ts' where "pval f n s = Some (t, u)" "skip_ws u = CHR '','' # v" "pelems f n v = Some (ts', r)" "ts = t # ts'"
proof -
  obtain t u c v where p: "pval f n s = Some (t, u)" "skip_ws u = c # v"
    using assms by (cases "pval f n s") (auto split: list.splits)
  then show ?thesis using assms that by (auto split: if_splits)
qed

lemma pmems_elim:
  assumes "pmems (Suc f) n s = Some (ms, r)"
  obtains s1 k u v t w where "skip_ws s = qt # s1" "scan_str s1 = Some (k, u)" "skip_ws u = CHR '':'' # v" "pval f n v = Some (t, w)"
      "skip_ws w = CHR ''}'' # r" "ms = [(k, take (length (skip_ws v) - length w) (skip_ws v), t)]"
  | s1 k u v t w x ms' where "skip_ws s = qt # s1" "scan_str s1 = Some (k, u)" "skip_ws u = CHR '':'' # v" "pval f n v = Some (t, w)"
      "skip_ws w = CHR '','' # x" "pmems f n x = Some (ms', r)" "ms = (k, take (length (skip_ws v) - length w) (skip_ws v), t) # ms'"
proof -
  obtain s1 k u where a: "skip_ws s = qt # s1" "scan_str s1 = Some (k, u)"
    using assms by (cases "skip_ws s") (auto split: if_splits bind_splits)
  obtain v where b: "skip_ws u = CHR '':'' # v"
    using assms a by (cases "skip_ws u") (auto split: if_splits)
  obtain t w where c: "pval f n v = Some (t, w)" using assms a b by (cases "pval f n v") auto
  obtain d x where d: "skip_ws w = d # x" using assms a b c by (cases "skip_ws w") auto
  show ?thesis using assms a b c d that by (auto simp: Let_def split: if_splits)
qed

lemma pval_wf:
  "pval f n s = Some (t, r) \<Longrightarrow> jwf n t"
  "pelems f n s = Some (ts, r) \<Longrightarrow> jwfs n ts"
  "pmems f n s = Some (ms, r) \<Longrightarrow> jwfm n ms"
proof (induction f arbitrary: n s t r ts ms)
  case (Suc f)
  { case 1
    then show ?case by (cases rule: pval_elim) (use Suc in \<open>auto intro: scalar_wf\<close>)
  next
    case 2
    then show ?case by (cases rule: pelems_elim) (use Suc in auto)
  next
    case 3
    then show ?case by (cases rule: pmems_elim) (use Suc scan_str_lit in auto)
  }
qed simp_all

lemma str_lit_scan: "str_lit c \<Longrightarrow> scan_str (hesc c @ qt # r) = Some (hesc c, r)"
  using lit_hesc lit_scan by (auto simp: str_lit_def)

lemma num_lit_hd: "num_lit l \<Longrightarrow> \<exists>c x. l = c # x \<and> (is_digit c \<or> c = CHR ''-'')"
  by (cases l) (auto simp: num_lit_def)

lemma digit_not: "is_digit c \<or> c = CHR ''-'' \<Longrightarrow> \<not> jspace c \<and> c \<notin> set ''[]{}ntf'' \<and> c \<noteq> qt"
  by (auto simp: jspace_def is_digit_int)

lemma pr_first: "jwf n t \<Longrightarrow> \<exists>c x. pr t = c # x \<and> \<not> jspace c \<and> c \<noteq> CHR '']'' \<and> c \<noteq> CHR ''}''"
  by (cases t) (auto simp: jspace_def dest!: num_lit_hd digit_not)

lemma skip_pr: "jwf n t \<Longrightarrow> skip_ws (pr t @ r) = pr t @ r"
  using pr_first [of n t] by auto

lemma scalar_pr:
  assumes "jwf n t" "num_end r" "\<forall>ts. t \<noteq> JArr ts" "\<forall>ms. t \<noteq> JObj ms"
  shows "scalar (pr t @ r) = Some (jn t, r)" "hd (pr t @ r) \<notin> set ''[{''"
proof -
  show "scalar (pr t @ r) = Some (jn t, r)"
  proof (cases t)
    case (JNum l)
    then obtain c x where "l = c # x" "is_digit c \<or> c = CHR ''-''" using assms(1) num_lit_hd [of l] by auto
    then show ?thesis using JNum assms(1,2) digit_not [of c] by (auto simp: scalar_def num_lit_def)
  qed (use assms in \<open>auto simp: scalar_def str_lit_scan\<close>)
  show "hd (pr t @ r) \<notin> set ''[{''" using assms by (cases t) (auto dest!: num_lit_hd digit_not)
qed

lemma pval_scalar:
  assumes "jwf n t" "num_end r" "\<forall>ts. t \<noteq> JArr ts" "\<forall>ms. t \<noteq> JObj ms" "f \<noteq> 0"
  shows "pval f n (pr t @ r) = Some (jn t, r)"
proof -
  obtain c x where c: "pr t @ r = c # x" "\<not> jspace c" using pr_first [OF assms(1)] by auto
  then show ?thesis using scalar_pr [OF assms(1-4)] assms(5) by (cases f) auto
qed

lemma num_end_lits: "num_end (CHR '','' # r)" "num_end (CHR '']'' # r)" "num_end (CHR ''}'' # r)"
  by (simp_all add: num_end_def is_digit_int)

lemma jspace_lits: "\<not> jspace CHR '',''" "\<not> jspace CHR '']''" "\<not> jspace CHR ''}''" "\<not> jspace CHR '':''" "\<not> jspace qt" "\<not> jspace CHR ''[''" "\<not> jspace CHR ''{''"
  by (simp_all add: jspace_def)

lemma pval_pr:
  "jwf n t \<Longrightarrow> 2 * length (pr t) < f \<Longrightarrow> num_end r \<Longrightarrow> pval f n (pr t @ r) = Some (jn t, r)"
  "jwfs n ts \<Longrightarrow> ts \<noteq> [] \<Longrightarrow> 2 * length (prs ts) + 1 < f \<Longrightarrow> pelems f n (prs ts @ CHR '']'' # r) = Some (jns ts, r)"
  "jwfm n ms \<Longrightarrow> ms \<noteq> [] \<Longrightarrow> 2 * length (prm ms) + 1 < f \<Longrightarrow> pmems f n (prm ms @ CHR ''}'' # r) = Some (jnm ms, r)"
proof (induction t and ts and ms arbitrary: n f r and n f r and n f r rule: jn_jns_jnm.induct)
  case (5 ts)
  then obtain f' where f: "f = Suc f'" by (cases f) auto
  show ?case
  proof (cases ts)
    case Nil
    then show ?thesis using 5 f by (simp add: jspace_lits)
  next
    case (Cons t ts')
    obtain c x where c: "prs ts @ CHR '']'' # r = c # x" "\<not> jspace c" "c \<noteq> CHR '']''"
      using pr_first [of "n - 1" t] Cons "5.prems" by auto
    have "pelems f' (n - 1) (prs ts @ CHR '']'' # r) = Some (jns ts, r)" using 5 Cons f by simp
    then show ?thesis using f c "5.prems" by (simp add: jspace_lits)
  qed
next
  case (6 ms)
  then obtain f' where f: "f = Suc f'" by (cases f) auto
  show ?case
  proof (cases ms)
    case Nil
    then show ?thesis using 6 f by (simp add: jspace_lits)
  next
    case (Cons m ms')
    obtain x where c: "prm ms @ CHR ''}'' # r = qt # x" using Cons by (cases m) auto
    have "pmems f' (n - 1) (prm ms @ CHR ''}'' # r) = Some (jnm ms, r)" using 6 Cons f by simp
    then show ?thesis using f c "6.prems" by (simp add: jspace_lits)
  qed
next
  case (8 t ts)
  then obtain f' where f: "f = Suc f'" by (cases f) auto
  show ?case
  proof (cases "ts = []")
    case True
    then show ?thesis using 8 f by (simp add: jspace_lits num_end_lits)
  next
    case False
    have "pval f' n (pr t @ CHR '','' # prs ts @ CHR '']'' # r) = Some (jn t, CHR '','' # prs ts @ CHR '']'' # r)"
      using 8 False f by (simp add: num_end_lits)
    moreover have "pelems f' n (prs ts @ CHR '']'' # r) = Some (jns ts, r)" using 8 False f by simp
    ultimately show ?thesis using False f by (simp add: jspace_lits)
  qed
next
  case (10 k v t ms)
  then obtain f' where f: "f = Suc f'" by (cases f) auto
  have k: "scan_str (hesc k @ qt # x) = Some (hesc k, x)" for x using "10.prems" str_lit_scan by simp
  have s: "skip_ws (pr t @ x) = pr t @ x" for x using "10.prems"(1) skip_pr by auto
  show ?case
  proof (cases "ms = []")
    case True
    then show ?thesis using 10 f k s by (simp add: jspace_lits num_end_lits)
  next
    case False
    have "pval f' n (pr t @ CHR '','' # prm ms @ CHR ''}'' # r) = Some (jn t, CHR '','' # prm ms @ CHR ''}'' # r)"
      using 10 False f by (simp add: num_end_lits)
    moreover have "pmems f' n (prm ms @ CHR ''}'' # r) = Some (jnm ms, r)" using 10 False f by simp
    ultimately show ?thesis using False f k s by (simp add: jspace_lits)
  qed
qed (rule pval_scalar; simp | simp)+

declare pval.simps(2) [simp del] pelems.simps(2) [simp del] pmems.simps(2) [simp del]

subsection \<open>Nesting\<close>

fun jdepth :: "jtree \<Rightarrow> nat"
  and jdepths :: "jtree list \<Rightarrow> nat"
  and jdepthm :: "(string \<times> string \<times> jtree) list \<Rightarrow> nat" where
  "jdepth JNull = 0"
| "jdepth (JBool b) = 0"
| "jdepth (JNum l) = 0"
| "jdepth (JStr c) = 0"
| "jdepth (JArr ts) = Suc (jdepths ts)"
| "jdepth (JObj ms) = Suc (jdepthm ms)"
| "jdepths [] = 0"
| "jdepths (t # ts) = max (jdepth t) (jdepths ts)"
| "jdepthm [] = 0"
| "jdepthm ((_, _, t) # ms) = max (jdepth t) (jdepthm ms)"

lemma jwf_depth:
  "jwf n t \<Longrightarrow> int (jdepth t) \<le> k \<Longrightarrow> jwf k t"
  "jwfs n ts \<Longrightarrow> int (jdepths ts) \<le> k \<Longrightarrow> jwfs k ts"
  "jwfm n ms \<Longrightarrow> int (jdepthm ms) \<le> k \<Longrightarrow> jwfm k ms"
  by (induction t and ts and ms arbitrary: n k and n k and n k rule: jdepth_jdepths_jdepthm.induct) auto

text \<open>A value that is nested too deeply is not parsed.\<close>

lemma pval_deep:
  "jwf k t \<Longrightarrow> n < int (jdepth t) \<Longrightarrow> 0 \<le> n \<Longrightarrow> 2 * length (pr t) < f \<Longrightarrow> num_end r \<Longrightarrow> pval f n (pr t @ r) = None"
  "jwfs k ts \<Longrightarrow> n < int (jdepths ts) \<Longrightarrow> 0 \<le> n \<Longrightarrow> 2 * length (prs ts) + 1 < f \<Longrightarrow> pelems f n (prs ts @ CHR '']'' # r) = None"
  "jwfm k ms \<Longrightarrow> n < int (jdepthm ms) \<Longrightarrow> 0 \<le> n \<Longrightarrow> 2 * length (prm ms) + 1 < f \<Longrightarrow> pmems f n (prm ms @ CHR ''}'' # r) = None"
proof (induction t and ts and ms arbitrary: k n f r and k n f r and k n f r rule: jn_jns_jnm.induct)
  case (5 ts)
  then obtain f' where f: "f = Suc f'" by (cases f) auto
  show ?case
  proof (cases "n = 0")
    case True
    then show ?thesis using f by (simp add: jspace_lits pval.simps(2))
  next
    case False
    then have "pelems f' (n - 1) (prs ts @ CHR '']'' # r) = None" using 5 f by (intro "5.IH" [of "k - 1"]) simp_all
    moreover have "ts \<noteq> []" using 5 False by auto
    then obtain c x where "prs ts @ CHR '']'' # r = c # x" "\<not> jspace c" "c \<noteq> CHR '']''"
      using pr_first [of "k - 1" "hd ts"] "5.prems"(1) by (cases ts) auto
    ultimately show ?thesis using f by (simp add: jspace_lits pval.simps(2))
  qed
next
  case (6 ms)
  then obtain f' where f: "f = Suc f'" by (cases f) auto
  show ?case
  proof (cases "n = 0")
    case True
    then show ?thesis using f by (simp add: jspace_lits pval.simps(2))
  next
    case False
    then have "pmems f' (n - 1) (prm ms @ CHR ''}'' # r) = None" using 6 f by (intro "6.IH" [of "k - 1"]) simp_all
    moreover have "ms \<noteq> []" using 6 False by auto
    then obtain x where "prm ms @ CHR ''}'' # r = qt # x" by (cases ms rule: prm.cases) auto
    ultimately show ?thesis using f by (simp add: jspace_lits pval.simps(2))
  qed
next
  case (8 t ts)
  then obtain f' where f: "f = Suc f'" by (cases f) auto
  show ?case
  proof (cases "n < int (jdepth t)")
    case True
    then have "pval f' n (pr t @ x) = None" if "num_end x" for x using "8.IH"(1) [of k n f' x] "8.prems" f that by auto
    then show ?thesis using f by (simp add: num_end_lits pelems.simps(2))
  next
    case False
    then have "ts \<noteq> []" "jwf n t" using "8.prems" jwf_depth(1) by auto
    then have "pval f' n (pr t @ CHR '','' # prs ts @ CHR '']'' # r) = Some (jn t, CHR '','' # prs ts @ CHR '']'' # r)"
      using pval_pr(1) [of n t f'] "8.prems" f by (simp add: num_end_lits)
    moreover have "pelems f' n (prs ts @ CHR '']'' # r) = None" using "8.IH"(2) [of k n f' r] "8.prems" f False \<open>ts \<noteq> []\<close> by auto
    ultimately show ?thesis using \<open>ts \<noteq> []\<close> f by (simp add: jspace_lits pelems.simps(2))
  qed
next
  case (10 key v t ms)
  then obtain f' where f: "f = Suc f'" by (cases f) auto
  have q: "scan_str (hesc key @ qt # x) = Some (hesc key, x)" for x using "10.prems" str_lit_scan by simp
  show ?case
  proof (cases "n < int (jdepth t)")
    case True
    then have "pval f' n (pr t @ x) = None" if "num_end x" for x using "10.IH"(1) [of k n f' x] "10.prems" f that by auto
    then show ?thesis using f q by (simp add: num_end_lits jspace_lits pmems.simps(2))
  next
    case False
    then have "ms \<noteq> []" "jwf n t" using "10.prems" jwf_depth(1) by auto
    then have "pval f' n (pr t @ CHR '','' # prm ms @ CHR ''}'' # r) = Some (jn t, CHR '','' # prm ms @ CHR ''}'' # r)"
      using pval_pr(1) [of n t f'] "10.prems" f by (simp add: num_end_lits)
    moreover have "pmems f' n (prm ms @ CHR ''}'' # r) = None" using "10.IH"(2) [of k n f' r] "10.prems" f False \<open>ms \<noteq> []\<close> by auto
    ultimately show ?thesis using \<open>ms \<noteq> []\<close> f q by (simp add: jspace_lits pmems.simps(2))
  qed
qed simp_all

subsection \<open>Compaction\<close>

lemma parse_wf: "parse_json s = Some t \<Longrightarrow> jwf max_depth t"
  by (auto simp: parse_json_def split: option.splits if_splits intro: pval_wf(1))

lemma parse_pr:
  assumes "jwf max_depth t"
  shows "parse_json (pr t) = Some (jn t)"
  using pval_pr(1) [OF assms, of "2 * length (pr t) + 1" "[]"] by (simp add: parse_json_def num_end_def)

lemma pr_jn: "pr (jn t) = pr t" "prs (jns ts) = prs ts" "prm (jnm ms) = prm ms"
proof (induction t and ts and ms rule: jn_jns_jnm.induct)
  case (8 t ts)
  then show ?case by (cases ts) auto
next
  case (10 k v t ms)
  then show ?case by (cases ms) (auto simp: hesc_idem)
qed (simp_all add: hesc_idem)

lemma parse_deep:
  assumes "jwf k t" "max_depth < int (jdepth t)"
  shows "parse_json (pr t) = None"
  using pval_deep(1) [OF assms, of "2 * length (pr t) + 1" "[]"] by (simp add: parse_json_def num_end_def max_depth_def)

text \<open>Compaction is idempotent.\<close>

lemma compact_idem: "compact s = Some d \<Longrightarrow> compact d = Some d"
  by (auto simp: compact_def parse_pr parse_wf pr_jn)

subsection \<open>The fuel\<close>

lemma skip_le: "skip_ws s = c # r \<Longrightarrow> length r < length s"
  by (metis length_Cons length_dropWhile_le less_Suc_eq_le order.strict_trans2 lessI)

lemma scalar_shrinks: "scalar s = Some (t, r) \<Longrightarrow> length r < length s"
proof -
  assume s: "scalar s = Some (t, r)"
  then have "s \<noteq> []" by (auto simp: scalar_def scan_num_def scan_int_def opt_digits_def split: if_splits)
  have n: "scan_num s = Some (l, r) \<Longrightarrow> length r < length s" for l
    using scan_num_lit [of s l r] by (auto simp: num_lit_def)
  have q: "scan_str (tl s) = Some (l, r) \<Longrightarrow> length r < length s" for l
    using scan_units [of "tl s" l r] \<open>s \<noteq> []\<close> by (cases s) auto
  show ?thesis using s \<open>s \<noteq> []\<close> n q by (auto simp: scalar_def split: if_splits)
qed

lemma pval_shrinks:
  "pval f n s = Some (t, r) \<Longrightarrow> length r < length s"
  "pelems f n s = Some (ts, r) \<Longrightarrow> length r < length s"
  "pmems f n s = Some (ms, r) \<Longrightarrow> length r < length s"
proof (induction f arbitrary: n s t r ts ms)
  case (Suc f)
  { case 1
    then show ?case
    proof (cases rule: pval_elim)
      case 5
      then show ?thesis using scalar_shrinks length_dropWhile_le [of jspace s] by fastforce
    qed (use Suc(2,3) in \<open>fastforce dest: skip_le\<close>)+
  next
    case 2
    then show ?case by (cases rule: pelems_elim) (use Suc(1,2) in \<open>fastforce dest: skip_le\<close>)+
  next
    case 3
    then show ?case
    proof (cases rule: pmems_elim)
      case (1 s1 k u v t w)
      then show ?thesis using skip_le [OF 1(1)] scan_units [OF 1(2)] skip_le [OF 1(3)] Suc(1) [OF 1(4)] skip_le [OF 1(5)] by auto
    next
      case (2 s1 k u v t w x ms')
      then show ?thesis using skip_le [OF 2(1)] scan_units [OF 2(2)] skip_le [OF 2(3)] Suc(1) [OF 2(4)] skip_le [OF 2(5)] Suc(3) [OF 2(6)]
        by auto
    qed
  }
qed simp_all

lemma pval_more:
  "2 * length s < f \<Longrightarrow> pval (Suc f) n s = pval f n s"
  "2 * length s + 1 < f \<Longrightarrow> pelems (Suc f) n s = pelems f n s"
  "2 * length s + 1 < f \<Longrightarrow> pmems (Suc f) n s = pmems f n s"
proof (induction f arbitrary: n s)
  case (Suc f)
  { case 1
    then have "skip_ws s = c # u \<Longrightarrow> pelems (Suc f) k u = pelems f k u \<and> pmems (Suc f) k u = pmems f k u" for c u k
      using Suc(2,3) skip_le [of s c u] by simp
    then show ?case unfolding pval.simps(2) [of "Suc f" n s] pval.simps(2) [of f n s] by (auto simp del: dropWhile_eq_Nil_conv split: list.splits)
  next
    case 2
    have p: "pval (Suc f) n s = pval f n s" using Suc(1) [of s n] 2 by simp
    have "pval f n s = Some (t, u) \<Longrightarrow> skip_ws u = c # v \<Longrightarrow> pelems (Suc f) n v = pelems f n v" for t u c v
      using Suc(2) [of v n] 2 skip_le [of u c v] pval_shrinks(1) [of f n s t u] by simp
    then show ?case unfolding pelems.simps(2) [of "Suc f" n s] pelems.simps(2) [of f n s] p
      by (auto simp del: dropWhile_eq_Nil_conv split: list.splits bind_splits)
  next
    case 3
    have s: "length v < length s" if "skip_ws s = qt # s1" "scan_str s1 = Some (k, u)" "skip_ws u = c # v" for s1 k u c v
      using skip_le [OF that(1)] scan_units [OF that(2)] skip_le [OF that(3)] by auto
    have p: "pval (Suc f) n v = pval f n v" if "length v < length s" for v using Suc(1) [of v n] 3 that by simp
    have q: "pmems (Suc f) n x = pmems f n x" if "length v < length s" "pval f n v = Some (t, w)" "skip_ws w = c # x" for v t w c x
      using Suc(3) [of x n] 3 that skip_le [OF that(3)] pval_shrinks(1) [OF that(2)] by simp
    show ?case unfolding pmems.simps(2) [of "Suc f" n s] pmems.simps(2) [of f n s]
      by (auto simp: p q Let_def simp del: dropWhile_eq_Nil_conv dest!: s split: list.splits bind_splits)
  }
qed simp_all

text \<open>Twice the length of the text is fuel enough: more gives the same result.\<close>

lemma pval_fuel:
  assumes "2 * length s < f"
  shows "pval f n s = pval (2 * length s + 1) n s"
proof -
  have "pval (2 * length s + 1 + k) n s = pval (2 * length s + 1) n s" for k
    by (induction k) (simp_all add: pval_more(1))
  from this [of "f - (2 * length s + 1)"] assms show ?thesis by simp
qed

end
