(* ===== verification/Transaction_Codec.thy ===== *)
theory Transaction_Codec
  imports Json_Values Doc_Store
begin

text \<open>
  The encoding of a transaction as the bytes of one Raft entry: \<^verbatim>\<open>EncodeTransaction\<close> and
  \<^verbatim>\<open>DecodeTransaction\<close> of \<^verbatim>\<open>docstore/document.go\<close>, which call \<^verbatim>\<open>json.Marshal\<close> and
  \<^verbatim>\<open>json.Unmarshal\<close> on a slice of mutations. Decoding what was encoded gives the transaction
  with its strings made valid UTF-8 and its documents compacted.
\<close>

subsection \<open>Encoding\<close>

definition go_itoa :: "int \<Rightarrow> string" where
  "go_itoa n = (if n < 0 then CHR ''-'' # decimal (nat (- n)) else decimal (nat n))"

fun commas :: "string list \<Rightarrow> string" where
  "commas [] = []"
| "commas (x # xs) = x @ (if xs = [] then [] else CHR '','' # commas xs)"

definition member_text :: "string \<Rightarrow> string \<Rightarrow> string" where
  "member_text k v = qt # k @ [qt, CHR '':''] @ v"

text \<open>
  One mutation, with the \<^verbatim>\<open>omitempty\<close> fields; \<^const>\<open>None\<close> when its raw data is no JSON text.
\<close>

definition mutation_text :: "mutation \<Rightarrow> string option" where
  "mutation_text m =
     (case (if mData m = [] then Some [] else map_option (\<lambda>d. [member_text ''data'' d]) (compact (bytes_string (mData m)))) of
        None \<Rightarrow> None
      | Some data \<Rightarrow>
          Some (CHR ''{'' # commas
            ([member_text ''op'' (qt # quote (mOp m) @ [qt]), member_text ''id'' (qt # quote (mID m) @ [qt])] @ data
             @ (case mExpected m of None \<Rightarrow> [] | Some v \<Rightarrow> [member_text ''expected_version'' (go_itoa v)]))
            @ ''}''))"

text \<open>The slice is not nil: the callers propose slice literals.\<close>

definition EncodeTransaction :: "mutation list \<Rightarrow> unit + bytes" where
  "EncodeTransaction muts =
     (case those (map mutation_text muts) of
        None \<Rightarrow> Inl ()
      | Some ts \<Rightarrow> Inr (string_bytes (CHR ''['' # commas ts @ '']'')))"

subsection \<open>Decoding\<close>

text \<open>
  A key names a field of the struct when the two agree under Unicode case folding; the long s
  and the Kelvin sign are the characters beyond ASCII that fold into it.
\<close>

function fold_key :: "string \<Rightarrow> string" where
  "fold_key s =
     (if s = [] then []
      else if take 2 s = [CHR 0xC5, CHR 0xBF] then CHR ''S'' # fold_key (drop 2 s)
      else if take 3 s = [CHR 0xE2, CHR 0x84, CHR 0xAA] then CHR ''K'' # fold_key (drop 3 s)
      else (if 97 \<le> code (hd s) \<and> code (hd s) \<le> 122 then char_of (code (hd s) - 32) else hd s) # fold_key (tl s))"
  by auto
termination by (relation "measure length") auto

declare fold_key.simps [simp del]

definition zero_mutation :: mutation where
  "zero_mutation = \<lparr>mOp = [], mID = [], mData = [], mExpected = None\<rparr>"

definition string_field :: "jtree \<Rightarrow> string \<Rightarrow> string option" where
  "string_field t old = (case t of JStr c \<Rightarrow> Some (unquote c) | JNull \<Rightarrow> Some old | _ \<Rightarrow> None)"

definition int_field :: "jtree \<Rightarrow> int option option" where
  "int_field t = (case t of JNull \<Rightarrow> Some None | JNum l \<Rightarrow> map_option Some (go_atoi l) | _ \<Rightarrow> None)"

definition set_field :: "mutation \<Rightarrow> string \<times> string \<times> jtree \<Rightarrow> mutation option" where
  "set_field m f =
     (case f of (k, raw, t) \<Rightarrow>
        let name = fold_key (unquote k) in
        if name = ''OP'' then map_option (\<lambda>s. m\<lparr>mOp := s\<rparr>) (string_field t (mOp m))
        else if name = ''ID'' then map_option (\<lambda>s. m\<lparr>mID := s\<rparr>) (string_field t (mID m))
        else if name = ''DATA'' then Some (m\<lparr>mData := string_bytes raw\<rparr>)
        else if name = ''EXPECTED_VERSION'' then map_option (\<lambda>v. m\<lparr>mExpected := v\<rparr>) (int_field t)
        else Some m)"

fun set_fields :: "mutation \<Rightarrow> (string \<times> string \<times> jtree) list \<Rightarrow> mutation option" where
  "set_fields m [] = Some m"
| "set_fields m (f # fs) = Option.bind (set_field m f) (\<lambda>m'. set_fields m' fs)"

definition decode_mutation :: "jtree \<Rightarrow> mutation option" where
  "decode_mutation t = (case t of JNull \<Rightarrow> Some zero_mutation | JObj ms \<Rightarrow> set_fields zero_mutation ms | _ \<Rightarrow> None)"

definition DecodeTransaction :: "bytes \<Rightarrow> mutation list option" where
  "DecodeTransaction blob =
     (case parse_json (bytes_string blob) of
        Some JNull \<Rightarrow> Some []
      | Some (JArr ts) \<Rightarrow> those (map decode_mutation ts)
      | _ \<Rightarrow> None)"

subsection \<open>Integers\<close>

lemma decimal_first: "hd (decimal n) = CHR ''0'' \<longleftrightarrow> n = 0"
proof (induction n rule: decimal.induct)
  case (1 n)
  have z: "char_of (48 :: nat) = CHR ''0''" by code_simp
  have "n < 10 \<Longrightarrow> char_of (48 + n) = CHR ''0'' \<longleftrightarrow> n = 0"
    using of_char_eq_iff [of "char_of (48 + n)" "CHR ''0''", where 'a = nat] by auto
  then show ?case using 1 decimal_digits [of "n div 10"] z by (subst decimal.simps) (auto simp: hd_append)
qed

lemma decimal_int: "decimal n = ''0'' \<or> digs (decimal n) \<and> hd (decimal n) \<noteq> CHR ''0''"
proof (cases "n = 0")
  case True
  moreover have "decimal 0 = ''0''" by code_simp
  ultimately show ?thesis by simp
qed (simp add: decimal_first decimal_digits digs_def)

lemma decimal_sign: "hd (decimal n) \<noteq> CHR ''-''" "hd (decimal n) \<noteq> CHR ''+''" "decimal n \<noteq> []"
  using decimal_digits [of n] is_digit_lits by (cases "decimal n"; auto)+

lemma itoa_num: "num_lit (go_itoa v)"
proof -
  have "scan_int (decimal n @ []) = Some (decimal n, [])" for n by (rule scan_int_app [OF decimal_int]) simp
  then have "scan_num (go_itoa v) = Some (go_itoa v, [])"
    using decimal_sign by (simp add: scan_num_def go_itoa_def scan_frac_def scan_exp_def)
  then show ?thesis by (rule scan_num_lit(2))
qed

definition int64 :: "int \<Rightarrow> bool" where
  "int64 v \<longleftrightarrow> - (2 ^ 63) \<le> v \<and> v < 2 ^ 63"

lemma atoi_itoa: "int64 v \<Longrightarrow> go_atoi (go_itoa v) = Some v"
  using decimal_sign [of "nat v"] decimal_digits by (auto simp: go_atoi_def go_itoa_def int64_def parse_decimal)

subsection \<open>Decoding what was encoded\<close>

lemma prs_commas: "prs ts = commas (map pr ts)"
  by (induction ts) auto

lemma prm_commas: "prm ms = commas (map (\<lambda>(k, _, t). member_text (hesc k) (pr t)) ms)"
  by (induction ms rule: induct_list012) (auto simp: member_text_def)

lemma jns_map: "jns ts = map jn ts"
  by (induction ts) auto

lemma jwfs_all: "jwfs n ts \<longleftrightarrow> (\<forall>t \<in> set ts. jwf n t)"
  by (induction ts) auto

lemma field_names:
  "hesc ''op'' = ''op''" "hesc ''id'' = ''id''" "hesc ''data'' = ''data''" "hesc ''expected_version'' = ''expected_version''"
  "fold_key (unquote ''op'') = ''OP''" "fold_key (unquote ''id'') = ''ID''" "fold_key (unquote ''data'') = ''DATA''"
  "fold_key (unquote ''expected_version'') = ''EXPECTED_VERSION''"
  by code_simp+

lemma name_lits: "str_lit ''op''" "str_lit ''id''" "str_lit ''data''" "str_lit ''expected_version''"
proof -
  have "list_all (\<lambda>c. c \<noteq> qt \<and> c \<noteq> bsl \<and> 0x20 \<le> code c) s \<Longrightarrow> str_lit s" for s
    unfolding str_lit_def by (rule exI [of _ "map (\<lambda>c. [c]) s"]) (induction s; auto intro: lit_unit.intros(1))
  then show "str_lit ''op''" "str_lit ''id''" "str_lit ''data''" "str_lit ''expected_version''" by simp_all
qed

lemma quote_lit: "str_lit (quote s)"
  using lit_scan [OF lit_simps(5), of s "[]"] scan_str_lit by blast

lemma bytes_string_empty [simp]: "bytes_string [] = []"
  by (simp add: bytes_string_def)

lemma compact_Nil: "compact [] = None" "parse_json [] = None"
  by (simp_all add: compact_def parse_json_def pval.simps(2))

lemma set_field_eqs:
  "set_field m (''op'', raw, JStr (quote v)) = Some (m\<lparr>mOp := to_valid v\<rparr>)"
  "set_field m (''id'', raw, JStr (quote v)) = Some (m\<lparr>mID := to_valid v\<rparr>)"
  "set_field m (''data'', raw, t) = Some (m\<lparr>mData := string_bytes raw\<rparr>)"
  "int64 n \<Longrightarrow> set_field m (''expected_version'', raw, JNum (go_itoa n)) = Some (m\<lparr>mExpected := Some n\<rparr>)"
  by (simp_all add: set_field_def Let_def field_names string_field_def int_field_def unquote_quote atoi_itoa)

text \<open>The value whose compact text a mutation is encoded as.\<close>

definition mutation_obj :: "mutation \<Rightarrow> jtree" where
  "mutation_obj m = JObj ([(''op'', [], JStr (quote (mOp m))), (''id'', [], JStr (quote (mID m)))]
     @ (case parse_json (bytes_string (mData m)) of Some t \<Rightarrow> [(''data'', [], t)] | None \<Rightarrow> [])
     @ (case mExpected m of Some v \<Rightarrow> [(''expected_version'', [], JNum (go_itoa v))] | None \<Rightarrow> []))"

lemma mutation_text_obj:
  assumes "mutation_text m = Some s"
  shows "s = pr (mutation_obj m)" "mData m = [] \<or> parse_json (bytes_string (mData m)) \<noteq> None"
proof -
  show d: "mData m = [] \<or> parse_json (bytes_string (mData m)) \<noteq> None"
    using assms by (cases "mData m = []"; cases "parse_json (bytes_string (mData m))") (simp_all add: mutation_text_def compact_def)
  then show "s = pr (mutation_obj m)" using assms
    by (cases "mData m = []"; cases "parse_json (bytes_string (mData m))"; cases "mExpected m")
      (simp_all add: mutation_text_def mutation_obj_def prm_commas field_names hesc_quote compact_def compact_Nil)
qed

lemma mutation_obj_wf:
  assumes "\<And>t. parse_json (bytes_string (mData m)) = Some t \<Longrightarrow> jwf k t" "0 \<le> k"
  shows "jwf (k + 1) (mutation_obj m)"
  using assms by (simp add: mutation_obj_def name_lits quote_lit itoa_num split: option.splits)

text \<open>What the decoder of another replica makes of a mutation.\<close>

definition sent :: "mutation \<Rightarrow> mutation" where
  "sent m = m\<lparr>mOp := to_valid (mOp m), mID := to_valid (mID m),
     mData := (case compact (bytes_string (mData m)) of Some d \<Rightarrow> string_bytes d | None \<Rightarrow> mData m)\<rparr>"

lemma mutation_obj_decode:
  assumes "mData m = [] \<or> parse_json (bytes_string (mData m)) \<noteq> None" "\<And>v. mExpected m = Some v \<Longrightarrow> int64 v"
  shows "decode_mutation (jn (mutation_obj m)) = Some (sent m)"
  using assms
  by (cases "mData m = []"; cases "parse_json (bytes_string (mData m))"; cases "mExpected m")
    (simp_all add: decode_mutation_def mutation_obj_def field_names hesc_quote set_field_eqs zero_mutation_def sent_def compact_def compact_Nil)

text \<open>The version is an \<^verbatim>\<open>int\<close> and the document leaves room for the two levels around it.\<close>

definition fits :: "mutation \<Rightarrow> bool" where
  "fits m \<longleftrightarrow> (case parse_json (bytes_string (mData m)) of Some t \<Rightarrow> int (jdepth t) \<le> max_depth - 2 | None \<Rightarrow> True)
     \<and> (case mExpected m of Some v \<Rightarrow> int64 v | None \<Rightarrow> True)"

lemma fits_obj:
  assumes "mutation_text m = Some s" "fits m"
  shows "jwf (max_depth - 1) (mutation_obj m)" "decode_mutation (jn (mutation_obj m)) = Some (sent m)"
proof -
  have "jwf (max_depth - 2 + 1) (mutation_obj m)"
    using assms(2) by (intro mutation_obj_wf) (auto simp: fits_def max_depth_def intro: jwf_depth(1) [OF parse_wf])
  then show "jwf (max_depth - 1) (mutation_obj m)" by (simp add: max_depth_def)
  show "decode_mutation (jn (mutation_obj m)) = Some (sent m)"
    using mutation_obj_decode [OF mutation_text_obj(2) [OF assms(1)]] assms(2) by (cases "mExpected m") (auto simp: fits_def)
qed

lemma encoded_text:
  assumes "EncodeTransaction muts = Inr blob"
  shows "bytes_string blob = pr (JArr (map mutation_obj muts))" "\<forall>m \<in> set muts. mutation_text m \<noteq> None"
proof -
  obtain ss where ss: "those (map mutation_text muts) = Some ss" "blob = string_bytes (CHR ''['' # commas ss @ '']'')"
    using assms by (auto simp: EncodeTransaction_def split: option.splits)
  have "ss = map (pr \<circ> mutation_obj) muts \<and> (\<forall>m \<in> set muts. mutation_text m \<noteq> None)"
    using ss(1) by (induction muts arbitrary: ss) (auto simp: mutation_text_obj(1) split: option.splits)
  then show "bytes_string blob = pr (JArr (map mutation_obj muts))" "\<forall>m \<in> set muts. mutation_text m \<noteq> None"
    using ss(2) by (simp_all add: prs_commas)
qed

lemma decode_encoded:
  assumes "EncodeTransaction muts = Inr blob" "list_all fits muts"
  shows "DecodeTransaction blob = Some (map sent muts)"
proof -
  note e = encoded_text [OF assms(1)]
  have ok: "jwf (max_depth - 1) (mutation_obj m) \<and> decode_mutation (jn (mutation_obj m)) = Some (sent m)" if "m \<in> set muts" for m
    using e(2) fits_obj assms(2) that by (auto simp: list_all_iff)
  then have "jwf max_depth (JArr (map mutation_obj muts))" by (simp add: jwfs_all max_depth_def)
  from parse_pr [OF this] have "parse_json (bytes_string blob) = Some (JArr (map (jn \<circ> mutation_obj) muts))" by (simp add: e(1) jns_map)
  moreover have "those (map (\<lambda>m. decode_mutation (jn (mutation_obj m))) muts) = Some (map sent muts)"
    using ok by (induction muts) auto
  ultimately show ?thesis by (simp add: DecodeTransaction_def comp_def)
qed

text \<open>
  A document text as the handlers make them: compact, with room for two levels of nesting. A mutation
  that the encoding keeps has valid UTF-8 strings, no data or such a document, and a
  version that is an \<^verbatim>\<open>int\<close>.
\<close>

definition doc_text :: "bytes \<Rightarrow> bool" where
  "doc_text d \<longleftrightarrow> (case parse_json (bytes_string d) of Some t \<Rightarrow> pr t = bytes_string d \<and> int (jdepth t) \<le> max_depth - 2 | None \<Rightarrow> False)"

definition canonical :: "mutation \<Rightarrow> bool" where
  "canonical m \<longleftrightarrow> valid_utf8 (mOp m) \<and> valid_utf8 (mID m) \<and> (mData m = [] \<or> doc_text (mData m))
     \<and> (case mExpected m of Some v \<Rightarrow> int64 v | None \<Rightarrow> True)"

lemma canonical_kept:
  assumes "canonical m"
  shows "fits m" "sent m = m" "mutation_text m \<noteq> None"
  using assms
  by (auto simp: canonical_def doc_text_def fits_def sent_def valid_to_valid compact_def compact_Nil mutation_text_def split: option.splits)

lemma sent_put:
  assumes "doc_text d"
  shows "list_all fits [\<lparr>mOp = ''put'', mID = k, mData = d, mExpected = None\<rparr>]"
    "map sent [\<lparr>mOp = ''put'', mID = k, mData = d, mExpected = None\<rparr>] = [\<lparr>mOp = ''put'', mID = to_valid k, mData = d, mExpected = None\<rparr>]"
proof -
  have "to_valid ''put'' = ''put''" by code_simp
  then show "list_all fits [\<lparr>mOp = ''put'', mID = k, mData = d, mExpected = None\<rparr>]"
    "map sent [\<lparr>mOp = ''put'', mID = k, mData = d, mExpected = None\<rparr>] = [\<lparr>mOp = ''put'', mID = to_valid k, mData = d, mExpected = None\<rparr>]"
    using assms by (auto simp: doc_text_def fits_def sent_def compact_def split: option.splits)
qed

lemma canonical_roundtrip:
  assumes "list_all canonical muts"
  obtains blob where "EncodeTransaction muts = Inr blob" "DecodeTransaction blob = Some muts"
proof -
  have "those (map mutation_text muts) \<noteq> None" using assms canonical_kept(3) by (induction muts) (auto split: option.splits)
  then obtain blob where b: "EncodeTransaction muts = Inr blob" by (auto simp: EncodeTransaction_def)
  have "list_all fits muts" "map sent muts = muts" using assms canonical_kept by (induction muts) auto
  with decode_encoded [OF b] b that show ?thesis by simp
qed

text \<open>
  C0: A transaction whose strings are valid UTF-8, whose documents are compact JSON texts with room for
  two levels of nesting and whose expected versions are \<^verbatim>\<open>int\<close> values is encoded, and
  decoding gives the same mutations in the same order.
\<close>

theorem transaction_roundtrip:
  assumes "list_all canonical muts"
  shows "\<exists>blob. EncodeTransaction muts = Inr blob \<and> DecodeTransaction blob = Some muts"
  using canonical_roundtrip [OF assms] by blast

definition demo_muts :: "mutation list" where
  "demo_muts = [\<lparr>mOp = ''put'', mID = ''a<b'', mData = string_bytes (CHR ''{'' # qt # ''n'' @ qt # '':[1,-2.5e3]}''), mExpected = Some (-7)\<rparr>,
     \<lparr>mOp = ''delete'', mID = [CHR 0xC3, CHR 0xA9], mData = [], mExpected = None\<rparr>]"

theorem transaction_roundtrip_witness:
  "\<exists>blob. EncodeTransaction demo_muts = Inr blob \<and> DecodeTransaction blob = Some demo_muts"
proof (rule transaction_roundtrip)
  show "list_all canonical demo_muts" by code_simp
qed

text \<open>An id that is no valid UTF-8 becomes another one on the way through the log.\<close>

lemma invalid_id_changes:
  "\<exists>blob. EncodeTransaction [\<lparr>mOp = ''put'', mID = [CHR 0xFF], mData = string_bytes ''1'', mExpected = None\<rparr>] = Inr blob
    \<and> DecodeTransaction blob = Some [\<lparr>mOp = ''put'', mID = [CHR 0xEF, CHR 0xBF, CHR 0xBD], mData = string_bytes ''1'', mExpected = None\<rparr>]"
proof -
  let ?m = "\<lambda>k. \<lparr>mOp = ''put'', mID = k, mData = string_bytes ''1'', mExpected = None\<rparr>"
  have "EncodeTransaction [?m [CHR 0xFF]] \<noteq> Inl ()" "fits (?m [CHR 0xFF])" "sent (?m [CHR 0xFF]) = ?m [CHR 0xEF, CHR 0xBF, CHR 0xBD]"
    by code_simp+
  then show ?thesis using decode_encoded [of "[?m [CHR 0xFF]]"] by (cases "EncodeTransaction [?m [CHR 0xFF]]") auto
qed

text \<open>
  A document that is valid JSON and nested 9999 or 10000 levels deep is encoded, and no replica can decode
  the transaction.
\<close>

lemma deep_document_lost:
  assumes "parse_json (bytes_string d) = Some t" "max_depth - 2 < int (jdepth t)" "d \<noteq> []"
  shows "\<exists>blob. EncodeTransaction [\<lparr>mOp = ''put'', mID = k, mData = d, mExpected = None\<rparr>] = Inr blob \<and> DecodeTransaction blob = None"
proof -
  let ?m = "\<lparr>mOp = ''put'', mID = k, mData = d, mExpected = None\<rparr>"
  obtain blob where b: "EncodeTransaction [?m] = Inr blob"
    using assms by (auto simp: EncodeTransaction_def mutation_text_def compact_def)
  have "jwf (max_depth + 1) (mutation_obj ?m)" using assms(1) parse_wf [OF assms(1)] by (intro mutation_obj_wf) (auto simp: max_depth_def)
  then have "jwf (max_depth + 2) (JArr [mutation_obj ?m])" by (simp add: max_depth_def)
  moreover have "max_depth < int (jdepth (JArr [mutation_obj ?m]))" using assms(1,2) by (simp add: mutation_obj_def)
  ultimately have "parse_json (bytes_string blob) = None" using parse_deep encoded_text(1) [OF b] by (metis list.map)
  then show ?thesis using b by (simp add: DecodeTransaction_def)
qed

end
