(* ===== verification/Replicated_Docs.thy ===== *)
theory Replicated_Docs
  imports Replicated_Log Transaction_Codec
begin

text \<open>
  The replicated document stores: \<^verbatim>\<open>docstore/replicated.go\<close> and
  \<^verbatim>\<open>docstore/replicated_locked.go\<close>. The JSON codec of transactions (\<open>encT\<close>, \<open>decT\<close>), the
  decoder of documents (\<open>unm\<close>) and the formatting of a field (\<open>fmtv\<close>) are arguments. A replica
  has its write-ahead log on a disk of its own.
\<close>

subsection \<open>The multi-version store\<close>

record ('k, 'v) rdocs =
  dsWal :: "'k slog"
  dsWorld :: "'k world"
  dsStore :: "'v mstore"
  dsLastApplied :: int

type_synonym ('k, 'v) dsystem = "(command, ('k, 'v) rdocs) system"

type_synonym ('k, 'v) loop = "command ApplyMsg \<Rightarrow> ('k, 'v) rdocs \<Rightarrow> ('k, 'v) rdocs"

definition NewReplicatedDocStore :: "string \<Rightarrow> string \<Rightarrow> 'k world \<Rightarrow> serr + ('k, 'v) rdocs" where
  "NewReplicatedDocStore dir field w =
     (case Open dir 0 (wDisk w) of
        (Inl e, _) \<Rightarrow> Inl e
      | (Inr l, d) \<Rightarrow> Inr \<lparr>dsWal = l, dsWorld = w\<lparr>wDisk := d\<rparr>, dsStore = NewMVCCStore field, dsLastApplied = 0\<rparr>)"

text \<open>One iteration of \<^verbatim>\<open>applyLoop\<close>; the errors of the log and of the transaction are dropped.\<close>

definition ds_applyLoop :: "(bytes \<Rightarrow> mutation list option) \<Rightarrow> (bytes \<Rightarrow> 'v document option) \<Rightarrow> ('v option \<Rightarrow> string) \<Rightarrow>
    command ApplyMsg \<Rightarrow> ('k, 'v) rdocs \<Rightarrow> ('k, 'v) rdocs" where
  "ds_applyLoop decT unm fmtv msg ds =
     (if \<not> amCommandValid msg then ds
      else (case amCommand msg of
              Some (Bytes payload) \<Rightarrow>
                (let (_, l, w) = Append payload (dsWal ds, dsWorld ds);
                     store = (case decT payload of
                                Some muts \<Rightarrow> snd (ApplyTransaction unm fmtv muts (amCommandIndex msg) (dsStore ds))
                              | None \<Rightarrow> dsStore ds)
                 in \<lparr>dsWal = l, dsWorld = w, dsStore = store, dsLastApplied = amCommandIndex msg\<rparr>)
            | _ \<Rightarrow> ds))"

definition ds_Propose :: "(mutation list \<Rightarrow> 'e + bytes) \<Rightarrow> int \<Rightarrow> mutation list \<Rightarrow> (command, 'r) system \<Rightarrow>
    (('e + int \<times> bool) \<times> (command, 'r) system) option" where
  "ds_Propose encT n muts s =
     (case encT muts of
        Inl e \<Rightarrow> Some (Inl e, s)
      | Inr blob \<Rightarrow> do { ((idx, term, isLeader), s1) \<leftarrow> Propose n (Bytes blob) s; Some (Inr (idx, isLeader), s1) })"

definition ds_GetState :: "int \<Rightarrow> ('k, 'v) dsystem \<Rightarrow> int \<times> bool" where
  "ds_GetState n s = GetState (cNodes (sRaft s) n)"

definition ds_WaitApplied :: "('k, 'v) loop \<Rightarrow> int list \<Rightarrow> int \<Rightarrow> int \<Rightarrow> int \<Rightarrow> int \<Rightarrow> (int \<times> command sevent list) list \<Rightarrow>
    ('k, 'v) dsystem \<Rightarrow> (bool option \<times> ('k, 'v) dsystem) option" where
  "ds_WaitApplied ap ps n raftIndex now timeout polls s = WaitApplied ap dsLastApplied ps n raftIndex (now + timeout) polls s"

definition ds_GCBefore :: "int \<Rightarrow> ('k, 'v) rdocs \<Rightarrow> ('k, 'v) rdocs" where
  "ds_GCBefore raftIndex ds = ds\<lparr>dsStore := GCBefore raftIndex (dsStore ds)\<rparr>"

definition ds_Snapshot :: "('k, 'v) rdocs \<Rightarrow> int" where
  "ds_Snapshot ds = Snapshot (dsStore ds)"

definition ds_Close :: "int \<Rightarrow> (command, ('k, 'v) rdocs) system \<Rightarrow> (serr + unit) \<times> (command, ('k, 'v) rdocs) system" where
  "ds_Close n s =
     (let s = s\<lparr>sRaft := set_node n (Kill (cNodes (sRaft s) n)) (sRaft s)\<rparr>; ds = sReps s n in
      case Close (dsWal ds, dsWorld ds) of
        (r, l, w) \<Rightarrow> (r, s\<lparr>sReps := (sReps s)(n := ds\<lparr>dsWal := l, dsWorld := w\<rparr>)\<rparr>))"

subsection \<open>The locked store\<close>

record ('k, 'v) rldocs =
  ldsWal :: "'k slog"
  ldsWorld :: "'k world"
  ldsStore :: "'v lstore"
  ldsLastApplied :: int

definition NewReplicatedLockedDocStore :: "string \<Rightarrow> 'k world \<Rightarrow> serr + ('k, 'v) rldocs" where
  "NewReplicatedLockedDocStore dir w =
     (case Open dir 0 (wDisk w) of
        (Inl e, _) \<Rightarrow> Inl e
      | (Inr l, d) \<Rightarrow> Inr \<lparr>ldsWal = l, ldsWorld = w\<lparr>wDisk := d\<rparr>, ldsStore = NewLockedStore, ldsLastApplied = 0\<rparr>)"

definition lds_applyLoop :: "(bytes \<Rightarrow> mutation list option) \<Rightarrow> (bytes \<Rightarrow> 'v document option) \<Rightarrow>
    command ApplyMsg \<Rightarrow> ('k, 'v) rldocs \<Rightarrow> ('k, 'v) rldocs" where
  "lds_applyLoop decT unm msg ds =
     (if \<not> amCommandValid msg then ds
      else (case amCommand msg of
              Some (Bytes payload) \<Rightarrow>
                (let (_, l, w) = Append payload (ldsWal ds, ldsWorld ds);
                     store = (case decT payload of
                                Some muts \<Rightarrow> snd (l_ApplyTransaction unm muts (ldsStore ds))
                              | None \<Rightarrow> ldsStore ds)
                 in \<lparr>ldsWal = l, ldsWorld = w, ldsStore = store, ldsLastApplied = amCommandIndex msg\<rparr>)
            | _ \<Rightarrow> ds))"

definition lds_Propose :: "(mutation list \<Rightarrow> 'e + bytes) \<Rightarrow> int \<Rightarrow> mutation list \<Rightarrow> (command, ('k, 'v) rldocs) system \<Rightarrow>
    (('e + int \<times> bool) \<times> (command, ('k, 'v) rldocs) system) option" where
  "lds_Propose encT n muts s =
     (case encT muts of
        Inl e \<Rightarrow> Some (Inl e, s)
      | Inr blob \<Rightarrow> do { ((idx, term, isLeader), s1) \<leftarrow> Propose n (Bytes blob) s; Some (Inr (idx, isLeader), s1) })"

definition lds_GetState :: "int \<Rightarrow> (command, ('k, 'v) rldocs) system \<Rightarrow> int \<times> bool" where
  "lds_GetState n s = GetState (cNodes (sRaft s) n)"

definition lds_WaitApplied :: "(command ApplyMsg \<Rightarrow> ('k, 'v) rldocs \<Rightarrow> ('k, 'v) rldocs) \<Rightarrow> int list \<Rightarrow> int \<Rightarrow> int \<Rightarrow> int \<Rightarrow> int \<Rightarrow>
    (int \<times> command sevent list) list \<Rightarrow> (command, ('k, 'v) rldocs) system \<Rightarrow>
    (bool option \<times> (command, ('k, 'v) rldocs) system) option" where
  "lds_WaitApplied ap ps n raftIndex now timeout polls s = WaitApplied ap ldsLastApplied ps n raftIndex (now + timeout) polls s"

definition lds_Get :: "('k, 'v) rldocs \<Rightarrow> string \<Rightarrow> 'v document option" where
  "lds_Get ds k = l_Get (ldsStore ds) k"

definition lds_Close :: "int \<Rightarrow> (command, ('k, 'v) rldocs) system \<Rightarrow> (serr + unit) \<times> (command, ('k, 'v) rldocs) system" where
  "lds_Close n s =
     (let s = s\<lparr>sRaft := set_node n (Kill (cNodes (sRaft s) n)) (sRaft s)\<rparr>; ds = sReps s n in
      case Close (ldsWal ds, ldsWorld ds) of
        (r, l, w) \<Rightarrow> (r, s\<lparr>sReps := (sReps s)(n := ds\<lparr>ldsWal := l, ldsWorld := w\<rparr>)\<rparr>))"

subsection \<open>Both are state machines\<close>

text \<open>What a message does to the abstract state: the store, and the index of the last command.\<close>

definition is_command :: "command ApplyMsg \<Rightarrow> bool" where
  "is_command msg \<longleftrightarrow> amCommandValid msg \<and> (\<exists>p. amCommand msg = Some (Bytes p))"

definition doc_next :: "(bytes \<Rightarrow> mutation list option) \<Rightarrow> (mutation list \<Rightarrow> int \<Rightarrow> 's \<Rightarrow> 's) \<Rightarrow>
    command ApplyMsg \<Rightarrow> 's \<times> int \<Rightarrow> 's \<times> int" where
  "doc_next decT tx msg x =
     (if \<not> amCommandValid msg then x
      else (case amCommand msg of
              Some (Bytes payload) \<Rightarrow>
                ((case decT payload of Some muts \<Rightarrow> tx muts (amCommandIndex msg) (fst x) | None \<Rightarrow> fst x), amCommandIndex msg)
            | _ \<Rightarrow> x))"

abbreviation mv_tx :: "(bytes \<Rightarrow> 'v document option) \<Rightarrow> ('v option \<Rightarrow> string) \<Rightarrow> mutation list \<Rightarrow> int \<Rightarrow> 'v mstore \<Rightarrow> 'v mstore" where
  "mv_tx unm fmtv muts i s \<equiv> snd (ApplyTransaction unm fmtv muts i s)"

abbreviation lk_tx :: "(bytes \<Rightarrow> 'v document option) \<Rightarrow> mutation list \<Rightarrow> int \<Rightarrow> 'v lstore \<Rightarrow> 'v lstore" where
  "lk_tx unm muts i s \<equiv> snd (l_ApplyTransaction unm muts s)"

interpretation rdocs: state_machine "ds_applyLoop decT unm fmtv" "\<lambda>ds x. x = (dsStore ds, dsLastApplied ds)"
    "doc_next decT (mv_tx unm fmtv)" "\<lambda>_ _. True" for decT unm fmtv
  by unfold_locales (auto simp: ds_applyLoop_def doc_next_def Let_def split: option.splits command.splits prod.splits)

interpretation rldocs: state_machine "lds_applyLoop decT unm" "\<lambda>ds x. x = (ldsStore ds, ldsLastApplied ds)"
    "doc_next decT (lk_tx unm)" "\<lambda>_ _. True" for decT unm
  by unfold_locales (auto simp: lds_applyLoop_def doc_next_def Let_def split: option.splits command.splits prod.splits)

interpretation rdocs_index: applied_index "ds_applyLoop decT unm fmtv" dsLastApplied for decT unm fmtv
  by unfold_locales (auto simp: ds_applyLoop_def Let_def split: option.splits command.splits prod.splits)

interpretation rldocs_index: applied_index "lds_applyLoop decT unm" ldsLastApplied for decT unm
  by unfold_locales (auto simp: lds_applyLoop_def Let_def split: option.splits command.splits prod.splits)

text \<open>The state depends on the last applied index only: messages that leave it alone change nothing.\<close>

lemma doc_next_index:
  assumes "sorted_wrt (<) (map amCommandIndex ms)" "\<forall>m \<in> set ms. snd x < amCommandIndex m"
  shows "snd x \<le> snd (fold (doc_next decT tx) ms x)" "snd (fold (doc_next decT tx) ms x) = snd x \<Longrightarrow> fold (doc_next decT tx) ms x = x"
proof -
  have "snd x \<le> snd (fold (doc_next decT tx) ms x) \<and> (snd (fold (doc_next decT tx) ms x) = snd x \<longrightarrow> fold (doc_next decT tx) ms x = x)"
    using assms
  proof (induction ms arbitrary: x)
    case (Cons m ms)
    have "doc_next decT tx m x = x \<or> snd (doc_next decT tx m x) = amCommandIndex m"
      by (auto simp: doc_next_def split: option.splits command.splits)
    then show ?case using Cons.IH [of "doc_next decT tx m x"] Cons.prems by auto
  qed simp
  then show "snd x \<le> snd (fold (doc_next decT tx) ms x)" "snd (fold (doc_next decT tx) ms x) = snd x \<Longrightarrow> fold (doc_next decT tx) ms x = x" by auto
qed


lemma fold_doc_index: "snd (fold (doc_next decT tx) ms x) = snd x \<or> (\<exists>m \<in> set ms. snd (fold (doc_next decT tx) ms x) = amCommandIndex m)"
proof (induction ms arbitrary: x)
  case (Cons m ms)
  have "snd (doc_next decT tx m x) \<in> {snd x, amCommandIndex m}" by (auto simp: doc_next_def split: option.splits command.splits)
  with Cons [of "doc_next decT tx m x"] show ?case by auto
qed simp

lemma same_index_same_state:
  assumes s: "sorted_wrt (<) (map amCommandIndex ms)" "\<forall>m \<in> set ms. 1 \<le> amCommandIndex m" and x: "snd x = 0"
    and kk: "k \<le> k'" and eq: "snd (fold (doc_next decT tx) (take k ms) x) = snd (fold (doc_next decT tx) (take k' ms) x)"
  shows "fold (doc_next decT tx) (take k ms) x = fold (doc_next decT tx) (take k' ms) x"
proof -
  let ?y = "fold (doc_next decT tx) (take k ms) x"
  have "take k (take k' ms) = take k ms" using kk by (simp add: min_def)
  then obtain zs where split: "take k' ms = take k ms @ zs" by (metis append_take_drop_id)
  then have fold: "fold (doc_next decT tx) (take k' ms) x = fold (doc_next decT tx) zs ?y" by simp
  have "sorted_wrt (<) (map amCommandIndex (take k' ms))" using s(1) by (simp add: sorted_wrt_take take_map [symmetric])
  then have z: "sorted_wrt (<) (map amCommandIndex zs)" "\<forall>a \<in> set (take k ms). \<forall>b \<in> set zs. amCommandIndex a < amCommandIndex b"
    unfolding split by (simp_all add: sorted_wrt_append)
  have one: "\<forall>b \<in> set zs. 1 \<le> amCommandIndex b" using s(2) split by (metis Un_iff in_set_takeD set_append)
  have "snd ?y < amCommandIndex b" if b: "b \<in> set zs" for b
    using fold_doc_index [of decT tx "take k ms" x]
  proof
    assume "snd ?y = snd x"
    then show ?thesis using bspec [OF one b] x by simp
  next
    assume "\<exists>m \<in> set (take k ms). snd ?y = amCommandIndex m"
    then show ?thesis using z(2) b by metis
  qed
  then have "fold (doc_next decT tx) zs ?y = ?y"
    using eq [unfolded fold] by (intro doc_next_index(2) [OF z(1)]) metis+
  then show ?thesis unfolding fold by (rule sym)
qed

text \<open>In a run, the machine states of two replicas with the same last applied index are equal.\<close>

lemma applied_states_agree:
  assumes ps: "distinct ps" "\<forall>p \<in> set ps. 0 \<le> p"
    and r: "srun ap ps evs1 (mkSystem ps ds reps) = Some s" "srun ap ps evs2 s = Some s'" and x: "snd x = 0"
    and t: "take k ms = take k (cApply (sRaft s) n)" "take k' ms = take k' (cApply (sRaft s') m)"
    and eq: "snd (fold (doc_next decT tx) (take k ms) x) = snd (fold (doc_next decT tx) (take k' ms) x)"
  shows "fold (doc_next decT tx) (take k ms) x = fold (doc_next decT tx) (take k' ms) x"
proof -
  obtain a b where ab: "sim ps (sRaft s) a" "sim ps (sRaft s') b" "pinv (set ps) a" "pinv (set ps) b"
    using srun_two [OF ps r] by metis
  have ap: "sorted_wrt (<) (map amCommandIndex ms) \<and> (\<forall>m \<in> set ms. 1 \<le> amCommandIndex m)"
    if "ms = take j (cApply (sRaft s) n) \<or> ms = take j (cApply (sRaft s') m)" for j ms
    using that sorted_applied [OF pinv_logD(1) [OF ab(3), of n]] sorted_applied [OF pinv_logD(1) [OF ab(4), of m]]
      sim_node(7) [OF ab(1), of n] sim_node(7) [OF ab(2), of m]
    by (auto simp: sorted_wrt_take take_map [symmetric] dest: in_set_takeD)
  show ?thesis
  proof (cases "k \<le> k'")
    case True
    have "take k (take k' ms) = take k ms" "take k' (take k' ms) = take k' ms" using True by (simp_all add: min_def)
    then show ?thesis using same_index_same_state [of "take k' ms" x k k' decT tx] ap [of "take k' ms" k'] t x eq True by simp
  next
    case False
    have "take k' (take k ms) = take k' ms" "take k (take k ms) = take k ms" using False by (simp_all add: min_def)
    then show ?thesis using same_index_same_state [of "take k ms" x k' k decT tx] ap [of "take k ms" k] t x eq False by simp
  qed
qed

subsection \<open>An applied transaction is visible\<close>

lemma mv_ok_mono: "mv_ok fmtv b s \<Longrightarrow> b \<le> b' \<Longrightarrow> mv_ok fmtv b' s"
  using chain_ok_mono by (fastforce simp: mv_ok_def)

text \<open>Messages with later indices keep the invariant and what a snapshot reads.\<close>

lemma fold_docs_keep:
  assumes "mv_ok fmtv (snd x) (fst x)" "at \<le> snd x" "sorted_wrt (<) (map amCommandIndex ms)" "\<forall>m \<in> set ms. snd x < amCommandIndex m"
    and "y = fold (doc_next decT (mv_tx unm fmtv)) ms x"
  shows "mv_ok fmtv (snd y) (fst y) \<and> snap_Get (fst y) at k = snap_Get (fst x) at k"
  using assms
proof (induction ms arbitrary: x)
  case (Cons m ms)
  let ?x = "doc_next decT (mv_tx unm fmtv) m x"
  have "mv_ok fmtv (snd ?x) (fst ?x) \<and> snap_Get (fst ?x) at k = snap_Get (fst x) at k \<and> (?x = x \<or> snd ?x = amCommandIndex m)"
  proof (cases "is_command m")
    case True
    then obtain p where p: "amCommandValid m" "amCommand m = Some (Bytes p)" by (auto simp: is_command_def)
    have le: "snd x \<le> amCommandIndex m" "at < amCommandIndex m" using Cons.prems(2,4) by auto
    show ?thesis
    proof (cases "decT p")
      case None
      then show ?thesis using p mv_ok_mono [OF Cons.prems(1) le(1)] by (simp add: doc_next_def)
    next
      case (Some muts)
      obtain e s' where t: "ApplyTransaction unm fmtv muts (amCommandIndex m) (fst x) = (e, s')" by (cases "ApplyTransaction unm fmtv muts (amCommandIndex m) (fst x)")
      note ok = ApplyTransaction_ok(1,2) [OF Cons.prems(1) le(1) t]
      show ?thesis using snap_grown [OF Cons.prems(1) ok le(2)] ok(1) p Some t by (simp add: doc_next_def)
    qed
  next
    case False
    then have "?x = x" by (auto simp: is_command_def doc_next_def split: option.splits command.splits)
    then show ?thesis using Cons.prems(1) by simp
  qed
  then show ?case using Cons.IH [of ?x] Cons.prems by auto
qed simp

lemma single_put:
  assumes "mv_ok fmtv b s" "b \<le> r" "unm data = Some doc"
  shows "snap_Get (snd (ApplyTransaction unm fmtv [\<lparr>mOp = ''put'', mID = k, mData = data, mExpected = None\<rparr>] r s)) r k = Some doc"
proof -
  obtain e s' where t: "ApplyTransaction unm fmtv [\<lparr>mOp = ''put'', mID = k, mData = data, mExpected = None\<rparr>] r s = (e, s')"
    by (cases "ApplyTransaction unm fmtv [\<lparr>mOp = ''put'', mID = k, mData = data, mExpected = None\<rparr>] r s")
  then have "doc_of (chain_of s' k) = Some doc" using assms(3) by (auto simp: ApplyTransaction_def)
  then show ?thesis using snap_latest [OF ApplyTransaction_ok(1) [OF assms(1,2) t]] t by simp
qed

lemma single_delete:
  assumes "mv_ok fmtv b s" "b \<le> r"
  shows "snap_Get (snd (ApplyTransaction unm fmtv [\<lparr>mOp = ''delete'', mID = k, mData = [], mExpected = None\<rparr>] r s)) r k = None"
proof -
  obtain e s' where t: "ApplyTransaction unm fmtv [\<lparr>mOp = ''delete'', mID = k, mData = [], mExpected = None\<rparr>] r s = (e, s')"
    by (cases "ApplyTransaction unm fmtv [\<lparr>mOp = ''delete'', mID = k, mData = [], mExpected = None\<rparr>] r s")
  then have "doc_of (chain_of s' k) = None" by (auto simp: ApplyTransaction_def)
  then show ?thesis using snap_latest [OF ApplyTransaction_ok(1) [OF assms t]] t by simp
qed

text \<open>
  A command whose index was applied in the term of its proposal: the snapshot at that index
  reads the store as it was right after the command's transaction.
\<close>

lemma acked_snapshot:
  assumes ps: "distinct ps" "\<forall>p \<in> set ps. 0 \<le> p" "n \<in> set ps"
    and run: "srun (ds_applyLoop decT unm fmtv) ps evs (mkSystem ps ds reps) = Some s"
    and init: "dsStore (reps n) = NewMVCCStore f" "dsLastApplied (reps n) = 0"
    and pp: "Propose n (Bytes blob) s = Some ((i, t, True), s0)"
    and wait: "WaitApplied (ds_applyLoop decT unm fmtv) dsLastApplied ps n i deadline polls s0 = Some (Some True, s1)"
    and same: "currentTerm (cNodes (sRaft s1) n) = t" and dec: "decT blob = Some muts"
  shows "\<exists>b s'. mv_ok fmtv b s' \<and> b \<le> i \<and> snap_Get (dsStore (sReps s1 n)) i k = snap_Get (snd (ApplyTransaction unm fmtv muts i s')) i k"
proof -
  let ?ms = "take (sTaken s1 n) (cApply (sRaft s1) n)" and ?f = "doc_next decT (mv_tx unm fmtv)"
  let ?m = "\<lparr>amCommandValid = True, amCommand = Some (Bytes blob), amCommandIndex = i\<rparr>"
  obtain evs1 b where e: "srun (ds_applyLoop decT unm fmtv) ps evs1 (mkSystem ps ds reps) = Some s1" "sim ps (sRaft s1) b" "1 \<le> i"
    using rdocs_index.acked_entry [OF ps run init(2) pp wait same] by metis
  have wf: "wf_log (pLog b n)" using e(2) pinv_logD(1) by (auto simp: sim_def)
  have "?m \<in> set ?ms" using rdocs_index.acked_taken [OF ps run init(2) pp wait same] .
  then obtain ms1 ms2 where split: "?ms = ms1 @ ?m # ms2" by (metis split_list)
  have "sorted_wrt (<) (map amCommandIndex (cApply (sRaft s1) n))" "\<forall>m \<in> set (cApply (sRaft s1) n). 1 \<le> amCommandIndex m"
    unfolding sim_node(7) [OF e(2)] using sorted_applied [OF wf] by blast+
  then have srt: "sorted_wrt (<) (map amCommandIndex ?ms)" and one: "\<forall>m \<in> set ?ms. 1 \<le> amCommandIndex m"
    by (auto simp: sorted_wrt_take take_map [symmetric] dest: in_set_takeD)
  have s1: "sorted_wrt (<) (map amCommandIndex ms1)" "\<forall>m \<in> set ms1. amCommandIndex m < i" "\<forall>m \<in> set ms1. 1 \<le> amCommandIndex m"
    and s2: "sorted_wrt (<) (map amCommandIndex ms2)" "\<forall>m \<in> set ms2. i < amCommandIndex m"
    using srt one unfolding split by (simp_all add: sorted_wrt_append)
  define x where "x = fold ?f ms1 (NewMVCCStore f, 0)"
  have "\<forall>m \<in> set ms1. snd (NewMVCCStore f, 0) < amCommandIndex m" using s1(3) by force
  then have x: "mv_ok fmtv (snd x) (fst x)" using fold_docs_keep [OF _ _ s1(1) _ x_def, of 0] NewMVCCStore_ok [of fmtv f] by simp
  have xi: "snd x \<le> i" using fold_doc_index [of decT "mv_tx unm fmtv" ms1 "(NewMVCCStore f, 0)"] s1(2) e(3) unfolding x_def by force
  let ?y = "?f ?m x"
  have y: "?y = (snd (ApplyTransaction unm fmtv muts i (fst x)), i)" using dec by (simp add: doc_next_def)
  then have "mv_ok fmtv (snd ?y) (fst ?y)" using ApplyTransaction_ok(1) [OF x xi] by (metis fst_conv prod.collapse snd_conv)
  then have "snap_Get (fst (fold ?f ms2 ?y)) i k = snap_Get (fst ?y) i k"
    using fold_docs_keep [OF _ _ s2(1) _ refl, of fmtv ?y i decT unm k] s2(2) unfolding y by simp
  moreover have "(dsStore (sReps s1 n), dsLastApplied (sReps s1 n)) = fold ?f ?ms (NewMVCCStore f, 0)"
  proof -
    have "(NewMVCCStore f, 0) = (dsStore (reps n), dsLastApplied (reps n))" using init by simp
    from rdocs.fold_rep [OF this TrueI] srun_fed [OF e(1) mkSystem_fed] show ?thesis by (metis (no_types, lifting) fed_def)
  qed
  then have "dsStore (sReps s1 n) = fst (fold ?f ms2 ?y)" unfolding split x_def by (metis (no_types, lifting) comp_apply fold_append fold_simps(2) fst_conv)
  ultimately show ?thesis using x xi y by auto
qed

text \<open>
  The locked store: a transaction whose index \<^verbatim>\<open>WaitApplied\<close> reported, in the term of its proposal, is
  among the messages from which the replica's store was computed.
\<close>

lemma lds_acked:
  assumes "distinct ps" "\<forall>p \<in> set ps. 0 \<le> p" "n \<in> set ps"
    and "srun (lds_applyLoop decT unm) ps evs (mkSystem ps ds reps) = Some s" "ldsStore (reps n) = NewLockedStore" "ldsLastApplied (reps n) = 0"
    and "lds_Propose encT n muts s = Some (Inr (i, True), s0)" "encT muts = Inr blob" "decT blob = Some muts'"
    and "lds_WaitApplied (lds_applyLoop decT unm) ps n i now timeout polls s0 = Some (Some True, s1)"
    and "fst (lds_GetState n s1) = fst (lds_GetState n s)"
  shows "\<exists>ms1 ms2. ldsStore (sReps s1 n) = fst (fold (doc_next decT (lk_tx unm)) ms2
    (snd (l_ApplyTransaction unm muts' (fst (fold (doc_next decT (lk_tx unm)) ms1 (NewLockedStore, 0)))), i))"
proof -
  let ?m = "\<lparr>amCommandValid = True, amCommand = Some (Bytes blob), amCommandIndex = i\<rparr>"
  obtain t where pp: "Propose n (Bytes blob) s = Some ((i, t, True), s0)"
    using assms(7,8) by (auto simp: lds_Propose_def split: bind_splits)
  note wait = assms(10) [unfolded lds_WaitApplied_def]
  have t: "currentTerm (cNodes (sRaft s1) n) = t"
    using Propose_run(3) [OF pp assms(3)] assms(11) by (simp add: lds_GetState_def GetState_def)
  have "?m \<in> set (take (sTaken s1 n) (cApply (sRaft s1) n))"
    using rldocs_index.acked_taken [OF assms(1-4,6) pp wait t] .
  then obtain ms1 ms2 where split: "take (sTaken s1 n) (cApply (sRaft s1) n) = ms1 @ ?m # ms2" by (metis split_list)
  obtain evs1 where e: "srun (lds_applyLoop decT unm) ps evs1 (mkSystem ps ds reps) = Some s1"
    using rldocs_index.acked_entry [OF assms(1-4,6) pp wait t] by metis
  have "(ldsStore (sReps s1 n), ldsLastApplied (sReps s1 n)) = fold (doc_next decT (lk_tx unm)) (ms1 @ ?m # ms2) (NewLockedStore, 0)"
  proof -
    have "(NewLockedStore, 0) = (ldsStore (reps n), ldsLastApplied (reps n))" using assms(5,6) by simp
    from rldocs.fold_rep [OF this TrueI] srun_fed [OF e mkSystem_fed] show ?thesis unfolding split by (metis (no_types, lifting) fed_def split)
  qed
  then have "ldsStore (sReps s1 n) = fst (fold (doc_next decT (lk_tx unm)) ms2
      (doc_next decT (lk_tx unm) ?m (fold (doc_next decT (lk_tx unm)) ms1 (NewLockedStore, 0))))"
    by (metis (no_types, lifting) comp_apply fold_append fold_simps(2) fst_conv)
  then show ?thesis using assms(9) by (auto simp: doc_next_def)
qed

subsection \<open>Front ends\<close>

text \<open>
  The contract of a front end that writes: \<open>commits muts s s1\<close> says that its call for the
  transaction was made in \<open>s\<close> and came back without an error in \<open>s1\<close>. Behind it must be a
  proposal to the leader and a \<^verbatim>\<open>WaitApplied\<close> that returned true.
\<close>

locale doc_writer =
  fixes ap :: "('k, 'v) loop" and encT :: "mutation list \<Rightarrow> 'e + bytes" and ps :: "int list" and n :: int
    and commits :: "mutation list \<Rightarrow> ('k, 'v) dsystem \<Rightarrow> ('k, 'v) dsystem \<Rightarrow> bool"
  assumes commits_acked: "commits muts s s1 \<Longrightarrow> \<exists>blob i t s0 deadline polls. encT muts = Inr blob
      \<and> Propose n (Bytes blob) s = Some ((i, t, True), s0) \<and> WaitApplied ap dsLastApplied ps n i deadline polls s0 = Some (Some True, s1)"
begin

lemma committed_at:
  assumes "ap = ds_applyLoop decT unm fmtv" "distinct ps" "\<forall>p \<in> set ps. 0 \<le> p" "n \<in> set ps"
    and "srun ap ps evs (mkSystem ps ds reps) = Some s" "dsStore (reps n) = NewMVCCStore f" "dsLastApplied (reps n) = 0"
    and "commits muts s s1" "currentTerm (cNodes (sRaft s1) n) = currentTerm (cNodes (sRaft s) n)"
    and "\<And>blob. encT muts = Inr blob \<Longrightarrow> decT blob = Some muts'"
  obtains i where "1 \<le> i" "i \<le> dsLastApplied (sReps s1 n)"
    "\<And>k. \<exists>b s'. mv_ok fmtv b s' \<and> b \<le> i \<and> snap_Get (dsStore (sReps s1 n)) i k = snap_Get (snd (ApplyTransaction unm fmtv muts' i s')) i k"
proof -
  obtain blob i t s0 deadline polls where p: "encT muts = Inr blob" "Propose n (Bytes blob) s = Some ((i, t, True), s0)"
      "WaitApplied ap dsLastApplied ps n i deadline polls s0 = Some (Some True, s1)" using commits_acked [OF assms(8)] by blast
  have t: "currentTerm (cNodes (sRaft s1) n) = t" using Propose_run(3) [OF p(2) assms(4)] assms(9) by simp
  note run = assms(5) [unfolded assms(1)] and wait = p(3) [unfolded assms(1)]
  show ?thesis
  proof (rule that [of i])
    show "1 \<le> i" "i \<le> dsLastApplied (sReps s1 n)" using rdocs_index.acked_entry [OF assms(2-4) run assms(7) p(2) wait t] by metis+
    show "\<exists>b s'. mv_ok fmtv b s' \<and> b \<le> i \<and> snap_Get (dsStore (sReps s1 n)) i k = snap_Get (snd (ApplyTransaction unm fmtv muts' i s')) i k" for k
      using acked_snapshot [OF assms(2-4) run assms(6,7) p(2) wait t assms(10) [OF p(1)]] .
  qed
qed

end

subsection \<open>Properties\<close>


text \<open>The same for the store behind one lock.\<close>

lemma locked_replicas_agree:
  assumes "distinct ps" "\<forall>p \<in> set ps. 0 \<le> p"
    and "srun (lds_applyLoop decT unm) ps evs1 (mkSystem ps ds reps) = Some s"
    and "srun (lds_applyLoop decT unm) ps evs2 s = Some s'"
    and "ldsStore (reps n) = NewLockedStore" "ldsLastApplied (reps n) = 0"
    and "ldsStore (reps m) = NewLockedStore" "ldsLastApplied (reps m) = 0"
    and "ldsLastApplied (sReps s n) = ldsLastApplied (sReps s' m)"
  shows "ldsStore (sReps s n) = ldsStore (sReps s' m)"
proof -
  let ?x = "(NewLockedStore, 0)"
  obtain ms k k' where h: "(ldsStore (sReps s n), ldsLastApplied (sReps s n)) = fold (doc_next decT (lk_tx unm)) (take k ms) ?x"
      "(ldsStore (sReps s' m), ldsLastApplied (sReps s' m)) = fold (doc_next decT (lk_tx unm)) (take k' ms) ?x"
      "take k ms = take k (cApply (sRaft s) n)" "take k' ms = take k' (cApply (sRaft s') m)"
    using rldocs.replicas_agree [OF assms(1-4), of ?x n m] assms(5-8) by (metis (no_types, lifting))
  have "snd ?x = 0" by simp
  from applied_states_agree [OF assms(1-4) this h(3,4), of decT "lk_tx unm"] h(1,2) assms(9)
  show ?thesis by (metis fst_conv snd_conv)
qed


text \<open>A cluster whose leader takes a transaction that puts the document \<open>k\<close>.\<close>

definition demo_decT :: "bytes \<Rightarrow> mutation list option" where
  "demo_decT p = (if p = [1] then Some [\<lparr>mOp = ''put'', mID = ''k'', mData = [], mExpected = None\<rparr>] else None)"

definition const_unm :: "bytes \<Rightarrow> nat document option" where
  "const_unm _ = Some (Some [(''f'', 5)])"

definition demo_fmtv :: "nat option \<Rightarrow> string" where
  "demo_fmtv v = (if v = Some 5 then ''5'' else ''nil'')"

abbreviation demo_loop :: "command ApplyMsg \<Rightarrow> (disk, nat) rdocs \<Rightarrow> (disk, nat) rdocs" where
  "demo_loop \<equiv> ds_applyLoop demo_decT const_unm demo_fmtv"

definition fresh_ds :: "(disk, nat) rdocs" where
  "fresh_ds = (case NewReplicatedDocStore ''d'' ''f'' empty_world of Inr ds \<Rightarrow> ds | Inl _ \<Rightarrow> undefined)"

definition fresh_docs :: "(command, (disk, nat) rdocs) system" where
  "fresh_docs = mkSystem demo_servers (\<lambda>_. (0, 0)) (\<lambda>_. fresh_ds)"

definition put_k :: "command sevent list" where
  "put_k = elect_0 @ [ERaft (EvStart 0 (Bytes [1]))] @ replicate_to_1"

definition docs_mid :: "(command, (disk, nat) rdocs) system" where
  "docs_mid = the (srun demo_loop demo_servers put_k fresh_docs)"

definition docs_end :: "(command, (disk, nat) rdocs) system" where
  "docs_end = the (srun demo_loop demo_servers follower_applies docs_mid)"

lemma docs_runs: "srun demo_loop demo_servers put_k fresh_docs = Some docs_mid"
  "srun demo_loop demo_servers follower_applies docs_mid = Some docs_end"
proof -
  have "srun demo_loop demo_servers put_k fresh_docs \<noteq> None" by code_simp
  then show "srun demo_loop demo_servers put_k fresh_docs = Some docs_mid" by (auto simp: docs_mid_def)
  have "srun demo_loop demo_servers follower_applies docs_mid \<noteq> None" by code_simp
  then show "srun demo_loop demo_servers follower_applies docs_mid = Some docs_end" by (auto simp: docs_end_def)
qed


text \<open>
  A replica that is opened again on its directory has its transactions in the write-ahead
  log and not in the store: the document that was there before the restart is not found.
\<close>

theorem restart_forgets_documents:
  "(let before = sReps docs_mid 0 in
    snap_Get (dsStore before) (ds_Snapshot before) ''k'' = Some (Some [(''f'', 5)])
    \<and> (case NewReplicatedDocStore ''d'' ''f'' (dsWorld before) of
         Inr after \<Rightarrow> fst (Read 0 (dsWal after, dsWorld after)) = Inr [1]
           \<and> snap_Get (dsStore after) (ds_Snapshot after) ''k'' = (None :: nat document option)
       | Inl _ \<Rightarrow> False))"
  by code_simp

end
