(* ===== verification/Tcp_Transport.thy ===== *)
theory Tcp_Transport
  imports Raft_Safety
begin

text \<open>
  The socket transport of Raft: \<^verbatim>\<open>raft/tcp_transport.go\<close>, and a cluster whose servers call each
  other through it. Sockets, TLS and \<^verbatim>\<open>net/rpc\<close> are not modelled: whether a dial succeeds
  (and with which client), whether and when a request reaches the peer, and whether its
  answer comes back in time are choices of the environment. A \<^verbatim>\<open>call\<close> takes the locks of the
  transport three times, so it is three steps of a goroutine; a call that was given up
  may still be handled by the peer. \<^const>\<open>None\<close> is a panic.
\<close>

subsection \<open>The contract of a transport\<close>

text \<open>
  What Raft needs of a transport: each step of servers that call each other through it is a
  run of the cluster over the simulated network, which may lose and delay calls but
  makes none up. Then the servers are as safe as those of that cluster.
\<close>

fun run_with :: "('e \<Rightarrow> 's \<Rightarrow> 's option) \<Rightarrow> 'e list \<Rightarrow> 's \<Rightarrow> 's option" where
  "run_with step [] s = Some s"
| "run_with step (e # es) s = do { s' \<leftarrow> step e s; run_with step es s' }"

lemma crun_append: "crun ps (xs @ ys) s = Option.bind (crun ps xs s) (crun ps ys)"
  by (induction xs arbitrary: s) (auto split: bind_splits)

locale raft_transport =
  fixes ps :: "int list" and step :: "'e \<Rightarrow> 's \<Rightarrow> 's option" and view_of :: "'s \<Rightarrow> 'c cluster" and inv :: "'s \<Rightarrow> bool" and admissible :: "'e \<Rightarrow> bool"
  assumes servers: "inv t \<Longrightarrow> distinct ps \<and> (\<forall>p \<in> set ps. 0 \<le> p)"
    and step_simulated: "inv t \<Longrightarrow> admissible e \<Longrightarrow> sim ps (view_of t) a \<Longrightarrow>
      \<exists>t' es. step e t = Some t' \<and> crun ps es (view_of t) = Some (view_of t') \<and> inv t'"
begin

lemma run_simulated:
  assumes "inv t" "list_all admissible evs" "sim ps (view_of t) a"
  shows "\<exists>t' es. run_with step evs t = Some t' \<and> crun ps es (view_of t) = Some (view_of t') \<and> inv t'"
  using assms
proof (induction evs arbitrary: t a)
  case Nil
  then show ?case by (metis crun.simps(1) run_with.simps(1))
next
  case (Cons e evs)
  have ps: "distinct ps" "\<forall>p \<in> set ps. 0 \<le> p" using servers [OF Cons.prems(1)] by blast+
  obtain t1 es where 1: "step e t = Some t1" "crun ps es (view_of t) = Some (view_of t1)" "inv t1"
    using step_simulated [OF Cons.prems(1) _ Cons.prems(3)] Cons.prems(2) by (metis list.pred_inject(2))
  obtain b where b: "sim ps (view_of t1) b" using crun_sim [OF ps Cons.prems(3), of es] 1(2) by auto
  obtain t2 es2 where 2: "run_with step evs t1 = Some t2" "crun ps es2 (view_of t1) = Some (view_of t2)" "inv t2"
    using Cons.IH [OF 1(3) _ b] Cons.prems(2) by auto
  have "crun ps (es @ es2) (view_of t) = Some (view_of t2)" using 1(2) 2(2) by (simp add: crun_append)
  then show ?case using 1(1) 2(1,3) by (metis bind.bind_lunit run_with.simps(2))
qed

text \<open>At two moments of a run: one leader per term, and comparable sequences of applied commands.\<close>

lemma run_safe:
  assumes "inv t" "list_all admissible evs" "sim ps (view_of t) a" "run_with step evs t = Some t'"
  shows "rstate (cNodes (view_of t) n) = Leader \<Longrightarrow> rstate (cNodes (view_of t') m) = Leader \<Longrightarrow>
      currentTerm (cNodes (view_of t) n) = currentTerm (cNodes (view_of t') m) \<Longrightarrow> n = m"
    and "prefix (cApply (view_of t) n) (cApply (view_of t') m) \<or> prefix (cApply (view_of t') m) (cApply (view_of t) n)"
proof -
  have ps: "distinct ps" "\<forall>p \<in> set ps. 0 \<le> p" using servers [OF assms(1)] by blast+
  obtain es where es: "crun ps es (view_of t) = Some (view_of t')" using run_simulated [OF assms(1-3)] assms(4) by auto
  obtain b where b: "(pstep (set ps))\<^sup>*\<^sup>* a b" "sim ps (view_of t') b" using crun_sim [OF ps assms(3), of es] es by auto
  have ext: "pext a b" using psteps_inv [OF b(1)] assms(3) by (auto simp: sim_def)
  show "n = m" if "rstate (cNodes (view_of t) n) = Leader" "rstate (cNodes (view_of t') m) = Leader"
      "currentTerm (cNodes (view_of t) n) = currentTerm (cNodes (view_of t') m)"
    using that sim_node(2,4) [OF assms(3), of n] sim_node(2,4) [OF b(2), of m] ext unfolding pext_def by (metis option.inject)
  have "prefix (cApply (view_of t) n) (cApply (view_of t') n)" using crun_applied_grows [OF es] by blast
  then show "prefix (cApply (view_of t) n) (cApply (view_of t') m) \<or> prefix (cApply (view_of t') m) (cApply (view_of t) n)"
    using sim_applied_comparable [OF b(2), of n m] by (meson prefix_order.trans prefix_same_cases)
qed

end

text \<open>The simulated network itself.\<close>

interpretation sim_transport: raft_transport ps "cstep ps" "\<lambda>s. s" "\<lambda>_. distinct ps \<and> (\<forall>p \<in> set ps. 0 \<le> p)" "\<lambda>_. True" for ps
proof
  show "\<exists>t' es. cstep ps e t = Some t' \<and> crun ps es t = Some t' \<and> (distinct ps \<and> (\<forall>p \<in> set ps. 0 \<le> p))"
    if s: "distinct ps \<and> (\<forall>p \<in> set ps. 0 \<le> p)" and m: "sim ps t a" for t :: "'a cluster" and e a
  proof -
    obtain t' where "cstep ps e t = Some t'" using cstep_progress [OF m] s unfolding progress_def by blast
    moreover from this have "crun ps [e] t = Some t'" by simp
    ultimately show ?thesis using s by blast
  qed
qed simp

subsection \<open>The transport\<close>

text \<open>\<^verbatim>\<open>peers\<close>: for every known id its \<^verbatim>\<open>peerConn\<close>, which caches a client or nil.\<close>

record TCPTransport =
  tpMe :: int
  tpAddrs :: "(int \<times> string) list"
  tpTimeout :: int
  tpPeers :: "int \<rightharpoonup> nat option"
  tpBlocked :: "int \<Rightarrow> bool"
  tpClosed :: "nat list"
  tpListening :: bool

definition newTCPTransport :: "int \<Rightarrow> (int \<times> string) list \<Rightarrow> TCPTransport" where
  "newTCPTransport self addrs = \<lparr>tpMe = self, tpAddrs = addrs, tpTimeout = 500 * 1000000,
     tpPeers = (\<lambda>p. if p \<in> set (map fst addrs) then Some None else None), tpBlocked = (\<lambda>_. False),
     tpClosed = [], tpListening = True\<rparr>"

definition getClient :: "nat option \<Rightarrow> int \<Rightarrow> TCPTransport \<Rightarrow> (nat option \<times> TCPTransport) option" where
  "getClient dial peer t =
     (case tpPeers t peer of
        None \<Rightarrow> None
      | Some (Some client) \<Rightarrow> Some (Some client, t)
      | Some None \<Rightarrow>
          (case dial of
             None \<Rightarrow> Some (None, t)
           | Some client \<Rightarrow> Some (Some client, t\<lparr>tpPeers := (tpPeers t)(peer \<mapsto> Some client)\<rparr>)))"

definition dropClient :: "int \<Rightarrow> TCPTransport \<Rightarrow> TCPTransport option" where
  "dropClient peer t =
     (case tpPeers t peer of
        None \<Rightarrow> None
      | Some None \<Rightarrow> Some t
      | Some (Some client) \<Rightarrow> Some (t\<lparr>tpPeers := (tpPeers t)(peer \<mapsto> None), tpClosed := client # tpClosed t\<rparr>))"

definition BlockPeer :: "int \<Rightarrow> TCPTransport \<Rightarrow> TCPTransport option" where
  "BlockPeer peer t = dropClient peer (t\<lparr>tpBlocked := (tpBlocked t)(peer := True)\<rparr>)"

definition UnblockPeer :: "int \<Rightarrow> TCPTransport \<Rightarrow> TCPTransport" where
  "UnblockPeer peer t = t\<lparr>tpBlocked := (tpBlocked t)(peer := False)\<rparr>"

text \<open>\<^verbatim>\<open>Close\<close> closes the cached clients and leaves them in the cache.\<close>

definition tp_Close :: "TCPTransport \<Rightarrow> TCPTransport" where
  "tp_Close t = t\<lparr>tpClosed := List.map_filter (\<lambda>p. Option.bind (tpPeers t p) id) (remdups (map fst (tpAddrs t))) @ tpClosed t,
     tpListening := False\<rparr>"

subsection \<open>A cluster over TCP\<close>

text \<open>
  How far a call is: before the test of \<^verbatim>\<open>blocked\<close>, before \<^verbatim>\<open>getClient\<close>, handed to \<^verbatim>\<open>client.Go\<close> (and
  whether the caller still waits), or answered.
\<close>

datatype phase = Calling | Cleared | Sent bool | Answered

record 'c tcluster =
  tNodes :: "int \<Rightarrow> 'c Raft"
  tTicker :: "int \<Rightarrow> ticker"
  tVotes :: "int \<Rightarrow> int \<Rightarrow> int"
  tWire :: "(phase \<times> 'c msg) list"
  tApply :: "int \<Rightarrow> 'c ApplyMsg list"
  tTrans :: "int \<Rightarrow> TCPTransport"
  tBound :: "int \<Rightarrow> bool"

text \<open>Every server with its transport; \<open>bound\<close> are those whose \<^verbatim>\<open>rpcService\<close> has its \<^verbatim>\<open>*Raft\<close>.\<close>

definition Make_tcp :: "int list \<Rightarrow> (int \<Rightarrow> string) \<Rightarrow> (int \<Rightarrow> bool) \<Rightarrow> (int \<Rightarrow> draw) \<Rightarrow> 'c tcluster" where
  "Make_tcp ps addr bound ds =
     \<lparr>tNodes = (\<lambda>n. newRaft (ds n) n ps), tTicker = (\<lambda>_. TkLoop), tVotes = (\<lambda>_ _. 0), tWire = [], tApply = (\<lambda>_. []),
      tTrans = (\<lambda>n. newTCPTransport n (map (\<lambda>p. (p, addr p)) ps)), tBound = bound\<rparr>"

text \<open>The servers as a cluster of \<open>Raft_Cluster\<close> with the given calls, on a network where nothing is lost.\<close>

definition full_net :: "int list \<Rightarrow> Network" where
  "full_net ps = foldl (\<lambda>nw p. AddServer p nw) MakeNetwork ps"

definition view :: "int list \<Rightarrow> (bool \<times> 'c msg) list \<Rightarrow> 'c tcluster \<Rightarrow> 'c cluster" where
  "view ps w t = \<lparr>cNodes = tNodes t, cTicker = tTicker t, cVotes = tVotes t, cWire = w, cNet = full_net ps, cApply = tApply t\<rparr>"

definition put_view :: "'c cluster \<Rightarrow> 'c tcluster \<Rightarrow> 'c tcluster" where
  "put_view s t = t\<lparr>tNodes := cNodes s, tTicker := cTicker s, tVotes := cVotes s, tApply := cApply s\<rparr>"

datatype 'c tevent =
  TLocal "'c event"
| TBind int
| TBlock int int
| TUnblock int int
| TCheck nat
| TDial nat "nat option"
| THandle nat draw draw
| TAnswer nat draw
| TFail nat

text \<open>The steps of a server that do not go through the transport; the calls they start are \<^const>\<open>Calling\<close>.\<close>

fun is_local :: "'c event \<Rightarrow> bool" where
  "is_local (EvTick _ _ _) = True"
| "is_local (EvSend _ _) = True"
| "is_local (EvStart _ _) = True"
| "is_local (EvApply _) = True"
| "is_local (EvKill _) = True"
| "is_local _ = False"

definition remove_call :: "nat \<Rightarrow> 'c tcluster \<Rightarrow> 'c tcluster" where
  "remove_call k t = t\<lparr>tWire := take k (tWire t) @ drop (Suc k) (tWire t)\<rparr>"

definition set_phase :: "nat \<Rightarrow> phase \<Rightarrow> 'c tcluster \<Rightarrow> 'c tcluster" where
  "set_phase k ph t = t\<lparr>tWire := (tWire t)[k := (ph, snd (tWire t ! k))]\<rparr>"

definition set_trans :: "int \<Rightarrow> TCPTransport \<Rightarrow> 'c tcluster \<Rightarrow> 'c tcluster" where
  "set_trans n tr t = t\<lparr>tTrans := (tTrans t)(n := tr)\<rparr>"

text \<open>\<^verbatim>\<open>rpcService\<close>'s handlers: the method of the bound \<^verbatim>\<open>*Raft\<close>; without one it is a nil dereference.\<close>

definition tcp_handle :: "int list \<Rightarrow> nat \<Rightarrow> bool \<Rightarrow> draw \<Rightarrow> draw \<Rightarrow> 'c tcluster \<Rightarrow> 'c tcluster option" where
  "tcp_handle ps k waits d1 d2 t =
     (let m = snd (tWire t ! k) in
      if \<not> tBound t (msg_callee m) then None
      else do {
        s \<leftarrow> step_handle 0 d1 d2 (view ps [(True, m)] t);
        let t' = put_view s t;
        Some (if waits then t'\<lparr>tWire := (tWire t')[k := (Answered, snd (hd (cWire s)))]\<rparr> else remove_call k t')
      })"

definition tstep :: "int list \<Rightarrow> 'c tevent \<Rightarrow> 'c tcluster \<Rightarrow> 'c tcluster option" where
  "tstep ps ev t =
     (case ev of
        TLocal e \<Rightarrow>
          if is_local e then do {
            s \<leftarrow> cstep ps e (view ps [] t);
            let t' = put_view s t;
            Some (t'\<lparr>tWire := tWire t' @ map (\<lambda>x. (Calling, snd x)) (cWire s)\<rparr>)
          }
          else Some t
      | TBind n \<Rightarrow> Some (t\<lparr>tBound := (tBound t)(n := True)\<rparr>)
      | TBlock n p \<Rightarrow> do { tr \<leftarrow> BlockPeer p (tTrans t n); Some (set_trans n tr t) }
      | TUnblock n p \<Rightarrow> Some (set_trans n (UnblockPeer p (tTrans t n)) t)
      | TCheck k \<Rightarrow>
          if k < length (tWire t) \<and> fst (tWire t ! k) = Calling then
            (let m = snd (tWire t ! k) in
             if tpBlocked (tTrans t (msg_caller m)) (msg_callee m) then Some (remove_call k t) else Some (set_phase k Cleared t))
          else Some t
      | TDial k dial \<Rightarrow>
          if k < length (tWire t) \<and> fst (tWire t ! k) = Cleared then do {
            let m = snd (tWire t ! k);
            (client, tr) \<leftarrow> getClient dial (msg_callee m) (tTrans t (msg_caller m));
            let t' = set_trans (msg_caller m) tr t;
            Some (if client = None then remove_call k t' else set_phase k (Sent True) t')
          }
          else Some t
      | THandle k d1 d2 \<Rightarrow>
          if k < length (tWire t) then
            (case fst (tWire t ! k) of Sent waits \<Rightarrow> tcp_handle ps k waits d1 d2 t | _ \<Rightarrow> Some t)
          else Some t
      | TAnswer k d \<Rightarrow>
          if k < length (tWire t) \<and> fst (tWire t ! k) = Answered then do {
            s \<leftarrow> step_reply 0 d (view ps [(True, snd (tWire t ! k))] t);
            Some (remove_call k (put_view s t))
          }
          else Some t
      | TFail k \<Rightarrow>
          if k < length (tWire t) \<and> (fst (tWire t ! k) = Sent True \<or> fst (tWire t ! k) = Answered) then do {
            let m = snd (tWire t ! k);
            tr \<leftarrow> dropClient (msg_callee m) (tTrans t (msg_caller m));
            let t' = set_trans (msg_caller m) tr t;
            Some (if fst (tWire t ! k) = Answered then remove_call k t' else set_phase k (Sent False) t')
          }
          else Some t)"

fun trun :: "int list \<Rightarrow> 'c tevent list \<Rightarrow> 'c tcluster \<Rightarrow> 'c tcluster option" where
  "trun ps [] t = Some t"
| "trun ps (ev # evs) t = do { t' \<leftarrow> tstep ps ev t; trun ps evs t' }"


subsection \<open>Refinement of the simulated cluster\<close>

text \<open>A call over TCP, whatever its phase, is a call that the network has yet to admit or return.\<close>

abbreviation pending :: "(phase \<times> 'c msg) list \<Rightarrow> (bool \<times> 'c msg) list" where
  "pending w \<equiv> map (\<lambda>x. (False, snd x)) w"

definition abs_tcp :: "int list \<Rightarrow> 'c tcluster \<Rightarrow> 'c cluster" where
  "abs_tcp ps t = view ps (pending (tWire t)) t"

lemma view_simps [simp]:
  "cNodes (view ps w t) = tNodes t" "cTicker (view ps w t) = tTicker t" "cVotes (view ps w t) = tVotes t"
  "cWire (view ps w t) = w" "cNet (view ps w t) = full_net ps" "cApply (view ps w t) = tApply t"
  "(view ps w t)\<lparr>cWire := w'\<rparr> = view ps w' t"
  by (simp_all add: view_def)

lemma put_view_simps [simp]:
  "tWire (put_view s t) = tWire t" "tTrans (put_view s t) = tTrans t" "tBound (put_view s t) = tBound t"
  by (simp_all add: put_view_def)

lemma view_put_view: "cNet s = full_net ps \<Longrightarrow> view ps w (put_view s t) = s\<lparr>cWire := w\<rparr>"
  by (cases s) (simp add: view_def put_view_def)

lemma view_cong [simp]:
  "view ps w (t\<lparr>tWire := x\<rparr>) = view ps w t" "view ps w (set_trans n tr t) = view ps w t" "view ps w (t\<lparr>tBound := b\<rparr>) = view ps w t"
  "view ps w (remove_call k t) = view ps w t" "view ps w (set_phase k ph t) = view ps w t"
  by (simp_all add: view_def set_trans_def remove_call_def set_phase_def)

lemma full_net_up:
  "connected (full_net ps) p \<longleftrightarrow> p \<in> set ps" "registered (full_net ps) p \<longleftrightarrow> p \<in> set ps" "reliable (full_net ps)"
proof -
  have "connected (foldl (\<lambda>nw p. AddServer p nw) nw ps) p \<longleftrightarrow> connected nw p \<or> p \<in> set ps"
    "registered (foldl (\<lambda>nw p. AddServer p nw) nw ps) p \<longleftrightarrow> registered nw p \<or> p \<in> set ps"
    "reliable (foldl (\<lambda>nw p. AddServer p nw) nw ps) \<longleftrightarrow> reliable nw" for nw
    by (induction ps arbitrary: nw) (auto simp: AddServer_def)
  then show "connected (full_net ps) p \<longleftrightarrow> p \<in> set ps" "registered (full_net ps) p \<longleftrightarrow> p \<in> set ps" "reliable (full_net ps)"
    by (auto simp: full_net_def MakeNetwork_def)
qed

lemma reconnect: "c \<in> set ps \<Longrightarrow> Connect c (Disconnect c (full_net ps)) = full_net ps"
proof -
  assume "c \<in> set ps"
  then have "connected (full_net ps) c" by (simp add: full_net_up)
  then have "(connected (full_net ps))(c := True) = connected (full_net ps)" by (simp add: fun_upd_idem)
  then show ?thesis by (cases "full_net ps") (simp add: Connect_def Disconnect_def)
qed

text \<open>The two ways to lose a call.\<close>

lemma lose_call:
  assumes "k < length w" "msg_caller (snd (w ! k)) \<in> set ps" "\<not> fst (w ! k)"
  shows "\<exists>es. crun ps es (view ps w t) = Some (view ps (take k w @ drop (Suc k) w) t)"
proof -
  let ?c = "msg_caller (snd (w ! k))"
  have n: "\<not> connected (Disconnect ?c nw) ?c" for nw by (simp add: Disconnect_def)
  have v: "(view ps w t)\<lparr>cNet := Disconnect ?c (full_net ps), cWire := w', cNet := Connect ?c (Disconnect ?c (full_net ps))\<rparr> = view ps w' t" for w'
    unfolding reconnect [OF assms(2)] by (simp add: view_def)
  have "crun ps [EvDisconnect ?c, if is_request (snd (w ! k)) then EvAdmit k 0 else EvReturn k, EvConnect ?c] (view ps w t)
      = Some (view ps (take k w @ drop (Suc k) w) t)"
    using assms n v [of "take k w @ drop (Suc k) w"]
    by (cases "is_request (snd (w ! k))") (simp_all add: step_admit_def step_return_def Call_admit_def Call_return_def drop_call_def Let_def)
  then show ?thesis by blast
qed

lemma admit_call:
  assumes "k < length w" "msg_caller (snd (w ! k)) \<in> set ps" "msg_callee (snd (w ! k)) \<in> set ps" "\<not> fst (w ! k)"
  shows "is_request (snd (w ! k)) \<Longrightarrow> cstep ps (EvAdmit k 0) (view ps w t) = Some (view ps (w[k := (True, snd (w ! k))]) t)"
    and "\<not> is_request (snd (w ! k)) \<Longrightarrow> cstep ps (EvReturn k) (view ps w t) = Some (view ps (w[k := (True, snd (w ! k))]) t)"
  using assms by (simp_all add: step_admit_def step_return_def Call_admit_def Call_return_def full_net_up Let_def)

text \<open>A step on one call, or on none, is the same step beside other calls.\<close>

lemma handle_at:
  assumes "k < length w" "w ! k = (True, m)" "step_handle 0 d1 d2 (s\<lparr>cWire := [(True, m)]\<rparr>) = Some s'"
  shows "step_handle k d1 d2 (s\<lparr>cWire := w\<rparr>) = Some (s'\<lparr>cWire := w[k := hd (cWire s')]\<rparr>)"
    and "is_request m \<Longrightarrow> \<not> fst (hd (cWire s')) \<and> \<not> is_request (snd (hd (cWire s'))) \<and> msg_caller (snd (hd (cWire s'))) = msg_caller m
      \<and> msg_callee (snd (hd (cWire s'))) = msg_callee m"
    and "cNet s' = cNet s"
  using assms by (cases m; auto simp: step_handle_def set_node_def split: bind_splits; metis list_update_id)+

lemma reply_at:
  assumes "k < length w" "w ! k = (True, m)" "\<not> is_request m" "step_reply 0 d (s\<lparr>cWire := [(True, m)]\<rparr>) = Some s'"
  shows "step_reply k d (s\<lparr>cWire := w\<rparr>) = Some (s'\<lparr>cWire := take k w @ drop (Suc k) w\<rparr>)" "cNet s' = cNet s"
  using assms by (cases m; auto simp: step_reply_def set_node_def drop_call_def split: bind_splits)+

lemma local_at:
  assumes "is_local e" "cstep ps e (s\<lparr>cWire := []\<rparr>) = Some s'"
  shows "cstep ps e (s\<lparr>cWire := w\<rparr>) = Some (s'\<lparr>cWire := w @ cWire s'\<rparr>)" "cNet s' = cNet s" "\<forall>x \<in> set (cWire s'). \<not> fst x \<and> is_request (snd x) \<and> msg_caller (snd x) \<in> set ps"
proof (goal_cases)
  case 1
  show ?case using assms by (cases e) (auto simp: step_tick_def step_send_def step_start_def step_apply_def set_node_def split: ticker.splits bind_splits option.splits if_splits)
next
  case 2
  show ?case using assms by (cases e) (auto simp: step_tick_def step_send_def step_start_def step_apply_def set_node_def split: ticker.splits bind_splits option.splits if_splits)
next
  case 3
  show ?case using assms by (cases e) (auto simp: step_tick_def step_send_def step_start_def step_apply_def set_node_def split: ticker.splits bind_splits option.splits if_splits)
qed


lemma sim_subwire:
  assumes "sim ps (view ps w t) a" "snd ` set w' \<subseteq> snd ` set w" "length w' \<le> 1"
  shows "sim ps (view ps w' t) a"
proof (rule sim_local [OF assms(1)])
  have v: "votes_ok a (view ps w t)" using assms(1) by (simp add: sim_def)
  have "set (vote_keys w') \<subseteq> set (vote_keys w)" using assms(2) by (force simp: vote_keys_def)
  moreover have "distinct (vote_key m)" for m :: "'a msg" by (cases m) simp_all
  then have "distinct (vote_keys w')" using assms(3) by (cases w') (simp_all add: vote_keys_def)
  ultimately show "votes_ok a (view ps w' t)" using v unfolding votes_ok_def by auto
qed (use assms(2) in simp_all)

definition tcp_inv :: "int list \<Rightarrow> 'c tcluster \<Rightarrow> bool" where
  "tcp_inv ps t \<longleftrightarrow> (\<forall>x \<in> set (tWire t). msg_caller (snd x) \<in> set ps \<and> msg_callee (snd x) \<in> set ps \<and> (fst x = Answered \<longleftrightarrow> \<not> is_request (snd x)))
     \<and> (\<forall>n. \<forall>p \<in> set ps. tpPeers (tTrans t n) p \<noteq> None) \<and> (\<forall>p \<in> set ps. tBound t p)"

lemma tcp_inv_wire:
  assumes "tcp_inv ps t" "k < length (tWire t)"
  shows "msg_caller (snd (tWire t ! k)) \<in> set ps" "msg_callee (snd (tWire t ! k)) \<in> set ps"
    "fst (tWire t ! k) = Answered \<longleftrightarrow> \<not> is_request (snd (tWire t ! k))"
  using assms nth_mem [OF assms(2)] unfolding tcp_inv_def by blast+

lemma tcp_inv_simps:
  "tcp_inv ps t \<Longrightarrow> tcp_inv ps (remove_call k t)"
  "tcp_inv ps t \<Longrightarrow> k < length (tWire t) \<Longrightarrow> is_request (snd (tWire t ! k)) \<Longrightarrow> ph \<noteq> Answered \<Longrightarrow> tcp_inv ps (set_phase k ph t)"
  "tcp_inv ps t \<Longrightarrow> \<forall>p \<in> set ps. tpPeers tr p \<noteq> None \<Longrightarrow> tcp_inv ps (set_trans n tr t)"
  "tcp_inv ps t \<Longrightarrow> tcp_inv ps (put_view s t)"
proof -
  show "tcp_inv ps (set_phase k ph t)" if inv: "tcp_inv ps t" and k: "k < length (tWire t)" "is_request (snd (tWire t ! k))" "ph \<noteq> Answered"
  proof -
    have "msg_caller (snd x) \<in> set ps \<and> msg_callee (snd x) \<in> set ps \<and> (fst x = Answered \<longleftrightarrow> \<not> is_request (snd x))"
      if "x \<in> set (tWire (set_phase k ph t))" for x
      using that tcp_inv_wire [OF inv k(1)] k inv set_update_subset_insert [of "tWire t" k]
      by (auto simp: set_phase_def tcp_inv_def dest!: subsetD [OF set_update_subset_insert])
    then show ?thesis using inv by (simp add: tcp_inv_def set_phase_def)
  qed
qed (auto simp: tcp_inv_def remove_call_def set_trans_def dest: in_set_takeD in_set_dropD)

lemma dropClient_keeps:
  assumes "dropClient p t = Some t'"
  shows "tpPeers t' q = None \<longleftrightarrow> tpPeers t q = None" "q \<noteq> p \<Longrightarrow> tpPeers t' q = tpPeers t q" "tpPeers t' p = Some None" "tpBlocked t' = tpBlocked t"
  using assms by (auto simp: dropClient_def split: option.splits if_splits)

lemma getClient_keeps:
  assumes "getClient dial p t = Some (c, t')"
  shows "tpPeers t' q = None \<longleftrightarrow> tpPeers t q = None" "q \<noteq> p \<Longrightarrow> tpPeers t' q = tpPeers t q" "tpBlocked t' = tpBlocked t"
  using assms by (auto simp: getClient_def split: option.splits if_splits)

lemma client_total:
  assumes "tpPeers t p \<noteq> None"
  shows "\<exists>t'. dropClient p t = Some t'" "\<exists>c t'. getClient dial p t = Some (c, t')"
  using assms by (auto simp: dropClient_def getClient_def split: option.splits)

lemma abs_tcp_simps [simp]:
  "abs_tcp ps (set_trans n tr t) = abs_tcp ps t" "abs_tcp ps (t\<lparr>tBound := b\<rparr>) = abs_tcp ps t"
  by (simp_all add: abs_tcp_def set_trans_def view_def)

lemma abs_set_phase: "k < length (tWire t) \<Longrightarrow> abs_tcp ps (set_phase k ph t) = abs_tcp ps t"
proof -
  assume k: "k < length (tWire t)"
  then have "pending ((tWire t)[k := (ph, snd (tWire t ! k))]) = pending (tWire t)"
    by (intro nth_equalityI) (auto simp: nth_list_update)
  then show ?thesis by (simp add: abs_tcp_def set_phase_def view_def)
qed

lemma abs_remove:
  "abs_tcp ps (remove_call k t) = view ps (take k (pending (tWire t)) @ drop (Suc k) (pending (tWire t))) t"
  by (simp add: abs_tcp_def) (simp add: remove_call_def take_map drop_map)

definition simulated :: "int list \<Rightarrow> 'c tcluster \<Rightarrow> 'c tcluster option \<Rightarrow> bool" where
  "simulated ps t r \<longleftrightarrow> (\<exists>t' es. r = Some t' \<and> crun ps es (abs_tcp ps t) = Some (abs_tcp ps t') \<and> tcp_inv ps t')"

lemma simulated_same: "tcp_inv ps t' \<Longrightarrow> abs_tcp ps t' = abs_tcp ps t \<Longrightarrow> simulated ps t (Some t')"
  unfolding simulated_def using crun.simps(1) by metis

lemma simulated_lost:
  assumes "tcp_inv ps t" "k < length (tWire t)" "tcp_inv ps t'" "tWire t' = tWire t" "abs_tcp ps t' = abs_tcp ps t"
  shows "simulated ps t (Some (remove_call k t'))"
proof -
  have "\<exists>es. crun ps es (view ps (pending (tWire t')) t') = Some (view ps (take k (pending (tWire t')) @ drop (Suc k) (pending (tWire t'))) t')"
    using assms(2,4) tcp_inv_wire(1) [OF assms(1,2)] by (intro lose_call) simp_all
  then show ?thesis using tcp_inv_simps(1) [OF assms(3)] assms(5) unfolding simulated_def abs_remove [symmetric] by (metis abs_tcp_def)
qed

lemma local_simulated:
  assumes sim: "sim ps (abs_tcp ps t) a" and ps: "distinct ps" "\<forall>p \<in> set ps. 0 \<le> p" and inv: "tcp_inv ps t" and e: "is_local e"
  shows "simulated ps t (tstep ps (TLocal e) t)"
proof -
  let ?w = "pending (tWire t)"
  have "sim ps (view ps [] t) a" using sim_subwire [of ps ?w t a "[]"] sim by (simp add: abs_tcp_def)
  then obtain s where s: "cstep ps e (view ps [] t) = Some s" using cstep_progress ps by (metis progress_def)
  have s0: "cstep ps e ((view ps [] t)\<lparr>cWire := []\<rparr>) = Some s" using s by simp
  note at = local_at [OF e s0]
  have c: "cstep ps e (abs_tcp ps t) = Some (s\<lparr>cWire := ?w @ cWire s\<rparr>)" using at(1) [of ?w] by (simp add: abs_tcp_def)
  define t' where "t' = (put_view s t)\<lparr>tWire := tWire t @ map (\<lambda>x. (Calling, snd x)) (cWire s)\<rparr>"
  have w: "pending (tWire t') = ?w @ cWire s"
    using at(3) by (auto simp: t'_def intro!: map_idI)
  have "abs_tcp ps t' = s\<lparr>cWire := ?w @ cWire s\<rparr>"
    unfolding abs_tcp_def w unfolding t'_def using at(2) by (simp add: view_put_view)
  then have run: "crun ps [e] (abs_tcp ps t) = Some (abs_tcp ps t')" using c by simp
  obtain b where b: "sim ps (abs_tcp ps t') b" using crun_sim [OF ps sim, of "[e]"] run by auto
  have callee: "msg_callee (snd x) \<in> set ps" if "x \<in> set (cWire s)" for x
  proof -
    have "x \<in> set (cWire (abs_tcp ps t'))" using that w by (simp add: abs_tcp_def)
    then have "msg_ok ps b (snd x)" using b by (simp add: sim_def)
    then show ?thesis using at(3) that by (cases "snd x") auto
  qed
  have "tcp_inv ps t'" using inv at(3) callee unfolding tcp_inv_def t'_def by auto
  moreover have "tstep ps (TLocal e) t = Some t'" using e s by (simp add: tstep_def t'_def)
  ultimately show ?thesis using run unfolding simulated_def by metis
qed

lemma handle_simulated:
  assumes sim: "sim ps (abs_tcp ps t) a" and ps: "distinct ps" "\<forall>p \<in> set ps. 0 \<le> p" and inv: "tcp_inv ps t"
    and k: "k < length (tWire t)" "fst (tWire t ! k) = Sent waits"
  shows "simulated ps t (tcp_handle ps k waits d1 d2 t)"
proof -
  let ?w = "pending (tWire t)" and ?m = "snd (tWire t ! k)"
  note mk = tcp_inv_wire [OF inv k(1)]
  have m: "is_request ?m" "tBound t (msg_callee ?m)" using mk inv k(2) by (auto simp: tcp_inv_def)
  have "sim ps (view ps [(True, ?m)] t) a"
    using sim_subwire [of ps ?w t a "[(True, ?m)]"] sim k(1) by (force simp: abs_tcp_def)
  then obtain s where s: "step_handle 0 d1 d2 (view ps [(True, ?m)] t) = Some s"
    using cstep_progress [OF _ ps, of _ a "EvHandle 0 d1 d2"] unfolding progress_def by (metis cstep.simps(4))
  let ?w1 = "?w[k := (True, ?m)]" and ?r = "snd (hd (cWire s))"
  have s0: "step_handle 0 d1 d2 ((view ps [] t)\<lparr>cWire := [(True, ?m)]\<rparr>) = Some s" using s by simp
  have k1: "k < length ?w1" "?w1 ! k = (True, ?m)" using k by simp_all
  note at = handle_at [OF k1 s0]
  have "cstep ps (EvAdmit k 0) (abs_tcp ps t) = Some (view ps ?w1 t)"
    unfolding abs_tcp_def using admit_call(1) [of k ?w ps t] k mk m by simp
  moreover have h: "hd (cWire s) = (False, ?r)" using at(2) m(1) by (metis prod.collapse)
  ultimately have run: "crun ps [EvAdmit k 0, EvHandle k d1 d2] (abs_tcp ps t) = Some (view ps (?w[k := (False, ?r)]) (put_view s t))"
    using at(1,3) by (simp add: view_put_view)
  define t1 where "t1 = (put_view s t)\<lparr>tWire := (tWire t)[k := (Answered, ?r)]\<rparr>"
  have "pending (tWire t1) = ?w[k := (False, ?r)]" by (simp add: t1_def map_update)
  then have abs: "abs_tcp ps t1 = view ps (?w[k := (False, ?r)]) (put_view s t)" unfolding abs_tcp_def by (simp add: t1_def)
  have "tcp_inv ps t1" using inv at(2) [OF m(1)] mk unfolding tcp_inv_def t1_def
    by (auto dest!: subsetD [OF set_update_subset_insert])
  then have one: "simulated ps t (Some t1)" unfolding simulated_def using run abs by metis
  have "simulated ps t (Some (remove_call k t1))"
  proof -
    have "simulated ps t1 (Some (remove_call k t1))" using \<open>tcp_inv ps t1\<close> k by (intro simulated_lost) (simp_all add: t1_def)
    then show ?thesis using one crun_append unfolding simulated_def by (metis bind.bind_lunit option.inject)
  qed
  moreover have "remove_call k t1 = remove_call k (put_view s t)" using k by (simp add: t1_def remove_call_def)
  ultimately show ?thesis using one s m(2) by (simp add: tcp_handle_def Let_def t1_def)
qed

lemma answer_simulated:
  assumes sim: "sim ps (abs_tcp ps t) a" and ps: "distinct ps" "\<forall>p \<in> set ps. 0 \<le> p" and inv: "tcp_inv ps t"
    and k: "k < length (tWire t)" "fst (tWire t ! k) = Answered"
  shows "simulated ps t (tstep ps (TAnswer k d) t)"
proof -
  let ?w = "pending (tWire t)" and ?m = "snd (tWire t ! k)"
  note mk = tcp_inv_wire [OF inv k(1)]
  have m: "\<not> is_request ?m" using mk k(2) by auto
  have "sim ps (view ps [(True, ?m)] t) a"
    using sim_subwire [of ps ?w t a "[(True, ?m)]"] sim k(1) by (force simp: abs_tcp_def)
  then obtain s where s: "step_reply 0 d (view ps [(True, ?m)] t) = Some s"
    using cstep_progress [OF _ ps, of _ a "EvReply 0 d"] unfolding progress_def by (metis cstep.simps(6))
  let ?w1 = "?w[k := (True, ?m)]"
  have s0: "step_reply 0 d ((view ps [] t)\<lparr>cWire := [(True, ?m)]\<rparr>) = Some s" using s by simp
  have k1: "k < length ?w1" "?w1 ! k = (True, ?m)" using k by simp_all
  note at = reply_at [OF k1 m s0]
  have "cstep ps (EvReturn k) (abs_tcp ps t) = Some (view ps ?w1 t)"
    unfolding abs_tcp_def using admit_call(2) [of k ?w ps t] k mk m by simp
  then have run: "crun ps [EvReturn k, EvReply k d] (abs_tcp ps t) = Some (view ps (take k ?w @ drop (Suc k) ?w) (put_view s t))"
    using at k(1) by (simp add: view_put_view)
  have "abs_tcp ps (remove_call k (put_view s t)) = view ps (take k ?w @ drop (Suc k) ?w) (put_view s t)" using abs_remove [of ps k "put_view s t"] by simp
  moreover have "tstep ps (TAnswer k d) t = Some (remove_call k (put_view s t))" using s k by (simp add: tstep_def)
  ultimately show ?thesis using run tcp_inv_simps(1,4) [OF tcp_inv_simps(4) [OF inv]] tcp_inv_simps(1) [OF tcp_inv_simps(4) [OF inv]]
    unfolding simulated_def by metis
qed


text \<open>\<^verbatim>\<open>BlockPeer\<close> is only called for a known peer.\<close>

fun known_block :: "int list \<Rightarrow> 'c tevent \<Rightarrow> bool" where
  "known_block ps (TBlock n p) \<longleftrightarrow> p \<in> set ps"
| "known_block ps _ \<longleftrightarrow> True"

text \<open>A step on a call that also changes the transport of its caller.\<close>

lemma trans_simulated:
  assumes inv: "tcp_inv ps t" and k: "k < length (tWire t)"
    and keeps: "\<And>q. tpPeers tr q = None \<longleftrightarrow> tpPeers (tTrans t n) q = None"
  shows "simulated ps t (Some (remove_call k (set_trans n tr t)))"
    and "is_request (snd (tWire t ! k)) \<Longrightarrow> ph \<noteq> Answered \<Longrightarrow> simulated ps t (Some (set_phase k ph (set_trans n tr t)))"
proof -
  let ?t = "set_trans n tr t"
  have i: "tcp_inv ps ?t" using inv keeps by (intro tcp_inv_simps(3)) (auto simp: tcp_inv_def)
  have w: "tWire ?t = tWire t" by (simp add: set_trans_def)
  show "simulated ps t (Some (remove_call k ?t))" using k w i by (intro simulated_lost [OF inv]) simp_all
  show "simulated ps t (Some (set_phase k ph ?t))" if "is_request (snd (tWire t ! k))" "ph \<noteq> Answered"
    using k w that by (intro simulated_same tcp_inv_simps(2) [OF i]) (simp_all add: abs_set_phase)
qed

lemma dial_simulated:
  assumes inv: "tcp_inv ps t"
  shows "simulated ps t (tstep ps (TDial k dial) t)"
proof (cases "k < length (tWire t) \<and> fst (tWire t ! k) = Cleared")
  case True
  let ?m = "snd (tWire t ! k)"
  have "tpPeers (tTrans t (msg_caller ?m)) (msg_callee ?m) \<noteq> None"
    using tcp_inv_wire(2) [OF inv] True inv by (simp add: tcp_inv_def)
  then obtain c tr where c: "getClient dial (msg_callee ?m) (tTrans t (msg_caller ?m)) = Some (c, tr)"
    using client_total(2) by metis
  have "is_request ?m" using tcp_inv_wire(3) [OF inv, of k] True by auto
  then show ?thesis using trans_simulated [OF inv _ getClient_keeps(1) [OF c], of k] True c by (simp add: tstep_def Let_def)
qed (use simulated_same [OF inv] in \<open>auto simp: tstep_def\<close>)

lemma fail_simulated:
  assumes inv: "tcp_inv ps t"
  shows "simulated ps t (tstep ps (TFail k) t)"
proof (cases "k < length (tWire t) \<and> (fst (tWire t ! k) = Sent True \<or> fst (tWire t ! k) = Answered)")
  case True
  let ?m = "snd (tWire t ! k)"
  have "tpPeers (tTrans t (msg_caller ?m)) (msg_callee ?m) \<noteq> None"
    using tcp_inv_wire(2) [OF inv] True inv by (simp add: tcp_inv_def)
  then obtain tr where c: "dropClient (msg_callee ?m) (tTrans t (msg_caller ?m)) = Some tr" using client_total(1) by metis
  have "fst (tWire t ! k) = Answered \<longleftrightarrow> \<not> is_request ?m" using tcp_inv_wire(3) [OF inv, of k] True by blast
  then show ?thesis using trans_simulated [OF inv _ dropClient_keeps(1) [OF c], of k] True c by (auto simp: tstep_def Let_def)
qed (use simulated_same [OF inv] in \<open>auto simp: tstep_def\<close>)

lemma block_simulated:
  assumes inv: "tcp_inv ps t" and p: "p \<in> set ps"
  shows "simulated ps t (tstep ps (TBlock n p) t)"
proof -
  let ?tr = "(tTrans t n)\<lparr>tpBlocked := (tpBlocked (tTrans t n))(p := True)\<rparr>"
  have known: "\<forall>p \<in> set ps. tpPeers ?tr p \<noteq> None" using inv by (simp add: tcp_inv_def)
  then obtain tr where tr: "dropClient p ?tr = Some tr" using client_total(1) p by metis
  then have "tcp_inv ps (set_trans n tr t)" using known dropClient_keeps(1) [OF tr] by (intro tcp_inv_simps(3) [OF inv]) blast
  then show ?thesis using tr by (simp add: tstep_def BlockPeer_def simulated_same)
qed

lemma tstep_simulated:
  assumes sim: "sim ps (abs_tcp ps t) a" and ps: "distinct ps" "\<forall>p \<in> set ps. 0 \<le> p" and inv: "tcp_inv ps t" and kb: "known_block ps ev"
  shows "simulated ps t (tstep ps ev t)"
proof (cases ev)
  case (TLocal e)
  then show ?thesis using local_simulated [OF sim ps inv] simulated_same [OF inv] by (cases "is_local e") (auto simp: tstep_def)
next
  case (TBind n)
  have "tcp_inv ps (t\<lparr>tBound := (tBound t)(n := True)\<rparr>)" using inv by (simp add: tcp_inv_def)
  then show ?thesis using TBind by (simp add: tstep_def simulated_same)
next
  case (TUnblock n p)
  have "tcp_inv ps (set_trans n (UnblockPeer p (tTrans t n)) t)"
    using inv by (intro tcp_inv_simps(3)) (simp_all add: UnblockPeer_def tcp_inv_def)
  then show ?thesis using TUnblock by (simp add: tstep_def simulated_same)
next
  case (TCheck k)
  then show ?thesis using tcp_inv_wire(3) [OF inv, of k] simulated_lost [OF inv _ inv refl refl, of k]
      simulated_same [OF inv refl] simulated_same [OF tcp_inv_simps(2) [OF inv] abs_set_phase]
    by (auto simp: tstep_def Let_def)
next
  case (THandle k d1 d2)
  then show ?thesis using handle_simulated [OF sim ps inv, of k] simulated_same [OF inv] by (auto simp: tstep_def split: phase.splits)
next
  case (TAnswer k d)
  then show ?thesis using answer_simulated [OF sim ps inv, of k d] simulated_same [OF inv]
    by (cases "k < length (tWire t) \<and> fst (tWire t ! k) = Answered") (auto simp: tstep_def)
qed (use kb block_simulated [OF inv] dial_simulated [OF inv] fail_simulated [OF inv] in simp_all)

interpretation tcp_transport: raft_transport ps "tstep ps" "abs_tcp ps"
  "\<lambda>t. distinct ps \<and> (\<forall>p \<in> set ps. 0 \<le> p) \<and> tcp_inv ps t" "known_block ps" for ps
proof
  show "\<exists>t' es. tstep ps e t = Some t' \<and> crun ps es (abs_tcp ps t) = Some (abs_tcp ps t') \<and> (distinct ps \<and> (\<forall>p \<in> set ps. 0 \<le> p) \<and> tcp_inv ps t')"
    if "distinct ps \<and> (\<forall>p \<in> set ps. 0 \<le> p) \<and> tcp_inv ps t" "known_block ps e" "sim ps (abs_tcp ps t) a" for t :: "'a tcluster" and e a
    using tstep_simulated [OF that(3) _ _ _ that(2)] that(1) unfolding simulated_def by blast
qed simp

lemma trun_run_with: "trun ps evs t = run_with (tstep ps) evs t"
proof (induction evs arbitrary: t)
  case (Cons e evs)
  then show ?case by (cases "tstep ps e t") simp_all
qed simp

lemma Make_tcp_abs: "abs_tcp ps (Make_tcp ps addr bound ds) = Make_cluster ps ds"
  by (simp add: abs_tcp_def view_def Make_tcp_def Make_cluster_def full_net_def)

lemma Make_tcp_inv: "\<forall>p \<in> set ps. bound p \<Longrightarrow> tcp_inv ps (Make_tcp ps addr bound ds)"
  by (auto simp: tcp_inv_def Make_tcp_def newTCPTransport_def)

subsection \<open>Properties\<close>

text \<open>
  C7: A cluster over TCP whose services are bound, under any schedule, dial failures, lost
  and late messages, timeouts and blocked peers: no server panics, and the servers are
  in a state that a cluster over the simulated network reaches. So every safety
  property of the latter holds of the former.
\<close>

theorem tcp_refines_cluster:
  assumes "distinct ps" "\<forall>p \<in> set ps. 0 \<le> p" "list_all (known_block ps) evs" "\<forall>p \<in> set ps. bound p"
  shows "\<exists>t es. trun ps evs (Make_tcp ps addr bound ds) = Some t \<and> crun ps es (Make_cluster ps ds) = Some (abs_tcp ps t)
    \<and> tNodes t = cNodes (abs_tcp ps t) \<and> tApply t = cApply (abs_tcp ps t)"
proof -
  have s: "sim ps (abs_tcp ps (Make_tcp ps addr bound ds)) pinit" unfolding Make_tcp_abs by (rule sim_init)
  have i: "distinct ps \<and> (\<forall>p \<in> set ps. 0 \<le> p) \<and> tcp_inv ps (Make_tcp ps addr bound ds)"
    using assms(1,2) Make_tcp_inv [OF assms(4)] by blast
  from tcp_transport.run_simulated [OF i assms(3) s] show ?thesis unfolding trun_run_with Make_tcp_abs by (auto simp: abs_tcp_def)
qed

text \<open>
  Server 0 of three calls the others; the dial to 2 fails, and 0 is elected with the vote
  of 1. Its first AppendEntries uses the client that is already there.
\<close>

definition tcp_election :: "nat tevent list" where
  "tcp_election = map TLocal [EvTick 0 0 (0, 0), EvTick 0 700000000 (0, 0), EvTick 0 700000000 (700000000, 0)]
     @ [TCheck 0, TDial 0 (Some 7), TCheck 1, TDial 1 None, THandle 0 (0, 0) (0, 0), TAnswer 0 (0, 0),
        TLocal (EvStart 0 5), TLocal (EvSend 0 1), TCheck 0, TDial 0 None]"

theorem tcp_refines_cluster_witness:
  "\<exists>t es. trun [0, 1, 2] tcp_election (Make_tcp [0, 1, 2] (\<lambda>_. '''') (\<lambda>_. True) (\<lambda>_. (0, 0))) = Some t
    \<and> crun [0, 1, 2] es (Make_cluster [0, 1, 2] (\<lambda>_. (0, 0))) = Some (abs_tcp [0, 1, 2] t)
    \<and> rstate (tNodes t 0) = Leader \<and> tpPeers (tTrans t 0) 1 = Some (Some 7) \<and> tpPeers (tTrans t 0) 2 = Some None"
proof -
  let ?r = "trun [0, 1, 2] tcp_election (Make_tcp [0, 1, 2] (\<lambda>_. '''') (\<lambda>_. True) (\<lambda>_. (0, 0)))"
  have "\<exists>t es. ?r = Some t \<and> crun [0, 1, 2] es (Make_cluster [0, 1, 2] (\<lambda>_. (0, 0))) = Some (abs_tcp [0, 1, 2] t)
      \<and> tNodes t = cNodes (abs_tcp [0, 1, 2] t) \<and> tApply t = cApply (abs_tcp [0, 1, 2] t)"
    by (rule tcp_refines_cluster) (simp_all add: tcp_election_def)
  moreover have "map_option (\<lambda>t. rstate (tNodes t 0)) ?r = Some Leader" by code_simp
  moreover have "map_option (\<lambda>t. (tpPeers (tTrans t 0) 1, tpPeers (tTrans t 0) 2)) ?r = Some (Some (Some 7), Some None)" by code_simp
  ultimately show ?thesis by fastforce
qed

text \<open>A caller that has blocked a peer: what it still has to say to it has not passed the test.\<close>

definition cut_off :: "int \<Rightarrow> int \<Rightarrow> 'c tcluster \<Rightarrow> bool" where
  "cut_off n p t \<longleftrightarrow> tpBlocked (tTrans t n) p \<and> tpPeers (tTrans t n) p = Some None
     \<and> (\<forall>x \<in> set (tWire t). msg_caller (snd x) = n \<and> msg_callee (snd x) = p \<longrightarrow> fst x = Calling)"

lemma cut_off_simps:
  "cut_off n p t \<Longrightarrow> cut_off n p (remove_call k t)" "cut_off n p (put_view s t) = cut_off n p t"
  "cut_off n p t \<Longrightarrow> tpBlocked tr p = tpBlocked (tTrans t m) p \<Longrightarrow> tpPeers tr p = tpPeers (tTrans t m) p \<Longrightarrow> cut_off n p (set_trans m tr t)"
  by (auto simp: cut_off_def remove_call_def set_trans_def dest: in_set_takeD in_set_dropD)

lemma cut_off_update:
  assumes "cut_off n p t" "\<not> (msg_caller m = n \<and> msg_callee m = p)"
  shows "cut_off n p (t\<lparr>tWire := (tWire t)[k := (ph, m)]\<rparr>)"
  using assms by (auto simp: cut_off_def dest!: subsetD [OF set_update_subset_insert])

lemma cut_off_nth:
  assumes "cut_off n p t" "k < length (tWire t)" "fst (tWire t ! k) \<noteq> Calling"
  shows "\<not> (msg_caller (snd (tWire t ! k)) = n \<and> msg_callee (snd (tWire t ! k)) = p)"
  using assms nth_mem [OF assms(2)] unfolding cut_off_def by blast

text \<open>A request that reaches a server whose service is not bound yet crashes it.\<close>

lemma unbound_service_panics:
  assumes "k < length (tWire t)" "fst (tWire t ! k) = Sent w" "\<not> tBound t (msg_callee (snd (tWire t ! k)))"
  shows "tstep ps (THandle k d1 d2) t = None"
  using assms by (simp add: tstep_def tcp_handle_def Let_def)


lemma handle_ends:
  assumes "step_handle 0 d1 d2 (view ps [(True, m)] t) = Some s"
  shows "msg_caller (snd (hd (cWire s))) = msg_caller m" "msg_callee (snd (hd (cWire s))) = msg_callee m"
  using assms by (cases m; auto simp: step_handle_def set_node_def split: bind_splits)+

lemma trans_cut_off:
  assumes cut: "cut_off n p t" and k: "k < length (tWire t)" "fst (tWire t ! k) \<noteq> Calling"
    and keeps: "\<And>q. q \<noteq> msg_callee (snd (tWire t ! k)) \<Longrightarrow> tpPeers tr q = tpPeers (tTrans t (msg_caller (snd (tWire t ! k)))) q"
      "tpBlocked tr = tpBlocked (tTrans t (msg_caller (snd (tWire t ! k))))"
  shows "cut_off n p (remove_call k (set_trans (msg_caller (snd (tWire t ! k))) tr t))"
    "cut_off n p (set_phase k ph (set_trans (msg_caller (snd (tWire t ! k))) tr t))"
proof -
  let ?m = "snd (tWire t ! k)"
  let ?t = "set_trans (msg_caller ?m) tr t"
  have away: "\<not> (msg_caller ?m = n \<and> msg_callee ?m = p)" using cut_off_nth [OF cut k] .
  then have c: "cut_off n p ?t" using cut keeps by (auto simp: cut_off_def set_trans_def)
  show "cut_off n p (remove_call k ?t)" using cut_off_simps(1) [OF c] .
  have "tWire ?t = tWire t" by (simp add: set_trans_def)
  then show "cut_off n p (set_phase k ph ?t)" using cut_off_update [OF c away] by (simp add: set_phase_def)
qed

lemma handle_cut_off:
  assumes cut: "cut_off n p t" and k: "k < length (tWire t)" "fst (tWire t ! k) = Sent w" and h: "tcp_handle ps k w d1 d2 t = Some t'"
  shows "cut_off n p t'"
proof -
  obtain s where s: "step_handle 0 d1 d2 (view ps [(True, snd (tWire t ! k))] t) = Some s"
      "t' = (if w then (put_view s t)\<lparr>tWire := (tWire t)[k := (Answered, snd (hd (cWire s)))]\<rparr> else remove_call k (put_view s t))"
    using h by (auto simp: tcp_handle_def Let_def split: bind_splits if_splits)
  have c: "cut_off n p (put_view s t)" using cut cut_off_simps(2) by blast
  have "\<not> (msg_caller (snd (hd (cWire s))) = n \<and> msg_callee (snd (hd (cWire s))) = p)"
    using cut_off_nth [OF cut k(1)] k(2) handle_ends [OF s(1)] by auto
  from cut_off_update [OF c this] show ?thesis using s(2) cut_off_simps(1) [OF c] by simp
qed

lemma cut_off_step:
  assumes cut: "cut_off n p t" and st: "tstep ps ev t = Some t'" and ev: "ev \<noteq> TUnblock n p"
  shows "cut_off n p t'"
proof (cases ev)
  case (TLocal e)
  then show ?thesis using cut st by (auto simp: tstep_def cut_off_def split: if_splits bind_splits)
next
  case (TBlock m q)
  then show ?thesis using cut st
    by (cases "m = n"; cases "q = p") (auto simp: tstep_def cut_off_def set_trans_def BlockPeer_def dropClient_def split: option.splits bind_splits)
next
  case (TUnblock m q)
  then show ?thesis using cut st ev by (auto simp: tstep_def cut_off_def set_trans_def UnblockPeer_def)
next
  case (TCheck k)
  have "tpBlocked (tTrans t n) p" using cut by (simp add: cut_off_def)
  then show ?thesis using cut st TCheck cut_off_simps(1) [OF cut] cut_off_update [OF cut, of "snd (tWire t ! k)"]
    by (cases "msg_caller (snd (tWire t ! k)) = n \<and> msg_callee (snd (tWire t ! k)) = p")
      (auto simp: tstep_def Let_def set_phase_def split: if_splits)
next
  case (TDial k dial)
  then show ?thesis using cut st trans_cut_off [OF cut _ _ getClient_keeps(2,3), of k]
    by (auto simp: tstep_def Let_def split: bind_splits if_splits)
next
  case (THandle k d1 d2)
  then show ?thesis using cut st handle_cut_off [OF cut, of k] by (auto simp: tstep_def split: phase.splits if_splits)
next
  case (TAnswer k d)
  then show ?thesis using cut st by (auto simp: tstep_def cut_off_simps(2) split: bind_splits if_splits intro!: cut_off_simps(1))
next
  case (TFail k)
  then show ?thesis using cut st trans_cut_off [OF cut _ _ dropClient_keeps(2,4), of k]
    by (auto simp: tstep_def Let_def split: bind_splits if_splits)
qed (use cut st in \<open>auto simp: tstep_def cut_off_def\<close>)

lemma cut_off_run: "cut_off n p t \<Longrightarrow> trun ps evs t = Some t' \<Longrightarrow> TUnblock n p \<notin> set evs \<Longrightarrow> cut_off n p t'"
  by (induction evs arbitrary: t) (auto split: bind_splits dest: cut_off_step)



end
