(* ===== verification/Raft_Harness.thy ===== *)
theory Raft_Harness
  imports Replication
begin

text \<open>
  The cluster handle that drives Raft in this repository: \<^verbatim>\<open>raft/config.go\<close>, and the stable
  storage stand-in \<^verbatim>\<open>raft/persister.go\<close>. A handle is a system of \<open>Replication\<close> whose replicas are the
  maps of committed commands. Its checks read one server after the other while the
  cluster runs, so each read comes with the events before it. A check passes with a value or
  is fatal; the value \<^const>\<open>None\<close> is a panic of a server.
\<close>

subsection \<open>The handle\<close>

type_synonym 'c clog = "int \<rightharpoonup> 'c option"

type_synonym 'c config = "('c, 'c clog) system"

definition peers_of :: "nat \<Rightarrow> int list" where
  "peers_of n = map int [0..<n]"

definition applierLoop :: "'c ApplyMsg \<Rightarrow> 'c clog \<Rightarrow> 'c clog" where
  "applierLoop msg m = (if \<not> amCommandValid msg then m else m(amCommandIndex msg \<mapsto> amCommand msg))"

definition makeConfig :: "nat \<Rightarrow> (int \<Rightarrow> draw) \<Rightarrow> 'c config" where
  "makeConfig n ds = mkSystem (peers_of n) ds (\<lambda>_. Map.empty)"

definition cleanup :: "int list \<Rightarrow> 'c config \<Rightarrow> 'c config" where
  "cleanup ps s = s\<lparr>sRaft := fold (\<lambda>i c. set_node i (Kill (cNodes c i)) c) ps (sRaft s)\<rparr>"

definition disconnect :: "int \<Rightarrow> 'c config \<Rightarrow> 'c config" where
  "disconnect i s = s\<lparr>sRaft := (sRaft s)\<lparr>cNet := Disconnect i (cNet (sRaft s))\<rparr>\<rparr>"

definition connect :: "int \<Rightarrow> 'c config \<Rightarrow> 'c config" where
  "connect i s = s\<lparr>sRaft := (sRaft s)\<lparr>cNet := Connect i (cNet (sRaft s))\<rparr>\<rparr>"

definition setReliable :: "bool \<Rightarrow> 'c config \<Rightarrow> 'c config" where
  "setReliable r s = s\<lparr>sRaft := (sRaft s)\<lparr>cNet := SetReliable r (cNet (sRaft s))\<rparr>\<rparr>"

datatype failure = TwoLeaders | NoLeader | TermsDiffer | ValuesDiffer | NeverCommitted

datatype 'a check = Pass 'a | Fatal failure

subsection \<open>Checks\<close>

text \<open>What runs before the test of \<^verbatim>\<open>IsConnected\<close> and before \<^verbatim>\<open>GetState\<close>, for each server.\<close>

type_synonym 'c gaps = "int \<Rightarrow> 'c sevent list \<times> 'c sevent list"

fun readLeaders :: "int list \<Rightarrow> 'c gaps \<Rightarrow> int list \<Rightarrow> (int \<times> int list) list \<Rightarrow> 'c config \<Rightarrow>
    ((int \<times> int list) list \<times> 'c config) option" where
  "readLeaders ps g [] leaders s = Some (leaders, s)"
| "readLeaders ps g (i # is) leaders s = do {
     s1 \<leftarrow> srun applierLoop ps (fst (g i)) s;
     if \<not> IsConnected i (cNet (sRaft s1)) then readLeaders ps g is leaders s1
     else do {
       s2 \<leftarrow> srun applierLoop ps (snd (g i)) s1;
       let (t, isLeader) = GetState (cNodes (sRaft s2) i);
       readLeaders ps g is (if isLeader then AList.update t (gm_get [] leaders t @ [i]) leaders else leaders) s2
     }
   }"

text \<open>The loop over the map: fatal at a term with two leaders, else the latest term (or -1).\<close>

fun lastTerm :: "(int \<times> int list) list \<Rightarrow> int \<Rightarrow> int check" where
  "lastTerm [] lt = Pass lt"
| "lastTerm ((t, ls) # m) lt = (if length ls > 1 then Fatal TwoLeaders else lastTerm m (if t > lt then t else lt))"

fun checkOneLeader :: "int list \<Rightarrow> (nat \<Rightarrow> 'c gaps) \<Rightarrow> nat \<Rightarrow> 'c config \<Rightarrow> (int check \<times> 'c config) option" where
  "checkOneLeader ps g 0 s = Some (Fatal NoLeader, s)"
| "checkOneLeader ps g (Suc k) s = do {
     (leaders, s1) \<leftarrow> readLeaders ps (g k) ps [] s;
     case lastTerm leaders (-1) of
       Fatal e \<Rightarrow> Some (Fatal e, s1)
     | Pass t \<Rightarrow> if t \<noteq> -1 then Some (Pass (hd (gm_get [] leaders t)), s1) else checkOneLeader ps g k s1
   }"

fun checkTerms :: "int list \<Rightarrow> 'c gaps \<Rightarrow> int list \<Rightarrow> int \<Rightarrow> 'c config \<Rightarrow> (int check \<times> 'c config) option" where
  "checkTerms ps g [] t s = Some (Pass t, s)"
| "checkTerms ps g (i # is) t s = do {
     s1 \<leftarrow> srun applierLoop ps (fst (g i)) s;
     if \<not> IsConnected i (cNet (sRaft s1)) then checkTerms ps g is t s1
     else do {
       s2 \<leftarrow> srun applierLoop ps (snd (g i)) s1;
       let xterm = fst (GetState (cNodes (sRaft s2) i));
       if t = -1 then checkTerms ps g is xterm s2
       else if t \<noteq> xterm then Some (Fatal TermsDiffer, s2)
       else checkTerms ps g is t s2
     }
   }"

fun nCommitted :: "(int \<Rightarrow> 'c clog) \<Rightarrow> int \<Rightarrow> int list \<Rightarrow> int \<Rightarrow> 'c option \<Rightarrow> int check" where
  "nCommitted logs i [] count cmd = Pass count"
| "nCommitted logs i (p # ps) count cmd =
     (case logs p i of
        Some c \<Rightarrow> if count > 0 \<and> c \<noteq> cmd then Fatal ValuesDiffer else nCommitted logs i ps (count + 1) c
      | None \<Rightarrow> nCommitted logs i ps count cmd)"

subsection \<open>Submitting a command\<close>

fun submit :: "int list \<Rightarrow> 'c gaps \<Rightarrow> 'c \<Rightarrow> int list \<Rightarrow> 'c config \<Rightarrow> (int \<times> 'c config) option" where
  "submit ps g cmd [] s = Some (-1, s)"
| "submit ps g cmd (i # is) s = do {
     s1 \<leftarrow> srun applierLoop ps (fst (g i)) s;
     if \<not> IsConnected i (cNet (sRaft s1)) then submit ps g cmd is s1
     else do {
       s2 \<leftarrow> srun applierLoop ps (snd (g i)) s1;
       ((k, _, isLeader), s3) \<leftarrow> Propose i cmd s2;
       if isLeader then Some (k, s3) else submit ps g cmd is s3
     }
   }"

text \<open>The inner loop: \<^const>\<open>None\<close> when its two seconds are over. \<open>polls\<close> ends where the observation ends.\<close>

fun awaitCommit :: "int list \<Rightarrow> int \<Rightarrow> int \<Rightarrow> int \<Rightarrow> (int \<times> 'c sevent list) list \<Rightarrow> 'c config \<Rightarrow> (int check option \<times> 'c config) option" where
  "awaitCommit ps k expected deadline [] s = Some (None, s)"
| "awaitCommit ps k expected deadline ((now, evs) # polls) s =
     (if now < deadline then do {
        s1 \<leftarrow> srun applierLoop ps evs s;
        case nCommitted (sReps s1) k ps 0 None of
          Fatal e \<Rightarrow> Some (Some (Fatal e), s1)
        | Pass c \<Rightarrow> if c \<ge> expected then Some (Some (Pass k), s1) else awaitCommit ps k expected deadline polls s1
      }
      else Some (None, s))"

record 'c attempt =
  atNow :: int
  atGaps :: "'c gaps"
  atSubmitted :: int
  atPolls :: "(int \<times> 'c sevent list) list"

fun cfg_one :: "int list \<Rightarrow> 'c \<Rightarrow> int \<Rightarrow> int \<Rightarrow> 'c attempt list \<Rightarrow> 'c config \<Rightarrow> (int check option \<times> 'c config) option" where
  "cfg_one ps cmd expected deadline [] s = Some (None, s)"
| "cfg_one ps cmd expected deadline (a # as) s =
     (if atNow a < deadline then do {
        (k, s1) \<leftarrow> submit ps (atGaps a) cmd ps s;
        if k = -1 then cfg_one ps cmd expected deadline as s1
        else do {
          (r, s2) \<leftarrow> awaitCommit ps k expected (atSubmitted a + 2 * 1000000000) (atPolls a) s1;
          case r of Some x \<Rightarrow> Some (Some x, s2) | None \<Rightarrow> cfg_one ps cmd expected deadline as s2
        }
      }
      else Some (Some (Fatal NeverCommitted), s))"

subsection \<open>The persister\<close>

record Persister =
  raftstate :: bytes

definition MakePersister :: Persister where
  "MakePersister = \<lparr>raftstate = []\<rparr>"

definition p_Copy :: "Persister \<Rightarrow> Persister" where
  "p_Copy p = MakePersister\<lparr>raftstate := raftstate p\<rparr>"

definition ReadRaftState :: "Persister \<Rightarrow> bytes" where
  "ReadRaftState p = raftstate p"

definition SaveRaftState :: "bytes \<Rightarrow> Persister \<Rightarrow> Persister" where
  "SaveRaftState st p = p\<lparr>raftstate := st\<rparr>"

definition RaftStateSize :: "Persister \<Rightarrow> int" where
  "RaftStateSize p = int (length (raftstate p))"

lemma persister_laws:
  "ReadRaftState (SaveRaftState st p) = st" "RaftStateSize (SaveRaftState st p) = int (length st)"
  "ReadRaftState (p_Copy p) = ReadRaftState p"
  by (simp_all add: ReadRaftState_def SaveRaftState_def RaftStateSize_def p_Copy_def)

subsection \<open>No two leaders\<close>

text \<open>Every term seen so far has one leader, which the protocol elected in that term.\<close>

definition seen_ok :: "'c pstate \<Rightarrow> int set \<Rightarrow> (int \<times> int list) list \<Rightarrow> bool" where
  "seen_ok a D m \<longleftrightarrow> distinct (map fst m) \<and> (\<forall>t ls. (t, ls) \<in> set m \<longrightarrow> (\<exists>i \<in> D. ls = [i] \<and> pLead a t = Some i))"

lemma seen_ok_later: "seen_ok a D m \<Longrightarrow> pext a b \<Longrightarrow> D \<subseteq> D2 \<Longrightarrow> seen_ok b D2 m"
  unfolding seen_ok_def pext_def by (metis subsetD)

lemma seen_ok_add:
  assumes "seen_ok a D m" "pLead a t = Some i" "i \<notin> D"
  shows "seen_ok a (insert i D) (AList.update t (gm_get [] m t @ [i]) m)"
proof -
  have n: "t \<notin> fst ` set m" using assms unfolding seen_ok_def by fastforce
  then have "map_of m t = None" by (simp add: map_of_eq_None_iff)
  then have "gm_get [] m t = []" by (simp add: gm_get_def)
  moreover have "AList.update t [i] m = m @ [(t, [i])]" using n by (induction m) auto
  ultimately show ?thesis using assms n by (auto simp: seen_ok_def)
qed

lemma lastTerm_safe: "seen_ok a D m \<Longrightarrow> lastTerm m t \<noteq> Fatal e"
  by (induction m arbitrary: t) (fastforce simp: seen_ok_def)+

lemma readLeaders_safe:
  assumes ps: "distinct ps" "\<forall>p \<in> set ps. 0 \<le> p"
  shows "sim ps (sRaft s) a \<Longrightarrow> seen_ok a D m \<Longrightarrow> distinct is \<Longrightarrow> set is \<inter> D = {} \<Longrightarrow>
    \<exists>m' s' b. readLeaders ps g is m s = Some (m', s') \<and> sim ps (sRaft s') b \<and> (\<exists>d. seen_ok b d m')"
proof (induction "is" arbitrary: s a D m)
  case Nil
  then show ?case by auto
next
  case (Cons i "is")
  obtain s1 b where 1: "srun applierLoop ps (fst (g i)) s = Some s1" "(pstep (set ps))\<^sup>*\<^sup>* a b" "sim ps (sRaft s1) b"
    using srun_total [OF ps Cons.prems(1)] by blast
  have ab: "pext a b" using psteps_inv [OF 1(2)] Cons.prems(1) by (auto simp: sim_def)
  show ?case
  proof (cases "IsConnected i (cNet (sRaft s1))")
    case False
    have "seen_ok b D m" using seen_ok_later [OF Cons.prems(2) ab] by blast
    from Cons.IH [OF 1(3) this] show ?thesis using 1(1) False Cons.prems(3,4) by simp
  next
    case True
    obtain s2 c where 2: "srun applierLoop ps (snd (g i)) s1 = Some s2" "(pstep (set ps))\<^sup>*\<^sup>* b c" "sim ps (sRaft s2) c"
      using srun_total [OF ps 1(3)] by blast
    have "pext b c" using psteps_inv [OF 2(2)] 1(3) by (auto simp: sim_def)
    then have m: "seen_ok c D m" using seen_ok_later [OF seen_ok_later [OF Cons.prems(2) ab subset_refl]] by blast
    let ?m = "if rstate (cNodes (sRaft s2) i) = Leader
      then AList.update (currentTerm (cNodes (sRaft s2) i)) (gm_get [] m (currentTerm (cNodes (sRaft s2) i)) @ [i]) m else m"
    have "seen_ok c (insert i D) ?m"
      using seen_ok_add [OF m, of "currentTerm (cNodes (sRaft s2) i)" i] sim_node(2,4) [OF 2(3)] Cons.prems(4)
        seen_ok_later [OF m, of c "insert i D"] by (auto simp: pext_def)
    from Cons.IH [OF 2(3) this] show ?thesis using 1(1) 2(1) True Cons.prems(3,4) by (auto simp: GetState_def)
  qed
qed

lemma checkOneLeader_safe:
  assumes ps: "distinct ps" "\<forall>p \<in> set ps. 0 \<le> p"
  shows "sim ps (sRaft s) a \<Longrightarrow> \<exists>r s'. checkOneLeader ps g k s = Some (r, s') \<and> r \<noteq> Fatal TwoLeaders"
proof (induction k arbitrary: s a)
  case (Suc k)
  obtain m s1 b d where 1: "readLeaders ps (g k) ps [] s = Some (m, s1)" "sim ps (sRaft s1) b" "seen_ok b d m"
    using readLeaders_safe [OF ps Suc.prems, of "{}" "[]" ps "g k"] ps(1) by (auto simp: seen_ok_def)
  obtain t where "lastTerm m (-1) = Pass t" using lastTerm_safe [OF 1(3)] by (metis check.exhaust)
  then show ?case using 1(1) Suc.IH [OF 1(2)] by auto
qed simp


subsection \<open>Committed values\<close>

lemma clog_message: "fold applierLoop ms m0 i = Some c \<Longrightarrow> m0 i = Some c \<or> (\<exists>m \<in> set ms. amCommandIndex m = i \<and> amCommand m = c)"
proof (induction ms arbitrary: m0)
  case (Cons m ms)
  from Cons.IH [of "applierLoop m m0"] Cons.prems show ?case by (auto simp: applierLoop_def split: if_splits)
qed simp

lemma logs_agree:
  assumes ps: "distinct ps" "\<forall>p \<in> set ps. 0 \<le> p"
    and run: "srun applierLoop ps evs (mkSystem ps ds (\<lambda>_. Map.empty)) = Some s"
    and c: "sReps s p i = Some c" "sReps s q i = Some d"
  shows "c = d"
proof -
  obtain a where a: "sim ps (sRaft s) a" using srun_two [OF ps run, of "[]" s] by auto
  have f: "fed applierLoop (\<lambda>_. Map.empty) s" using srun_fed [OF run mkSystem_fed] .
  have msg: "\<exists>m \<in> set (cApply (sRaft s) r). amCommandIndex m = i \<and> amCommand m = e" if e: "sReps s r i = Some e" for r e
  proof -
    have "fold applierLoop (take (sTaken s r) (cApply (sRaft s) r)) Map.empty i = Some e" using f e by (simp add: fed_def)
    from clog_message [OF this] show ?thesis by (auto dest: in_set_takeD)
  qed
  obtain m1 m2 where m: "m1 \<in> set (cApply (sRaft s) p)" "amCommandIndex m1 = i" "amCommand m1 = c"
      "m2 \<in> set (cApply (sRaft s) q)" "amCommandIndex m2 = i" "amCommand m2 = d"
    using msg [OF c(1)] msg [OF c(2)] by blast
  have wf: "wf_log (pLog a r)" for r using a pinv_logD(1) by (auto simp: sim_def)
  have dist: "distinct (map amCommandIndex (cApply (sRaft s) r))" for r
    using sorted_applied(1) [OF wf] sim_node(7) [OF a, of r] by (simp add: strict_sorted_iff)
  obtain r where "m1 \<in> set (cApply (sRaft s) r)" "m2 \<in> set (cApply (sRaft s) r)"
    using sim_applied_comparable [OF a, of p q] m(1,4) set_mono_prefix by blast
  then have "m1 = m2" using dist [of r] m(2,5) by (metis distinct_map inj_onD)
  then show ?thesis using m by simp
qed

lemma nCommitted_counts:
  assumes "\<forall>p q c d. logs p i = Some c \<longrightarrow> logs q i = Some d \<longrightarrow> c = d" "0 \<le> n" "0 < n \<Longrightarrow> \<exists>p. logs p i = Some cmd"
  shows "nCommitted logs i ps n cmd = Pass (n + int (length (filter (\<lambda>p. logs p i \<noteq> None) ps)))"
  using assms(2,3)
proof (induction ps arbitrary: n cmd)
  case (Cons p ps)
  show ?case
  proof (cases "logs p i")
    case (Some c)
    then have "\<not> (n > 0 \<and> c \<noteq> cmd)" using Cons.prems(2) assms(1) by blast
    moreover have "nCommitted logs i ps (n + 1) c = Pass (n + 1 + int (length (filter (\<lambda>p. logs p i \<noteq> None) ps)))"
      using Cons.IH [of "n + 1" c] Cons.prems(1) Some by auto
    ultimately show ?thesis using Some by simp
  qed (use Cons in simp)
qed simp

lemma peers_of_ok: "distinct (peers_of n)" "\<forall>p \<in> set (peers_of n). 0 \<le> p"
  by (auto simp: peers_of_def distinct_map inj_on_def)

subsection \<open>Properties\<close>

text \<open>
  C24: The safety assertions of the cluster handle never fail, whatever the cluster does before
  and between their reads: \<^verbatim>\<open>nCommitted\<close> never finds two values at an index, and counts the
  servers that have one; \<^verbatim>\<open>checkOneLeader\<close> returns, and never finds two leaders in a term.
\<close>

theorem harness_checks_hold:
  assumes "srun applierLoop (peers_of n) evs (makeConfig n ds) = Some s"
  shows "nCommitted (sReps s) i (peers_of n) 0 None = Pass (int (length (filter (\<lambda>p. sReps s p i \<noteq> None) (peers_of n))))
    \<and> (\<exists>r s'. checkOneLeader (peers_of n) g 15 s = Some (r, s') \<and> r \<noteq> Fatal TwoLeaders)"
proof
  note run = assms [unfolded makeConfig_def]
  show "nCommitted (sReps s) i (peers_of n) 0 None = Pass (int (length (filter (\<lambda>p. sReps s p i \<noteq> None) (peers_of n))))"
    using nCommitted_counts [of "sReps s" i 0 None] logs_agree [OF peers_of_ok run] by simp
  obtain a where "sim (peers_of n) (sRaft s) a" using srun_two [OF peers_of_ok run, of "[]" s] by auto
  then show "\<exists>r s'. checkOneLeader (peers_of n) g 15 s = Some (r, s') \<and> r \<noteq> Fatal TwoLeaders"
    by (rule checkOneLeader_safe [OF peers_of_ok])
qed

text \<open>Three servers, of which 0 is elected and commits the command 5 at index 2.\<close>

definition harness_events :: "nat sevent list" where
  "harness_events = map ERaft [EvTick 0 0 (0, 0), EvTick 0 700000000 (0, 0), EvTick 0 700000000 (700000000, 0),
     EvAdmit 0 500, EvHandle 0 (0, 0) (0, 0), EvReturn 0, EvReply 0 (0, 0), EvStart 0 5, EvSend 0 1,
     EvAdmit 1 500, EvHandle 1 (0, 0) (0, 0), EvReturn 1, EvReply 1 (0, 0), EvApply 0] @ [ETake 0]"

definition harness_state :: "nat config" where
  "harness_state = the (srun applierLoop (peers_of 3) harness_events (makeConfig 3 (\<lambda>_. (0, 0))))"

theorem harness_checks_hold_witness:
  "nCommitted (sReps harness_state) 2 (peers_of 3) 0 None = Pass (int (length (filter (\<lambda>p. sReps harness_state p 2 \<noteq> None) (peers_of 3))))
    \<and> sReps harness_state 0 2 = Some (Some 5)
    \<and> (\<exists>r s'. checkOneLeader (peers_of 3) (\<lambda>_ _. ([], [])) 15 harness_state = Some (r, s') \<and> r \<noteq> Fatal TwoLeaders)"
proof -
  have "srun applierLoop (peers_of 3) harness_events (makeConfig 3 (\<lambda>_. (0, 0))) \<noteq> None" by code_simp
  then have r: "srun applierLoop (peers_of 3) harness_events (makeConfig 3 (\<lambda>_. (0, 0))) = Some harness_state" by (auto simp: harness_state_def)
  have "sReps harness_state 0 2 = Some (Some 5)" by code_simp
  then show ?thesis using harness_checks_hold [OF r, of 2 "\<lambda>_ _. ([], [])"] by blast
qed


text \<open>
  A server that starts again begins with \<^const>\<open>newRaft\<close>: nothing of its state is saved. Server 1
  votes for 0 in term 1, starts again and votes for 2 in term 1, so that both lead it. The
  safety properties are about servers that do not restart.
\<close>

definition restart :: "int list \<Rightarrow> draw \<Rightarrow> int \<Rightarrow> 'c cluster \<Rightarrow> 'c cluster" where
  "restart ps d n s = set_node n (newRaft d n ps) s"

definition elect :: "int \<Rightarrow> nat \<Rightarrow> nat event list" where
  "elect n k = [EvTick n 0 (0, 0), EvTick n 700000000 (0, 0), EvTick n 700000000 (700000000, 0),
     EvAdmit k 500, EvHandle k (0, 0) (0, 0), EvReturn k, EvReply k (0, 0)]"

lemma restart_two_leaders:
  "\<exists>s s'. crun [0, 1, 2] (elect 0 0) (Make_cluster [0, 1, 2] (\<lambda>_. (0, 0))) = Some s
    \<and> crun [0, 1, 2] (elect 2 2) (restart [0, 1, 2] (0, 0) 1 s) = Some s'
    \<and> GetState (cNodes s' 0) = (1, True) \<and> GetState (cNodes s' 2) = (1, True)"
proof -
  let ?r = "Option.bind (crun [0, 1, 2] (elect 0 0) (Make_cluster [0, 1, 2] (\<lambda>_. (0, 0))))
    (\<lambda>s. crun [0, 1, 2] (elect 2 2) (restart [0, 1, 2] (0, 0) 1 s))"
  have "map_option (\<lambda>s. (GetState (cNodes s 0), GetState (cNodes s 2))) ?r = Some ((1, True), (1, True))" by code_simp
  then show ?thesis by (auto split: bind_splits)
qed

end
