(* ===== verification/Group.thy ===== *)
theory Group
  imports Prelude "HOL-Library.List_Lexorder" "HOL-Library.Char_ord"
begin

text \<open>
  Consumer groups: \<^verbatim>\<open>group/coordinator.go\<close>. Every operation is one critical section on the
  coordinator's record; the clock reading is an argument. Consumer names are compared as
  \<^verbatim>\<open>sort.Strings\<close> does, by the lexicographic order of their bytes.
\<close>

subsection \<open>The coordinator\<close>

definition defaultHeartbeatTimeout :: int where
  "defaultHeartbeatTimeout = 500 * 1000000"

record coordinator =
  numParts :: int
  heartbeatTimeout :: int
  lastHeartbeat :: "(string \<times> int) list"
  assignment :: "(string \<times> int list) list"
  closed :: bool

definition NewCoordinator :: "int \<Rightarrow> int \<Rightarrow> coordinator" where
  "NewCoordinator n timeout =
     (let timeout = (if timeout \<le> 0 then defaultHeartbeatTimeout else timeout) in
      \<lparr>numParts = n, heartbeatTimeout = timeout, lastHeartbeat = [], assignment = [], closed = False\<rparr>)"

text \<open>The body of the loop over the partitions.\<close>

definition assignNext :: "string list \<Rightarrow> int \<Rightarrow> (string \<times> int list) list \<Rightarrow> (string \<times> int list) list" where
  "assignNext live p m =
     (let owner = live ! nat (p mod int (length live)) in AList.update owner (gm_get [] m owner @ [p]) m)"

definition rebalanceLocked :: "coordinator \<Rightarrow> coordinator" where
  "rebalanceLocked c =
     (let live = sort (map fst (lastHeartbeat c));
          newAssignment = foldl (\<lambda>m k. AList.update k [] m) [] live in
      c\<lparr>assignment := (if live = [] then newAssignment
                       else foldl (\<lambda>m p. assignNext live p m) newAssignment (map int [0..<nat (numParts c)]))\<rparr>)"

definition Join :: "int \<Rightarrow> string \<Rightarrow> coordinator \<Rightarrow> coordinator" where
  "Join now k c = rebalanceLocked (c\<lparr>lastHeartbeat := AList.update k now (lastHeartbeat c)\<rparr>)"

definition Heartbeat :: "int \<Rightarrow> string \<Rightarrow> coordinator \<Rightarrow> coordinator" where
  "Heartbeat now k c =
     (if map_of (lastHeartbeat c) k \<noteq> None then c\<lparr>lastHeartbeat := AList.update k now (lastHeartbeat c)\<rparr> else c)"

definition Leave :: "string \<Rightarrow> coordinator \<Rightarrow> coordinator" where
  "Leave k c = rebalanceLocked (c\<lparr>lastHeartbeat := AList.delete k (lastHeartbeat c)\<rparr>)"

definition Assignment :: "string \<Rightarrow> coordinator \<Rightarrow> int list" where
  "Assignment k c = gm_get [] (assignment c) k"

definition FullAssignment :: "coordinator \<Rightarrow> (string \<times> int list) list" where
  "FullAssignment c = map (\<lambda>(k, v). (k, v)) (assignment c)"

text \<open>One tick of \<^verbatim>\<open>expiryLoop\<close>.\<close>

definition expiryTick :: "int \<Rightarrow> coordinator \<Rightarrow> coordinator" where
  "expiryTick now c =
     (let alive = filter (\<lambda>(k, last). \<not> now - last > heartbeatTimeout c) (lastHeartbeat c);
          changed = (length alive \<noteq> length (lastHeartbeat c)) in
      if changed then rebalanceLocked (c\<lparr>lastHeartbeat := alive\<rparr>) else c\<lparr>lastHeartbeat := alive\<rparr>)"

definition c_Close :: "coordinator \<Rightarrow> coordinator" where
  "c_Close c = (if closed c then c else c\<lparr>closed := True\<rparr>)"

datatype cevent = CJoin int string | CHeartbeat int string | CLeave string | CTick int | CClose

text \<open>A closed coordinator has no ticks.\<close>

fun c_step :: "cevent \<Rightarrow> coordinator \<Rightarrow> coordinator" where
  "c_step (CJoin now k) c = Join now k c"
| "c_step (CHeartbeat now k) c = Heartbeat now k c"
| "c_step (CLeave k) c = Leave k c"
| "c_step (CTick now) c = (if closed c then c else expiryTick now c)"
| "c_step CClose c = c_Close c"

abbreviation c_run :: "cevent list \<Rightarrow> coordinator \<Rightarrow> coordinator" where
  "c_run evs c \<equiv> fold c_step evs c"

subsection \<open>The assignment in closed form\<close>

abbreviation members :: "coordinator \<Rightarrow> string list" where
  "members c \<equiv> map fst (lastHeartbeat c)"

definition share :: "nat \<Rightarrow> nat \<Rightarrow> nat \<Rightarrow> int list" where
  "share n k i = map int (filter (\<lambda>p. p mod k = i) [0..<n])"

lemma share_Suc: "share (Suc n) k i = share n k i @ (if n mod k = i then [int n] else [])"
  by (simp add: share_def)

lemma assignLoop_get:
  assumes "distinct live" "live \<noteq> []" "i < length live" "gm_get [] m (live ! i) = []"
  shows "gm_get [] (foldl (\<lambda>m p. assignNext live p m) m (map int [0..<n])) (live ! i) = share n (length live) i"
  using assms(3,4)
proof (induction n)
  case (Suc n)
  have "nat (int n mod int (length live)) = n mod length live" by (simp add: zmod_int [symmetric])
  then show ?case
    using Suc assms(1,2) by (auto simp: assignNext_def Let_def share_Suc nth_eq_iff_index_eq)
qed (simp add: share_def)

lemma assignLoop_keys:
  assumes "live \<noteq> []" "set live \<subseteq> fst ` set m"
  shows "fst ` set (foldl (\<lambda>m p. assignNext live p m) m (map int [0..<n])) = fst ` set m"
  using assms(2)
proof (induction n)
  case (Suc n)
  have "live ! nat (int n mod int (length live)) \<in> set live" using assms(1) by (simp add: nat_less_iff)
  then show ?case using Suc by (auto simp: assignNext_def Let_def dom_update)
qed simp

lemma fresh_assignment:
  "gm_get [] (foldl (\<lambda>m k. AList.update k [] m) m0 live) k = (if k \<in> set live then [] else gm_get [] m0 k)"
  "fst ` set (foldl (\<lambda>m k. AList.update k [] m) m0 live) = fst ` set m0 \<union> set live"
  by (induction live arbitrary: m0) (auto simp: dom_update)

text \<open>
  The invariant: the members are distinct, and the assignment is that of a rebalance on
  the current members.
\<close>

definition coord_ok :: "coordinator \<Rightarrow> bool" where
  "coord_ok c \<longleftrightarrow> distinct (members c) \<and> fst ` set (assignment c) = set (members c)
     \<and> (\<forall>i < length (members c). Assignment (sort (members c) ! i) c = share (nat (numParts c)) (length (members c)) i)"

lemma rebalance_ok:
  assumes "distinct (members c)"
  shows "coord_ok (rebalanceLocked c)"
proof (cases "members c = []")
  case False
  define live where "live = sort (members c)"
  define m where "m = foldl (\<lambda>m k. AList.update k ([] :: int list) m) [] live"
  have live: "distinct live" "length live = length (members c)" "set live = set (members c)"
    using assms by (simp_all add: live_def)
  then have ne: "live \<noteq> []" using False by auto
  have m: "gm_get [] m k = []" "fst ` set m = set live" for k
    unfolding m_def fresh_assignment by (simp_all add: gm_get_def)
  have r: "assignment (rebalanceLocked c) = foldl (\<lambda>m p. assignNext live p m) m (map int [0..<nat (numParts c)])"
      "members (rebalanceLocked c) = members c" "numParts (rebalanceLocked c) = numParts c"
    using ne by (simp_all add: rebalanceLocked_def Let_def live_def m_def)
  have "fst ` set (assignment (rebalanceLocked c)) = set (members c)"
    unfolding r(1) using assignLoop_keys [OF ne, of m] m(2) live(3) by simp
  moreover have "Assignment (live ! i) (rebalanceLocked c) = share (nat (numParts c)) (length (members c)) i"
    if "i < length (members c)" for i
    unfolding Assignment_def r(1) using assignLoop_get [OF live(1) ne _ m(1), of i] that live(2) by simp
  ultimately show ?thesis unfolding coord_ok_def r(2,3) live_def using assms by simp
qed (simp add: coord_ok_def rebalanceLocked_def)

lemma heartbeat_keys:
  assumes "map_of m k \<noteq> None"
  shows "map fst (AList.update k v m) = map fst m"
  using assms by (simp add: AList.update_keys) (metis domI domIff dom_map_of_conv_image_fst image_set)

lemma filter_all_kept: "length (filter P xs) = length xs \<Longrightarrow> filter P xs = xs"
proof (induction xs)
  case (Cons x xs)
  then show ?case using length_filter_le [of P xs] by (cases "P x") auto
qed simp

lemma coord_ok_cong:
  "members c' = members c \<Longrightarrow> assignment c' = assignment c \<Longrightarrow> numParts c' = numParts c \<Longrightarrow> coord_ok c' = coord_ok c"
  unfolding coord_ok_def Assignment_def by simp

lemma c_step_ok:
  assumes "coord_ok c"
  shows "coord_ok (c_step ev c)" "numParts (c_step ev c) = numParts c"
proof -
  have d: "distinct (members c)" using assms by (simp add: coord_ok_def)
  have f: "distinct (map fst (filter P (lastHeartbeat c)))" for P using d by (rule distinct_map_filter)
  have t: "coord_ok (expiryTick now c)" for now
  proof (cases "length (filter (\<lambda>(k, last). \<not> now - last > heartbeatTimeout c) (lastHeartbeat c)) = length (lastHeartbeat c)")
    case True
    then have "filter (\<lambda>(k, last). \<not> now - last > heartbeatTimeout c) (lastHeartbeat c) = lastHeartbeat c"
      by (rule filter_all_kept)
    then show ?thesis using assms by (simp add: expiryTick_def Let_def)
  next
    case False
    then show ?thesis using rebalance_ok f by (simp add: expiryTick_def Let_def)
  qed
  have h: "coord_ok (Heartbeat now k c)" for now k
    using assms coord_ok_cong [of "Heartbeat now k c" c] heartbeat_keys [of "lastHeartbeat c" k now] by (cases "map_of (lastHeartbeat c) k") (simp_all add: Heartbeat_def)
  have "coord_ok (c_Close c)" using assms coord_ok_cong [of "c_Close c" c] by (simp add: c_Close_def)
  then show "coord_ok (c_step ev c)"
    using assms t h d by (cases ev) (auto simp: Join_def Leave_def distinct_update distinct_delete intro!: rebalance_ok)
  show "numParts (c_step ev c) = numParts c"
    by (cases ev) (auto simp: Join_def Leave_def Heartbeat_def expiryTick_def c_Close_def rebalanceLocked_def Let_def)
qed

lemma c_run_ok: "coord_ok c \<Longrightarrow> coord_ok (c_run evs c) \<and> numParts (c_run evs c) = numParts c"
  by (induction evs arbitrary: c) (auto simp: c_step_ok)


lemma share_length:
  assumes "i < k"
  shows "length (share n k i) = n div k + (if i < n mod k then 1 else 0)"
  using assms
proof (induction n)
  case (Suc n)
  then show ?case by (auto simp: share_Suc div_Suc mod_Suc)
qed (simp add: share_def)

lemma share_set: "p \<in> set (share n k i) \<longleftrightarrow> 0 \<le> p \<and> p < int n \<and> nat p mod k = i"
  by (force simp: share_def)

lemma share_distinct: "distinct (share n k i)"
  by (simp add: share_def distinct_map)

text \<open>Every member has a position in the sorted list.\<close>

lemma member_position:
  assumes "coord_ok c" "k \<in> set (members c)"
  obtains i where "i < length (members c)" "k = sort (members c) ! i" "Assignment k c = share (nat (numParts c)) (length (members c)) i"
proof -
  have "k \<in> set (sort (members c))" using assms(2) by simp
  then obtain i where "i < length (sort (members c))" "k = sort (members c) ! i" by (metis in_set_conv_nth)
  then show ?thesis using that assms(1) by (simp add: coord_ok_def)
qed

lemma one_owner:
  assumes "coord_ok c" "members c \<noteq> []" "0 \<le> p" "p < numParts c"
  shows "\<exists>!k. p \<in> set (Assignment k c)"
proof -
  let ?n = "length (members c)"
  define i where "i = nat p mod ?n"
  have d: "distinct (sort (members c))" using assms(1) by (simp add: coord_ok_def)
  have i: "i < ?n" using assms(2) by (simp add: i_def)
  have "p \<in> set (Assignment (sort (members c) ! i) c)"
    using assms(1,3,4) i unfolding coord_ok_def by (simp add: share_set i_def)
  moreover have "k = sort (members c) ! i" if k: "p \<in> set (Assignment k c)" for k
  proof -
    have "k \<in> set (members c)"
      using k assms(1) by (auto simp: Assignment_def gm_get_def coord_ok_def split: option.splits dest: map_of_SomeD)
        (metis domI dom_map_of_conv_image_fst)
    then obtain j where "j < ?n" "k = sort (members c) ! j" "Assignment k c = share (nat (numParts c)) ?n j"
      using member_position [OF assms(1)] by metis
    then show ?thesis using k by (auto simp: share_set i_def)
  qed
  ultimately show ?thesis by blast
qed

subsection \<open>Properties\<close>

text \<open>
  C25: After any sequence of joins, heartbeats, leaves and expiries: as long as the group has
  a member, every partition is assigned to exactly one consumer; only members have
  partitions; and the shares of two members differ by at most one partition, the quotient
  of the number of partitions by the number of members or one more.
\<close>

theorem group_assignment:
  assumes "c = c_run evs (NewCoordinator n timeout)" "0 \<le> n"
  shows "(members c \<noteq> [] \<longrightarrow> (\<forall>p. 0 \<le> p \<and> p < n \<longrightarrow> (\<exists>!k. p \<in> set (Assignment k c))))
    \<and> (\<forall>k. k \<notin> set (members c) \<longrightarrow> Assignment k c = [])
    \<and> (\<forall>k \<in> set (members c). distinct (Assignment k c) \<and> (\<forall>p \<in> set (Assignment k c). 0 \<le> p \<and> p < n)
        \<and> int (length (Assignment k c)) - n div int (length (members c)) \<in> {0, 1})"
proof -
  have "coord_ok (NewCoordinator n timeout)" by (simp add: coord_ok_def NewCoordinator_def Let_def)
  then have ok: "coord_ok c" "numParts c = n" using c_run_ok [of "NewCoordinator n timeout" evs] assms(1)
    by (simp_all add: NewCoordinator_def Let_def)
  have "Assignment k c = []" if "k \<notin> set (members c)" for k
    using ok(1) that unfolding Assignment_def gm_get_def coord_ok_def by (metis map_of_eq_None_iff option.simps(4))
  moreover have "distinct (Assignment k c) \<and> (\<forall>p \<in> set (Assignment k c). 0 \<le> p \<and> p < n)
      \<and> int (length (Assignment k c)) - n div int (length (members c)) \<in> {0, 1}" if k: "k \<in> set (members c)" for k
  proof -
    let ?n = "length (members c)"
    obtain i where i: "i < ?n" "Assignment k c = share (nat n) ?n i"
      using member_position [OF ok(1) k] ok(2) by metis
    moreover have "int (nat n div ?n) = n div int ?n" using assms(2) by (simp add: zdiv_int)
    ultimately show ?thesis using share_distinct share_set share_length [OF i(1), of "nat n"] assms(2) by (auto simp del: length_map)
  qed
  ultimately show ?thesis using one_owner [OF ok(1)] ok(2) by blast
qed

definition demo_group :: coordinator where
  "demo_group = c_run [CJoin 0 ''b'', CJoin 1 ''a'', CJoin 2 ''c'', CHeartbeat 900000000 ''a'', CHeartbeat 900000000 ''c'', CTick 1000000000]
     (NewCoordinator 5 0)"

theorem group_assignment_witness:
  "members demo_group = [''a'', ''c''] \<and> Assignment ''a'' demo_group = [0, 2, 4] \<and> Assignment ''b'' demo_group = []
    \<and> (\<exists>!k. 3 \<in> set (Assignment k demo_group))"
proof -
  have m: "members demo_group = [''a'', ''c'']" by code_simp
  have "Assignment ''a'' demo_group = [0, 2, 4]" by code_simp
  then show ?thesis using group_assignment [OF demo_group_def] m by simp
qed

end
