(* ===== verification/Streaming.thy ===== *)
theory Streaming
  imports Prelude
begin

text \<open>
  Tumbling windows: \<^verbatim>\<open>streaming/window.go\<close>. A \<^verbatim>\<open>time.Time\<close> is the number of nanoseconds
  since the zero time, without the limits of its range; a \<^verbatim>\<open>time.Duration\<close> is a number of
  nanoseconds. The emit loop does not end for every window size, so it is a partial
  function, whose value is \<^const>\<open>None\<close> when it does not return.
\<close>

subsection \<open>Times and the sink\<close>

abbreviation second :: int where
  "second \<equiv> 1000000000"

definition t_Truncate :: "int \<Rightarrow> int \<Rightarrow> int" where
  "t_Truncate d t = (if d \<le> 0 then t else t - t mod d)"

definition t_Unix :: "int \<Rightarrow> int" where
  "t_Unix t = t div second - 62135596800"

type_synonym sink = "(int \<times> int) list"

definition NewInMemorySink :: sink where
  "NewInMemorySink = []"

definition Emit :: "int \<Rightarrow> int \<Rightarrow> sink \<Rightarrow> sink" where
  "Emit windowStart count s = AList.update (t_Unix windowStart) count s"

subsection \<open>The job\<close>

text \<open>The loop over the events; \<open>first\<close> is \<^verbatim>\<open>i == 0\<close>.\<close>

fun bucketLoop :: "int \<Rightarrow> bool \<Rightarrow> int list \<Rightarrow> (int \<times> int) list \<Rightarrow> int \<Rightarrow> int \<Rightarrow> (int \<times> int) list \<times> int \<times> int" where
  "bucketLoop sz first [] counts minW maxW = (counts, minW, maxW)"
| "bucketLoop sz first (e # es) counts minW maxW =
     (let w = t_Truncate sz e in
      bucketLoop sz False es (AList.update (t_Unix w) (gm_get 0 counts (t_Unix w) + 1) counts)
        (if first \<or> w < minW then w else minW) (if first \<or> w > maxW then w else maxW))"

text \<open>The calls of \<^verbatim>\<open>sink.Emit\<close>, in order.\<close>

partial_function (option) emitLoop :: "int \<Rightarrow> (int \<times> int) list \<Rightarrow> int \<Rightarrow> int \<Rightarrow> (int \<times> int) list option" where
  "emitLoop sz counts maxW w =
     (if w > maxW then Some []
      else do { rest \<leftarrow> emitLoop sz counts maxW (w + sz); Some ((w, gm_get 0 counts (t_Unix w)) # rest) })"

declare emitLoop.simps [code]

definition windows :: "int list \<Rightarrow> int \<Rightarrow> (int \<times> int) list option" where
  "windows events sz =
     (if events = [] then Some []
      else (case bucketLoop sz True events [] 0 0 of (counts, minW, maxW) \<Rightarrow> emitLoop sz counts maxW minW))"

definition ProcessTumblingWindows :: "int list \<Rightarrow> int \<Rightarrow> sink \<Rightarrow> sink option" where
  "ProcessTumblingWindows events sz s = map_option (foldl (\<lambda>s (w, n). Emit w n s) s) (windows events sz)"

subsection \<open>The buckets\<close>

lemma bucketLoop_counts:
  assumes "bucketLoop sz first es counts minW maxW = (counts', lo, hi)"
  shows "gm_get 0 counts' u = gm_get 0 counts u + int (length (filter (\<lambda>e. t_Unix (t_Truncate sz e) = u) es))"
  using assms by (induction es arbitrary: first counts minW maxW) (auto simp: Let_def split: if_splits)

lemma bucketLoop_range:
  assumes "bucketLoop sz False es counts minW maxW = (counts', lo, hi)"
  shows "lo \<le> minW \<and> maxW \<le> hi \<and> (\<forall>e \<in> set es. lo \<le> t_Truncate sz e \<and> t_Truncate sz e \<le> hi)
    \<and> lo \<in> insert minW (t_Truncate sz ` set es) \<and> hi \<in> insert maxW (t_Truncate sz ` set es)"
  using assms
proof (induction es arbitrary: counts minW maxW)
  case (Cons e es)
  let ?w = "t_Truncate sz e" and ?c = "AList.update (t_Unix (t_Truncate sz e)) (gm_get 0 counts (t_Unix (t_Truncate sz e)) + 1) counts"
  have "bucketLoop sz False es ?c (if ?w < minW then ?w else minW) (if ?w > maxW then ?w else maxW) = (counts', lo, hi)"
    using Cons.prems by (simp add: Let_def)
  from Cons.IH [OF this] show ?case by (auto split: if_splits)
qed simp

lemma bucketLoop_first:
  assumes "bucketLoop sz True es [] 0 0 = (counts, lo, hi)" "es \<noteq> []"
  shows "gm_get 0 counts u = int (length (filter (\<lambda>e. t_Unix (t_Truncate sz e) = u) es))"
    "\<forall>e \<in> set es. lo \<le> t_Truncate sz e \<and> t_Truncate sz e \<le> hi" "lo \<in> t_Truncate sz ` set es" "hi \<in> t_Truncate sz ` set es"
proof -
  show "gm_get 0 counts u = int (length (filter (\<lambda>e. t_Unix (t_Truncate sz e) = u) es))"
    using bucketLoop_counts [OF assms(1)] by (simp add: gm_get_def)
  obtain e es' where es: "es = e # es'" using assms(2) by (cases es) auto
  then have "bucketLoop sz False es' (AList.update (t_Unix (t_Truncate sz e)) 1 []) (t_Truncate sz e) (t_Truncate sz e) = (counts, lo, hi)"
    using assms(1) by (simp add: Let_def gm_get_def)
  from bucketLoop_range [OF this] es
  show "\<forall>e \<in> set es. lo \<le> t_Truncate sz e \<and> t_Truncate sz e \<le> hi" "lo \<in> t_Truncate sz ` set es" "hi \<in> t_Truncate sz ` set es"
    by auto
qed

subsection \<open>The emit loop\<close>

lemma emitLoop_returns:
  assumes "\<forall>i < k. w + int i * sz \<le> hi" "hi < w + int k * sz"
  shows "emitLoop sz counts hi w = Some (map (\<lambda>i. (w + int i * sz, gm_get 0 counts (t_Unix (w + int i * sz)))) [0..<k])"
  using assms
proof (induction k arbitrary: w)
  case 0
  then show ?case by (subst emitLoop.simps) simp
next
  case (Suc k)
  have "\<forall>i < k. (w + sz) + int i * sz \<le> hi" using Suc.prems(1) by (auto simp: algebra_simps dest: spec [of _ "Suc _"])
  moreover have "hi < (w + sz) + int k * sz" using Suc.prems(2) by (simp add: algebra_simps)
  ultimately have IH: "emitLoop sz counts hi (w + sz)
      = Some (map (\<lambda>i. ((w + sz) + int i * sz, gm_get 0 counts (t_Unix ((w + sz) + int i * sz)))) [0..<k])" by (rule Suc.IH)
  have "[0..<Suc k] = 0 # map Suc [0..<k]" by (simp add: upt_conv_Cons map_Suc_upt del: upt_Suc)
  moreover have "\<not> hi < w" using Suc.prems(1) by (auto dest: spec [of _ 0])
  ultimately show ?case using IH by (subst emitLoop.simps) (simp add: algebra_simps del: upt_Suc)
qed

text \<open>The number of windows from the first to the last one.\<close>

lemma window_count:
  assumes "0 < sz" "lo \<le> hi"
  obtains k where "\<forall>i < k. lo + int i * sz \<le> hi" "hi < lo + int k * sz" "0 < k"
proof -
  define q where "q = (hi - lo) div sz"
  have q: "0 \<le> q" "q * sz \<le> hi - lo" "hi - lo < (q + 1) * sz"
    using assms pos_mod_bound [of sz "hi - lo"] by (simp_all add: q_def pos_imp_zdiv_nonneg_iff distrib_right minus_mod_eq_div_mult [symmetric])
  have "lo + int i * sz \<le> hi" if i: "i < nat (q + 1)" for i
  proof -
    have "int i \<le> q" using i q(1) by linarith
    then have "int i * sz \<le> q * sz" using assms(1) by (intro mult_right_mono) simp_all
    then show ?thesis using q(2) by linarith
  qed
  then show ?thesis using that [of "nat (q + 1)"] q(1,3) by simp
qed

text \<open>With a window size that is not positive the loop never passes the last window.\<close>

lemma emitLoop_diverges:
  assumes "sz \<le> 0" "w \<le> hi"
  shows "emitLoop sz counts hi w = None"
proof -
  have "sz \<le> 0 \<longrightarrow> w \<le> hi \<longrightarrow> False" if "emitLoop sz counts hi w = Some r" for r
    using that
  proof (induction rule: emitLoop.raw_induct [rotated, consumes 1])
    case (1 f sz counts hi w r)
    from 1(1) [of sz counts hi "w + sz"] 1(2) show ?case by (auto split: if_splits bind_splits)
  qed
  then show ?thesis using assms by (cases "emitLoop sz counts hi w") auto
qed


subsection \<open>Properties\<close>

text \<open>
  C34: The job returns exactly when there is no event or the window size is positive; with
  a window size of zero or less and an event it loops forever.
\<close>

theorem windows_terminate: "ProcessTumblingWindows events sz s = None \<longleftrightarrow> events \<noteq> [] \<and> sz \<le> 0"
proof (cases "events = []")
  case False
  obtain counts lo hi where b: "bucketLoop sz True events [] 0 0 = (counts, lo, hi)" by (metis prod_cases3)
  have le: "lo \<le> hi" using bucketLoop_first(2,3) [OF b False] by auto
  show ?thesis
  proof (cases "sz \<le> 0")
    case True
    then show ?thesis using emitLoop_diverges [OF True le] False b by (simp add: ProcessTumblingWindows_def windows_def)
  next
    case pos: False
    then obtain k where "\<forall>i < k. lo + int i * sz \<le> hi" "hi < lo + int k * sz" using window_count [of sz lo hi] le by auto
    then show ?thesis using emitLoop_returns [of k lo sz hi] False b pos
      by (simp add: ProcessTumblingWindows_def windows_def)
  qed
qed (simp add: ProcessTumblingWindows_def windows_def)

text \<open>A window is the interval of the times it is the truncation of.\<close>

lemma t_Truncate_iff:
  assumes "0 < sz" "w mod sz = 0"
  shows "t_Truncate sz e = w \<longleftrightarrow> w \<le> e \<and> e < w + sz"
proof
  assume "t_Truncate sz e = w"
  then show "w \<le> e \<and> e < w + sz" using assms(1) pos_mod_bound [of sz e] pos_mod_sign [of sz e] by (auto simp: t_Truncate_def)
next
  assume "w \<le> e \<and> e < w + sz"
  then have "(e - w) mod sz = e - w" by simp
  moreover have "(e - w) mod sz = e mod sz" using assms(2) by (metis diff_zero mod_diff_right_eq)
  ultimately show "t_Truncate sz e = w" using assms(1) by (simp add: t_Truncate_def)
qed

lemma t_Truncate_mod [simp]: "0 < sz \<Longrightarrow> t_Truncate sz e mod sz = 0"
  by (simp add: t_Truncate_def)

text \<open>The second of a whole-second window identifies it.\<close>

lemma t_Unix_inject:
  assumes "sz mod second = 0" "a mod sz = 0" "b mod sz = 0"
  shows "t_Unix a = t_Unix b \<longleftrightarrow> a = b"
proof -
  have "second dvd a" "second dvd b" using assms by (meson dvd_trans mod_0_imp_dvd)+
  then show ?thesis unfolding t_Unix_def by (metis add_right_cancel diff_add_cancel dvd_div_mult_self)
qed

lemma last_window:
  assumes "lo mod sz = 0" "hi mod sz = 0" "\<forall>i < k. lo + int i * sz \<le> hi" "hi < lo + int k * sz" "0 < k"
  shows "hi + sz = lo + int k * sz"
proof -
  obtain j where k: "k = Suc j" using assms(5) by (cases k) auto
  let ?d = "hi - (lo + int j * sz)"
  have "0 \<le> ?d" "?d < sz" using assms(3,4) k by (auto simp: distrib_right)
  moreover have "sz dvd ?d" using assms(1,2) by (intro dvd_diff dvd_add) auto
  ultimately have "?d = 0" by (metis dvd_imp_mod_0 mod_pos_pos_trivial)
  then show ?thesis using k by (simp add: distrib_right)
qed



text \<open>
  With windows shorter than a second the counts are wrong: two events half a second
  apart, in different windows, are both counted in both windows, because counts are kept
  by the second of the window start; the sink keeps one entry for the two windows.
\<close>

theorem short_windows_merge:
  "windows [100000000, 600000000] 500000000 = Some [(0, 2), (500000000, 2)]
    \<and> ProcessTumblingWindows [100000000, 600000000] 500000000 NewInMemorySink = Some [(t_Unix 0, 2)]"
  by code_simp

end
