(* ===== verification/Acl.thy ===== *)
theory Acl
  imports Replicated_Log
begin

text \<open>
  Access control: \<^verbatim>\<open>security/acl.go\<close>. The grants are the nested maps of the code, with
  \<open>gm_get []\<close> for the nil map of a missing key.
\<close>

definition PermRead :: int where
  "PermRead = 0"

definition PermWrite :: int where
  "PermWrite = 1"

type_synonym acl = "(string \<times> (int \<times> (int \<times> bool) list) list) list"

definition NewACL :: acl where
  "NewACL = []"

definition Grant :: "string \<Rightarrow> int \<Rightarrow> int \<Rightarrow> acl \<Rightarrow> acl" where
  "Grant identity part perm grants =
     (let parts = gm_get [] grants identity; perms = gm_get [] parts part in
      AList.update identity (AList.update part (AList.update perm True perms) parts) grants)"

definition Allowed :: "string \<Rightarrow> int \<Rightarrow> int \<Rightarrow> acl \<Rightarrow> bool" where
  "Allowed identity part perm grants =
     (case map_of (gm_get [] grants identity) part of None \<Rightarrow> False | Some perms \<Rightarrow> gm_get False perms perm)"

datatype 'e aerr = ErrUnauthorized | Underlying 'e

definition CheckedWrite :: "(bytes \<Rightarrow> berr + bytes) \<Rightarrow> int list \<Rightarrow> acl \<Rightarrow> string \<Rightarrow> int \<Rightarrow> int \<Rightarrow> bytes \<Rightarrow> int \<Rightarrow> int \<Rightarrow>
    (int \<times> command sevent list) list \<Rightarrow> 'k rsystem \<Rightarrow> ((perr aerr + int) option \<times> 'k rsystem) option" where
  "CheckedWrite gunzip ps grants identity part n payload ack now polls s =
     (if \<not> Allowed identity part PermWrite grants then Some (Some (Inl ErrUnauthorized), s)
      else map_option (\<lambda>(r, s'). (map_option (map_sum Underlying id) r, s')) (Write gunzip ps n payload ack now polls s))"

definition CheckedRead :: "acl \<Rightarrow> string \<Rightarrow> int \<Rightarrow> int \<Rightarrow> 'k rpart \<Rightarrow> (serr aerr + bytes) \<times> 'k rpart" where
  "CheckedRead grants identity part offset rp =
     (if \<not> Allowed identity part PermRead grants then (Inl ErrUnauthorized, rp)
      else (case ReadLocal offset rp of (r, rp') \<Rightarrow> (map_sum Underlying id r, rp')))"

lemma Allowed_get: "Allowed i p q grants = gm_get False (gm_get [] (gm_get [] grants i) p) q"
  by (cases "map_of (gm_get [] grants i) p") (simp_all add: Allowed_def gm_get_def [of _ "gm_get [] grants i"] gm_get_def [of _ "[]"])

lemma Allowed_Grant:
  "Allowed i p q (Grant i' p' q' grants) \<longleftrightarrow> i = i' \<and> p = p' \<and> q = q' \<or> Allowed i p q grants"
  by (simp add: Allowed_get Grant_def Let_def)

lemma Allowed_grants:
  "Allowed i p q (fold (\<lambda>(i, p, q). Grant i p q) gs grants) \<longleftrightarrow> (i, p, q) \<in> set gs \<or> Allowed i p q grants"
proof (induction gs arbitrary: grants)
  case (Cons g gs)
  obtain i' p' q' where "g = (i', p', q')" by (rule prod_cases3)
  then show ?case using Cons by (simp add: Allowed_Grant disj_ac)
qed simp

lemma Allowed_New: "\<not> Allowed i p q NewACL"
  by (simp add: Allowed_def NewACL_def gm_get_def)

text \<open>
  Deny by default: after any sequence of grants exactly the granted triples are
  allowed. Without the write grant a checked write is refused and proposes nothing, and
  without the read grant a checked read is refused, whatever else the identity may do.
\<close>

theorem acl_exact:
  assumes "grants = fold (\<lambda>(i, p, q). Grant i p q) gs NewACL"
  shows "(Allowed i p q grants \<longleftrightarrow> (i, p, q) \<in> set gs)
    \<and> ((i, p, PermWrite) \<notin> set gs \<longrightarrow>
        CheckedWrite gunzip ps grants i p n payload ack now polls s = Some (Some (Inl ErrUnauthorized), s))
    \<and> ((i, p, PermRead) \<notin> set gs \<longrightarrow> CheckedRead grants i p x rp = (Inl ErrUnauthorized, rp))"
  using assms by (auto simp: Allowed_grants Allowed_New CheckedWrite_def CheckedRead_def)

theorem acl_exact_witness:
  "Allowed ''ann'' 1 PermWrite (Grant ''ann'' 1 PermWrite NewACL) \<and> \<not> Allowed ''ann'' 2 PermWrite (Grant ''ann'' 1 PermWrite NewACL)
    \<and> CheckedRead (Grant ''ann'' 1 PermWrite NewACL) ''ann'' 1 0 fresh_rp = (Inl ErrUnauthorized, fresh_rp)"
proof -
  let ?g = "Grant ''ann'' 1 PermWrite NewACL"
  have g: "?g = fold (\<lambda>(i, p, q). Grant i p q) [(''ann'', 1, PermWrite)] NewACL" by simp
  have "Allowed ''ann'' 1 PermWrite ?g" "\<not> Allowed ''ann'' 2 PermWrite ?g"
    using conjunct1 [OF acl_exact [OF g, of "''ann''" 1 PermWrite]] conjunct1 [OF acl_exact [OF g, of "''ann''" 2 PermWrite]] by simp_all
  moreover have "CheckedRead ?g ''ann'' 1 0 fresh_rp = (Inl ErrUnauthorized, fresh_rp)"
    using conjunct2 [OF conjunct2 [OF acl_exact [OF g, of "''ann''" 1]]] by (simp add: PermWrite_def PermRead_def)
  ultimately show ?thesis by simp
qed

end
