(* ===== verification/Schema.thy ===== *)
theory Schema
  imports Acl Complex_Main
begin

text \<open>
  Schemas: \<^verbatim>\<open>schema/schema.go\<close> and \<^verbatim>\<open>schema/registry.go\<close>. The JSON decoder (\<open>unmj\<close>) is an
  argument; a decoded value is a string, a number (a finite \<^verbatim>\<open>float64\<close>, as a rational), a
  boolean or something else. A map is an association list in the order an iteration takes.
\<close>

subsection \<open>Schemas\<close>

definition TypeString :: string where
  "TypeString = ''string''"

definition TypeInteger :: string where
  "TypeInteger = ''integer''"

definition TypeNumber :: string where
  "TypeNumber = ''number''"

definition TypeBoolean :: string where
  "TypeBoolean = ''boolean''"

lemmas type_defs = TypeString_def TypeInteger_def TypeNumber_def TypeBoolean_def

record Field =
  fType :: string
  fRequired :: bool

type_synonym schema = "(string \<times> Field) list"

datatype jval = JString string | JNumber rat | JBool bool | JOther

datatype verr = InvalidJSON | MissingRequired string | MustBeString string | MustBeInteger string
| MustBeNumber string | MustBeBoolean string | UnknownType string string

definition math_Trunc :: "rat \<Rightarrow> rat" where
  "math_Trunc x = (if x \<ge> 0 then of_int \<lfloor>x\<rfloor> else of_int \<lceil>x\<rceil>)"

definition checkType :: "string \<Rightarrow> string \<Rightarrow> jval \<Rightarrow> verr option" where
  "checkType name want val =
     (if want = TypeString then (case val of JString _ \<Rightarrow> None | _ \<Rightarrow> Some (MustBeString name))
      else if want = TypeInteger then
        (case val of JNumber num \<Rightarrow> if num \<noteq> math_Trunc num then Some (MustBeInteger name) else None
         | _ \<Rightarrow> Some (MustBeInteger name))
      else if want = TypeNumber then (case val of JNumber _ \<Rightarrow> None | _ \<Rightarrow> Some (MustBeNumber name))
      else if want = TypeBoolean then (case val of JBool _ \<Rightarrow> None | _ \<Rightarrow> Some (MustBeBoolean name))
      else Some (UnknownType want name))"

fun validateLoop :: "(string \<times> jval) list \<Rightarrow> schema \<Rightarrow> verr option" where
  "validateLoop doc [] = None"
| "validateLoop doc ((name, field) # fs) =
     (case map_of doc name of
        None \<Rightarrow> if fRequired field then Some (MissingRequired name) else validateLoop doc fs
      | Some val \<Rightarrow> (case checkType name (fType field) val of Some e \<Rightarrow> Some e | None \<Rightarrow> validateLoop doc fs))"

definition Validate :: "(bytes \<Rightarrow> (string \<times> jval) list option) \<Rightarrow> schema \<Rightarrow> bytes \<Rightarrow> verr option" where
  "Validate unmj s docJSON = (case unmj docJSON of None \<Rightarrow> Some InvalidJSON | Some doc \<Rightarrow> validateLoop doc s)"

definition typeWidenedOrSame :: "string \<Rightarrow> string \<Rightarrow> bool" where
  "typeWidenedOrSame oldType newType = (if oldType = newType then True else oldType = TypeInteger \<and> newType = TypeNumber)"

datatype reason = RequiredRemoved string | Narrowed string string string | NewRequired string

fun oldLoop :: "schema \<Rightarrow> schema \<Rightarrow> reason option" where
  "oldLoop new [] = None"
| "oldLoop new ((name, oldField) # fs) =
     (case map_of new name of
        None \<Rightarrow> if fRequired oldField then Some (RequiredRemoved name) else oldLoop new fs
      | Some newField \<Rightarrow>
          if \<not> typeWidenedOrSame (fType oldField) (fType newField)
          then Some (Narrowed name (fType oldField) (fType newField)) else oldLoop new fs)"

fun newLoop :: "schema \<Rightarrow> schema \<Rightarrow> reason option" where
  "newLoop old [] = None"
| "newLoop old ((name, newField) # fs) =
     (if \<not> fRequired newField then newLoop old fs
      else (case map_of old name of None \<Rightarrow> Some (NewRequired name) | Some _ \<Rightarrow> newLoop old fs))"

text \<open>\<^verbatim>\<open>IsCompatible\<close>: the reason against the change, \<^const>\<open>None\<close> for \<^verbatim>\<open>true\<close>.\<close>

definition IsCompatible :: "schema \<Rightarrow> schema \<Rightarrow> reason option" where
  "IsCompatible old new = (case oldLoop new old of Some r \<Rightarrow> Some r | None \<Rightarrow> newLoop old new)"

subsection \<open>The registry\<close>

type_synonym registry = "(int \<times> schema) list"

definition NewRegistry :: registry where
  "NewRegistry = []"

definition Register :: "int \<Rightarrow> schema \<Rightarrow> registry \<Rightarrow> reason option \<times> registry" where
  "Register part s r =
     (case map_of r part of
        Some existing \<Rightarrow> (case IsCompatible existing s of Some e \<Rightarrow> (Some e, r) | None \<Rightarrow> (None, AList.update part s r))
      | None \<Rightarrow> (None, AList.update part s r))"

definition CurrentSchema :: "int \<Rightarrow> registry \<Rightarrow> schema option" where
  "CurrentSchema part r = map_of r part"

definition sc_CheckedWrite :: "(bytes \<Rightarrow> (string \<times> jval) list option) \<Rightarrow> (bytes \<Rightarrow> berr + bytes) \<Rightarrow> int list \<Rightarrow> registry \<Rightarrow> acl \<Rightarrow>
    string \<Rightarrow> int \<Rightarrow> int \<Rightarrow> bytes \<Rightarrow> int \<Rightarrow> int \<Rightarrow> (int \<times> command sevent list) list \<Rightarrow> 'k rsystem \<Rightarrow>
    ((verr + perr aerr + int) option \<times> 'k rsystem) option" where
  "sc_CheckedWrite unmj gunzip ps reg grants identity part n docJSON ack now polls s =
     (case (case CurrentSchema part reg of Some sc \<Rightarrow> Validate unmj sc docJSON | None \<Rightarrow> None) of
        Some e \<Rightarrow> Some (Some (Inl e), s)
      | None \<Rightarrow> map_option (\<lambda>(r, s'). (map_option Inr r, s'))
          (CheckedWrite gunzip ps grants identity part n docJSON ack now polls s))"

subsection \<open>What the loops decide\<close>

definition field_ok :: "(string \<times> jval) list \<Rightarrow> string \<Rightarrow> Field \<Rightarrow> bool" where
  "field_ok doc name field \<longleftrightarrow>
     (case map_of doc name of None \<Rightarrow> \<not> fRequired field | Some val \<Rightarrow> checkType name (fType field) val = None)"

lemma validateLoop_iff: "validateLoop doc s = None \<longleftrightarrow> (\<forall>(name, field) \<in> set s. field_ok doc name field)"
proof (induction s)
  case (Cons x s)
  then show ?case by (cases x, cases "map_of doc (fst x)") (simp_all add: field_ok_def split: option.splits)
qed simp

lemma oldLoop_iff:
  "oldLoop new s = None \<longleftrightarrow> (\<forall>(name, oldField) \<in> set s.
     case map_of new name of None \<Rightarrow> \<not> fRequired oldField | Some f \<Rightarrow> typeWidenedOrSame (fType oldField) (fType f))"
proof (induction s)
  case (Cons x s)
  then show ?case by (cases x, cases "map_of new (fst x)") simp_all
qed simp

lemma newLoop_iff: "newLoop old s = None \<longleftrightarrow> (\<forall>(name, f) \<in> set s. fRequired f \<longrightarrow> map_of old name \<noteq> None)"
proof (induction s)
  case (Cons x s)
  then show ?case by (cases x, cases "map_of old (fst x)") simp_all
qed simp

lemma widened_checkType:
  assumes "typeWidenedOrSame t t'" "checkType name t v = None"
  shows "checkType name t' v = None"
  using assms by (auto simp: typeWidenedOrSame_def checkType_def type_defs split: if_splits jval.splits)

text \<open>The outcome of a validation does not depend on the order in which the fields are visited.\<close>

lemma Validate_order:
  assumes "set s = set s'"
  shows "Validate unmj s doc = None \<longleftrightarrow> Validate unmj s' doc = None"
  using assms by (simp add: Validate_def validateLoop_iff split: option.splits)

subsection \<open>Properties\<close>

text \<open>
  C31: A compatible schema change keeps documents valid: a document with fields of the old
  schema only that is valid under it is valid under the new schema, if the change makes no
  optional field required. It does not matter in which order the maps are visited.
\<close>

theorem compatible_keeps_valid:
  assumes "IsCompatible old new = None" "Validate unmj old docJSON = None" "unmj docJSON = Some doc"
    and "distinct (map fst old)" "distinct (map fst new)"
    and "\<And>name v. map_of doc name = Some v \<Longrightarrow> map_of old name \<noteq> None"
    and "\<And>name f g. map_of old name = Some f \<Longrightarrow> map_of new name = Some g \<Longrightarrow> fRequired g \<Longrightarrow> fRequired f"
  shows "Validate unmj new docJSON = None"
proof -
  have o: "oldLoop new old = None" "newLoop old new = None" using assms(1) by (simp_all add: IsCompatible_def split: option.splits)
  have "field_ok doc name g" if ng: "(name, g) \<in> set new" for name g
  proof (cases "map_of doc name")
    case None
    have "\<not> fRequired g"
    proof
      assume r: "fRequired g"
      then obtain f where f: "map_of old name = Some f" using o(2) ng unfolding newLoop_iff by fastforce
      then have "fRequired f" using assms(5,7) ng r by simp
      moreover have "field_ok doc name f"
        using assms(2,3) map_of_SomeD [OF f] by (auto simp: Validate_def validateLoop_iff)
      ultimately show False using None by (simp add: field_ok_def)
    qed
    then show ?thesis using None by (simp add: field_ok_def)
  next
    case (Some v)
    then obtain f where f: "map_of old name = Some f" using assms(6) by blast
    then have "(name, f) \<in> set old" by (rule map_of_SomeD)
    moreover have "map_of new name = Some g" using assms(5) ng by simp
    ultimately have "typeWidenedOrSame (fType f) (fType g)" "checkType name (fType f) v = None"
      using o(1) assms(2,3) Some by (auto simp: oldLoop_iff Validate_def validateLoop_iff field_ok_def)
    then show ?thesis using widened_checkType Some by (simp add: field_ok_def)
  qed
  then show ?thesis using assms(3) by (auto simp: Validate_def validateLoop_iff)
qed

definition field :: "string \<Rightarrow> bool \<Rightarrow> Field" where
  "field t r = \<lparr>fType = t, fRequired = r\<rparr>"

definition demo_unmj :: "bytes \<Rightarrow> (string \<times> jval) list option" where
  "demo_unmj d = (if d = [] then Some [] else if d = [1] then Some [(''n'', JNumber 3)] else None)"

theorem compatible_keeps_valid_witness:
  "Validate demo_unmj [(''n'', field TypeNumber True), (''m'', field TypeString False)] [1] = None"
proof (rule compatible_keeps_valid)
  show "IsCompatible [(''n'', field TypeInteger True)] [(''n'', field TypeNumber True), (''m'', field TypeString False)] = None"
    by (simp add: IsCompatible_def field_def typeWidenedOrSame_def)
  show "Validate demo_unmj [(''n'', field TypeInteger True)] [1] = None"
    by (simp add: Validate_def demo_unmj_def field_def checkType_def type_defs math_Trunc_def)
  show "demo_unmj [1] = Some [(''n'', JNumber 3)]" by (simp add: demo_unmj_def)
qed (auto simp: field_def split: if_splits)

text \<open>
  The registry accepts a change that invalidates stored documents: an optional field may
  become required. The document without it was valid before and is not after, although
  the change was registered as compatible.
\<close>

theorem optional_to_required_accepted:
  "(let old = [(''n'', field TypeInteger False)]; new = [(''n'', field TypeInteger True)];
        r = snd (Register 7 old NewRegistry) in
    Validate demo_unmj old [] = None \<and> Register 7 new r = (None, [(7, new)])
    \<and> Validate demo_unmj new [] = Some (MissingRequired ''n''))"
  by (simp add: Let_def Register_def NewRegistry_def IsCompatible_def Validate_def demo_unmj_def field_def typeWidenedOrSame_def)

text \<open>
  C32: Writes through the registry and the access list: if a checked write changes anything,
  the identity has the write grant for the partition and the payload is valid under the
  current schema of the partition; otherwise the call fails and nothing is proposed.
\<close>

theorem checked_write_guarded:
  assumes "sc_CheckedWrite unmj gunzip ps reg grants identity part n docJSON ack now polls s = Some (r, s')"
    and "s' \<noteq> s \<or> (\<exists>i. r = Some (Inr (Inr i)))"
  shows "Allowed identity part PermWrite grants
    \<and> (\<forall>sc. CurrentSchema part reg = Some sc \<longrightarrow> Validate unmj sc docJSON = None)
    \<and> (\<exists>r'. Write gunzip ps n docJSON ack now polls s = Some (r', s'))"
  using assms by (auto simp: sc_CheckedWrite_def CheckedWrite_def split: option.splits if_splits)

theorem checked_write_guarded_witness:
  "sc_CheckedWrite demo_unmj no_gunzip demo_servers [] (Grant ''ann'' 1 PermWrite NewACL) ''ann'' 1 0 [7] AckAll 0 write_polls led_system
      = Some (Some (Inr (Inr 2)), acked_system)
    \<and> Allowed ''ann'' 1 PermWrite (Grant ''ann'' 1 PermWrite NewACL)"
proof -
  let ?g = "Grant ''ann'' 1 PermWrite NewACL"
  have "sc_CheckedWrite demo_unmj no_gunzip demo_servers [] ?g ''ann'' 1 0 [7] AckAll 0 write_polls led_system
      = Some (Some (Inr (Inr 2)), acked_system)"
    using acked_run by (simp add: sc_CheckedWrite_def CurrentSchema_def CheckedWrite_def Allowed_Grant)
  then show ?thesis using checked_write_guarded by blast
qed

end
