(* ===== verification/Observability.thy ===== *)
theory Observability
  imports Replicated_Log
begin

text \<open>
  Metrics and the dashboard: \<^verbatim>\<open>metrics/instrumented.go\<close> and \<^verbatim>\<open>dashboard/server.go\<close>. The
  Prometheus vectors are a state of any type with the operations \<open>observe\<close>, \<open>inc\<close> and \<open>setg\<close>
  as arguments; the JSON encoding and the HTTP server are left out.
\<close>

subsection \<open>Metrics\<close>

definition ackLevelName :: "int \<Rightarrow> string" where
  "ackLevelName ack =
     (if ack = AckNone then ''ack=0'' else if ack = AckLeader then ''ack=1'' else if ack = AckAll then ''ack=all'' else ''unknown'')"

definition InstrumentedWrite :: "(string \<Rightarrow> int \<Rightarrow> 'm \<Rightarrow> 'm) \<Rightarrow> (string \<Rightarrow> string \<Rightarrow> 'm \<Rightarrow> 'm) \<Rightarrow> (bytes \<Rightarrow> berr + bytes) \<Rightarrow> int list \<Rightarrow>
    int \<Rightarrow> bytes \<Rightarrow> int \<Rightarrow> int \<Rightarrow> int \<Rightarrow> (int \<times> command sevent list) list \<Rightarrow> 'm \<Rightarrow> 'k rsystem \<Rightarrow>
    ((perr + int) option \<times> 'm \<times> 'k rsystem) option" where
  "InstrumentedWrite observe inc gunzip ps n payload ack start stop polls m s = do {
     let ackName = ackLevelName ack;
     (r, s') \<leftarrow> Write gunzip ps n payload ack start polls s;
     Some (r, (case r of
                 None \<Rightarrow> m
               | Some res \<Rightarrow> inc ackName (case res of Inl _ \<Rightarrow> ''failure'' | Inr _ \<Rightarrow> ''success'') (observe ackName (stop - start) m)), s')
   }"

definition SampleLeaderStatus :: "(string \<Rightarrow> int \<Rightarrow> 'm \<Rightarrow> 'm) \<Rightarrow> string \<Rightarrow> int \<Rightarrow> 'k rsystem \<Rightarrow> 'm \<Rightarrow> 'm" where
  "SampleLeaderStatus setg nodeName n s m = (let (_, isLeader) = rp_GetState n s in setg nodeName (if isLeader then 1 else 0) m)"

definition RecordConsumerLag :: "(string \<Rightarrow> string \<Rightarrow> int \<Rightarrow> 'm \<Rightarrow> 'm) \<Rightarrow> string \<Rightarrow> string \<Rightarrow> int \<Rightarrow> int \<Rightarrow> 'm \<Rightarrow> 'm" where
  "RecordConsumerLag setg grp consumer latestOffset lastReadOffset m =
     (let lag = latestOffset - lastReadOffset; lag = (if lag < 0 then 0 else lag) in setg grp consumer lag m)"

text \<open>The wrapper returns what the producer returns, on the same system.\<close>

lemma InstrumentedWrite_Write:
  "map_option (\<lambda>(r, m, s). (r, s)) (InstrumentedWrite observe inc gunzip ps n payload ack start stop polls m s)
     = Write gunzip ps n payload ack start polls s"
  by (cases "Write gunzip ps n payload ack start polls s") (auto simp: InstrumentedWrite_def Let_def)

subsection \<open>The dashboard\<close>

record NodeStatus =
  nsIndex :: nat
  nsTerm :: int
  nsIsLeader :: bool

text \<open>
  The loop of \<^verbatim>\<open>handleStatus\<close> over the nodes \<open>ns\<close>, from index \<open>i\<close> on. The nodes are asked one
  after the other: \<open>evs i\<close> is what the cluster does between two of the calls.
\<close>

fun handleStatus :: "int list \<Rightarrow> (nat \<Rightarrow> 'c event list) \<Rightarrow> nat \<Rightarrow> int list \<Rightarrow> 'c cluster \<Rightarrow> NodeStatus list option" where
  "handleStatus ps evs i [] s = Some []"
| "handleStatus ps evs i (n # ns) s = do {
     let (term, isLeader) = GetState (cNodes s n);
     s' \<leftarrow> crun ps (evs i) s;
     rest \<leftarrow> handleStatus ps evs (i + 1) ns s';
     Some (\<lparr>nsIndex = i, nsTerm = term, nsIsLeader = isLeader\<rparr> # rest)
   }"

text \<open>A leader in the report is the leader of its term in the protocol state at the end.\<close>

lemma handleStatus_leads:
  assumes "distinct ps" "\<forall>p \<in> set ps. 0 \<le> p"
  shows "sim ps s a \<Longrightarrow> handleStatus ps evs i ns s = Some st \<Longrightarrow>
    \<exists>b. pext a b \<and> pinv (set ps) b \<and> (\<forall>x \<in> set st. i \<le> nsIndex x \<and> nsIndex x < i + length ns
      \<and> (nsIsLeader x \<longrightarrow> pLead b (nsTerm x) = Some (ns ! (nsIndex x - i))))"
proof (induction ns arbitrary: i s a st)
  case Nil
  then show ?case by (intro exI [of _ a]) (simp add: sim_def pext_def)
next
  case (Cons n ns)
  obtain s' rest where r: "crun ps (evs i) s = Some s'" "handleStatus ps evs (i + 1) ns s' = Some rest"
      "st = \<lparr>nsIndex = i, nsTerm = currentTerm (cNodes s n), nsIsLeader = (rstate (cNodes s n) = Leader)\<rparr> # rest"
    using Cons.prems(2) by (auto simp: GetState_def split: bind_splits)
  obtain a' where a': "(pstep (set ps))\<^sup>*\<^sup>* a a'" "sim ps s' a'"
    using crun_sim [OF assms Cons.prems(1), of "evs i"] r(1) by auto
  obtain b where b: "pext a' b" "pinv (set ps) b" "\<forall>x \<in> set rest. i + 1 \<le> nsIndex x \<and> nsIndex x < i + 1 + length ns
      \<and> (nsIsLeader x \<longrightarrow> pLead b (nsTerm x) = Some (ns ! (nsIndex x - (i + 1))))"
    using Cons.IH [OF a'(2) r(2)] by blast
  have "pext a a'" using psteps_inv [OF a'(1)] Cons.prems(1) by (simp add: sim_def)
  then have ab: "pext a b" using b(1) by (rule pext_trans)
  have "pLead b (pTerm a n) = Some n" if "rstate (cNodes s n) = Leader"
    using sim_node(4) [OF Cons.prems(1), of n] that ab by (auto simp: pext_def)
  then have "\<forall>x \<in> set st. i \<le> nsIndex x \<and> nsIndex x < i + length (n # ns)
      \<and> (nsIsLeader x \<longrightarrow> pLead b (nsTerm x) = Some ((n # ns) ! (nsIndex x - i)))"
    using b(3) sim_node(2) [OF Cons.prems(1), of n] unfolding r(3) by (auto simp: nth_Cons' Suc_le_eq)
  then show ?case using ab b(2) by blast
qed

text \<open>
  The dashboard never reports two leaders of the same term, although it asks the nodes
  one after the other while the cluster runs on: two entries of one response that are
  leaders in the same term are the same entry.
\<close>

theorem status_one_leader_per_term:
  fixes s :: "'c cluster"
  assumes "distinct ps" "\<forall>p \<in> set ps. 0 \<le> p" "crun ps evs0 (Make_cluster ps ds) = Some s"
    and "distinct ns" "handleStatus ps evs 0 ns s = Some st" "x \<in> set st" "y \<in> set st"
    and "nsIsLeader x" "nsIsLeader y" "nsTerm x = nsTerm y"
  shows "nsIndex x = nsIndex y"
proof -
  obtain a where a: "sim ps s a" using crun_sim [OF assms(1,2) sim_init, of evs0 ds] assms(3) by auto
  from handleStatus_leads [OF assms(1,2) a assms(5)] obtain b :: "'c pstate" where b:
    "\<forall>x \<in> set st. 0 \<le> nsIndex x \<and> nsIndex x < 0 + length ns \<and> (nsIsLeader x \<longrightarrow> pLead b (nsTerm x) = Some (ns ! (nsIndex x - 0)))"
    by blast
  have "nsIndex x < length ns" "nsIndex y < length ns" "ns ! nsIndex x = ns ! nsIndex y"
    using bspec [OF b assms(6)] bspec [OF b assms(7)] assms(8-10) by simp_all
  then show ?thesis using assms(4) by (simp add: nth_eq_iff_index_eq)
qed


theorem status_one_leader_per_term_witness:
  "handleStatus [0, 1, 2] (\<lambda>_. []) 0 [0, 1, 2] demo_mid
      = Some [\<lparr>nsIndex = 0, nsTerm = 1, nsIsLeader = True\<rparr>, \<lparr>nsIndex = 1, nsTerm = 1, nsIsLeader = False\<rparr>,
          \<lparr>nsIndex = 2, nsTerm = 0, nsIsLeader = False\<rparr>]
    \<and> (\<forall>y \<in> set [\<lparr>nsIndex = 0, nsTerm = 1, nsIsLeader = True\<rparr>, \<lparr>nsIndex = 1, nsTerm = 1, nsIsLeader = False\<rparr>,
          \<lparr>nsIndex = 2, nsTerm = 0, nsIsLeader = False\<rparr>]. nsIsLeader y \<longrightarrow> nsTerm y = 1 \<longrightarrow> nsIndex y = 0)"
proof
  let ?st = "[\<lparr>nsIndex = 0, nsTerm = 1, nsIsLeader = True\<rparr>, \<lparr>nsIndex = 1, nsTerm = 1, nsIsLeader = False\<rparr>,
      \<lparr>nsIndex = 2, nsTerm = 0, nsIsLeader = False\<rparr>]"
  show h: "handleStatus [0, 1, 2] (\<lambda>_. []) 0 [0, 1, 2] demo_mid = Some ?st" by code_simp
  show "\<forall>y \<in> set ?st. nsIsLeader y \<longrightarrow> nsTerm y = 1 \<longrightarrow> nsIndex y = 0"
  proof (intro ballI impI)
    fix y assume y: "y \<in> set ?st" "nsIsLeader y" "nsTerm y = 1"
    have "nsIndex y = nsIndex \<lparr>nsIndex = 0, nsTerm = 1, nsIsLeader = True\<rparr>"
      by (rule status_one_leader_per_term [OF _ _ demo_run(1) _ h y(1)]) (use y(2,3) in simp_all)
    then show "nsIndex y = 0" by simp
  qed
qed

end
