(* ===== verification/Rest_Api.thy ===== *)
theory Rest_Api
  imports Replicated_Docs
begin

text \<open>
  The REST layer over a replicated document store: \<^verbatim>\<open>api/rest.go\<close>. The JSON codec is given by
  the decoder of a request body (\<open>jdec\<close>, whose value \<open>Some None\<close> is the nil map of a \<^verbatim>\<open>null\<close>
  body), the encoder of a document (\<open>mar\<close>), the value of a string (\<open>jstr\<close>) and the encoder
  of transactions (\<open>encT\<close>), all arguments. A handler's value is \<^const>\<open>None\<close> for a panic; its
  response is \<^const>\<open>None\<close> while the call waits. The routing of \<^verbatim>\<open>http.ServeMux\<close> is left out.
\<close>

subsection \<open>Responses\<close>

datatype 'v rbody = Empty | ErrMsg | DocBody "'v document" | DocsBody "'v document list"

record 'v response =
  rStatus :: int
  rBody :: "'v rbody"

abbreviation resp :: "int \<Rightarrow> 'v rbody \<Rightarrow> 'v response" where
  "resp st b \<equiv> \<lparr>rStatus = st, rBody = b\<rparr>"

subsection \<open>Handlers\<close>

text \<open>\<^verbatim>\<open>propose\<close>: no error, or the error with its status.\<close>

definition rest_propose :: "('k, 'v) loop \<Rightarrow> (mutation list \<Rightarrow> 'e + bytes) \<Rightarrow> int list \<Rightarrow> int \<Rightarrow> mutation list \<Rightarrow> int \<Rightarrow>
    (int \<times> command sevent list) list \<Rightarrow> ('k, 'v) dsystem \<Rightarrow> (int option option \<times> ('k, 'v) dsystem) option" where
  "rest_propose ap encT ps n muts now polls s = do {
     (r, s1) \<leftarrow> ds_Propose encT n muts s;
     case r of
       Inl e \<Rightarrow> Some (Some (Some 500), s1)
     | Inr (i, isLeader) \<Rightarrow>
         if \<not> isLeader then Some (Some (Some 503), s1)
         else do {
           (w, s2) \<leftarrow> ds_WaitApplied ap ps n i now (2 * 1000000000) polls s1;
           Some (map_option (\<lambda>applied. if applied then None else Some 504) w, s2)
         }
   }"

text \<open>A response of the given status for no error, of the error's status otherwise.\<close>

definition finish :: "int \<Rightarrow> int option option \<Rightarrow> 'v response option" where
  "finish ok r = map_option (\<lambda>e. case e of None \<Rightarrow> resp ok Empty | Some st \<Rightarrow> resp st ErrMsg) r"

definition putDoc :: "('k, 'v) loop \<Rightarrow> (mutation list \<Rightarrow> 'e + bytes) \<Rightarrow> (bytes \<Rightarrow> 'v document option) \<Rightarrow> ((string \<times> 'v) list \<Rightarrow> bytes option) \<Rightarrow>
    (string \<Rightarrow> 'v) \<Rightarrow> int list \<Rightarrow> int \<Rightarrow> bytes \<Rightarrow> string \<Rightarrow> int \<Rightarrow> (int \<times> command sevent list) list \<Rightarrow> ('k, 'v) dsystem \<Rightarrow>
    ('v response option \<times> ('k, 'v) dsystem) option" where
  "putDoc ap encT jdec mar jstr ps n rbody k now polls s =
     (case jdec rbody of
        None \<Rightarrow> Some (Some (resp 400 ErrMsg), s)
      | Some None \<Rightarrow> None
      | Some (Some m) \<Rightarrow>
          (case mar (AList.update ''_id'' (jstr k) m) of
             None \<Rightarrow> Some (Some (resp 500 ErrMsg), s)
           | Some data \<Rightarrow> do {
               (r, s') \<leftarrow> rest_propose ap encT ps n [\<lparr>mOp = ''put'', mID = k, mData = data, mExpected = None\<rparr>] now polls s;
               Some (finish 200 r, s')
             }))"

text \<open>A snapshot is taken and then read; \<open>evs\<close> is what happens in between.\<close>

definition getDoc :: "('k, 'v) loop \<Rightarrow> int list \<Rightarrow> int \<Rightarrow> string \<Rightarrow> command sevent list \<Rightarrow> ('k, 'v) dsystem \<Rightarrow>
    ('v response option \<times> ('k, 'v) dsystem) option" where
  "getDoc ap ps n k evs s = do {
     let at = ds_Snapshot (sReps s n);
     s' \<leftarrow> srun ap ps evs s;
     Some (Some (case snap_Get (dsStore (sReps s' n)) at k of None \<Rightarrow> resp 404 ErrMsg | Some doc \<Rightarrow> resp 200 (DocBody doc)), s')
   }"

definition deleteDoc :: "('k, 'v) loop \<Rightarrow> (mutation list \<Rightarrow> 'e + bytes) \<Rightarrow> int list \<Rightarrow> int \<Rightarrow> string \<Rightarrow> command sevent list \<Rightarrow> int \<Rightarrow>
    (int \<times> command sevent list) list \<Rightarrow> ('k, 'v) dsystem \<Rightarrow> ('v response option \<times> ('k, 'v) dsystem) option" where
  "deleteDoc ap encT ps n k evs now polls s = do {
     let at = ds_Snapshot (sReps s n);
     s' \<leftarrow> srun ap ps evs s;
     case snap_Get (dsStore (sReps s' n)) at k of
       None \<Rightarrow> Some (Some (resp 404 ErrMsg), s')
     | Some _ \<Rightarrow> do {
         (r, s2) \<leftarrow> rest_propose ap encT ps n [\<lparr>mOp = ''delete'', mID = k, mData = [], mExpected = None\<rparr>] now polls s';
         Some (finish 204 r, s2)
       }
   }"

definition TrimPrefix :: "string \<Rightarrow> string \<Rightarrow> string" where
  "TrimPrefix s pre = (if take (length pre) s = pre then drop (length pre) s else s)"

definition handleDoc :: "('k, 'v) loop \<Rightarrow> (mutation list \<Rightarrow> 'e + bytes) \<Rightarrow> (bytes \<Rightarrow> 'v document option) \<Rightarrow> ((string \<times> 'v) list \<Rightarrow> bytes option) \<Rightarrow>
    (string \<Rightarrow> 'v) \<Rightarrow> int list \<Rightarrow> int \<Rightarrow> string \<Rightarrow> string \<Rightarrow> bytes \<Rightarrow> command sevent list \<Rightarrow> int \<Rightarrow> (int \<times> command sevent list) list \<Rightarrow>
    ('k, 'v) dsystem \<Rightarrow> ('v response option \<times> ('k, 'v) dsystem) option" where
  "handleDoc ap encT jdec mar jstr ps n httpMethod path rbody evs now polls s =
     (let k = TrimPrefix path ''/docs/'' in
      if k = [] then Some (Some (resp 400 ErrMsg), s)
      else if httpMethod = ''PUT'' then putDoc ap encT jdec mar jstr ps n rbody k now polls s
      else if httpMethod = ''GET'' then getDoc ap ps n k evs s
      else if httpMethod = ''DELETE'' then deleteDoc ap encT ps n k evs now polls s
      else Some (Some (resp 405 ErrMsg), s))"

text \<open>
  \<^verbatim>\<open>handleDocs\<close> with the parsed query, in the order an iteration over it takes. The store
  \<open>st j\<close> is the one the \<open>j\<close>-th read of the query or scan sees, \<open>st' j\<close> that of the \<open>j\<close>-th read of
  the loop after it.
\<close>

fun firstValue :: "(string \<times> string list) list \<Rightarrow> string option" where
  "firstValue [] = None"
| "firstValue ((_, values) # q) = (if values \<noteq> [] then Some (hd values) else firstValue q)"

fun docsLoop :: "(nat \<Rightarrow> 'v mstore) \<Rightarrow> nat \<Rightarrow> int \<Rightarrow> string list \<Rightarrow> 'v document list" where
  "docsLoop st j at [] = []"
| "docsLoop st j at (k # ks) =
     (case snap_Get (st j) at k of Some doc \<Rightarrow> doc # docsLoop st (j + 1) at ks | None \<Rightarrow> docsLoop st (j + 1) at ks)"

definition handleDocs :: "('v option \<Rightarrow> string) \<Rightarrow> string \<Rightarrow> (string \<times> string list) list \<Rightarrow> 'v mstore \<Rightarrow> (nat \<Rightarrow> 'v mstore) \<Rightarrow>
    (nat \<Rightarrow> 'v mstore) \<Rightarrow> 'v response" where
  "handleDocs fmtv httpMethod query store st st' =
     (if httpMethod \<noteq> ''GET'' then resp 405 ErrMsg
      else
        (let at = Snapshot store;
             ks = (if query \<noteq> [] then (case firstValue query of Some v \<Rightarrow> QueryByIndex fmtv (st 0) (\<lambda>j. st (j + 1)) at v | None \<Rightarrow> [])
                   else Scan (st 0) (\<lambda>j. st (j + 1)) at)
         in resp 200 (DocsBody (docsLoop st' 0 at ks))))"

subsection \<open>Writes\<close>

interpretation rest: doc_writer ap encT ps n "\<lambda>muts s s1. rest_propose ap encT ps n muts now polls s = Some (Some None, s1)"
  for ap encT ps n now polls
  by unfold_locales (auto simp: rest_propose_def ds_Propose_def ds_WaitApplied_def split: bind_splits sum.splits if_splits, blast)

lemma finish_ok: "finish ok r = Some (resp ok Empty) \<Longrightarrow> r = Some None"
  by (auto simp: finish_def split: option.splits)


definition one_text :: bytes where
  "one_text = string_bytes ''[9]''"

definition one_jdec :: "bytes \<Rightarrow> nat document option" where
  "one_jdec b = (if b = [] then Some None else Some (Some []))"

definition one_mar :: "(string \<times> nat) list \<Rightarrow> bytes option" where
  "one_mar m = (if m = [(''_id'', 9)] then Some one_text else None)"

definition one_unm :: "bytes \<Rightarrow> nat document option" where
  "one_unm d = (if d = one_text then Some (Some [(''_id'', 9)]) else None)"

abbreviation one_loop :: "command ApplyMsg \<Rightarrow> (disk, nat) rdocs \<Rightarrow> (disk, nat) rdocs" where
  "one_loop \<equiv> ds_applyLoop DecodeTransaction one_unm demo_fmtv"

definition led_docs :: "(command, (disk, nat) rdocs) system" where
  "led_docs = the (srun one_loop demo_servers elect_0 fresh_docs)"

abbreviation one_put :: "string \<Rightarrow> (nat response option \<times> (command, (disk, nat) rdocs) system) option" where
  "one_put k \<equiv> putDoc one_loop EncodeTransaction one_jdec one_mar (\<lambda>_. 9) demo_servers 0 [5] k 0 write_polls led_docs"

definition put_docs :: "string \<Rightarrow> (command, (disk, nat) rdocs) system" where
  "put_docs k = snd (the (one_put k))"


text \<open>A PUT whose body is the JSON value \<^verbatim>\<open>null\<close> assigns to a nil map.\<close>

lemma null_body_panics:
  assumes "jdec rbody = Some None" "k \<noteq> []"
  shows "handleDoc ap encT jdec mar jstr ps n ''PUT'' (''/docs/'' @ k) rbody evs now polls s = None"
  using assms by (simp add: handleDoc_def TrimPrefix_def putDoc_def)

text \<open>A query goes to the one index whatever field it names.\<close>

lemma query_ignores_field:
  "handleDocs fmtv m ((f, vs) # q) store st st' = handleDocs fmtv m ((g, vs) # q) store st st'"
  by (simp add: handleDocs_def)

end
