(* ===== verification/Mongo_Wire.thy ===== *)
theory Mongo_Wire
  imports Wire_Bytes Complex_Main
begin

text \<open>
  The MongoDB wire protocol: \<^verbatim>\<open>mongowire/protocol.go\<close>. The BSON codec (\<open>unb\<close>, \<open>marb\<close>) is an
  argument. A connection is the list of the bytes that are still to come. Parsing may end
  in a value, an error or a panic; the section loops need not end at all, and their value
  is then \<^const>\<open>None\<close>.
\<close>

subsection \<open>Values and outcomes\<close>

text \<open>A decoded value by its dynamic type: \<^verbatim>\<open>bson.M\<close>, \<^verbatim>\<open>bson.D\<close>, \<^verbatim>\<open>bson.A\<close> and \<^verbatim>\<open>[]interface{}\<close> are four.\<close>

datatype bval = BStr string | BInt int | BDouble rat | BBool bool | BTime int | BNull | BOther bytes
| BM "(string \<times> bval) list" | BD "(string \<times> bval) list" | BA "bval list" | BSlice "bval list"

type_synonym bmap = "(string \<times> bval) list"

datatype werr = ShortRead | UnsupportedOpcode int | TruncatedLengthW | TruncatedDoc | DecodeErr | UnsupportedKind int | MarshalErr

datatype 'a outcome = Done 'a | Fail werr | Panic

definition out_bind :: "'a outcome \<Rightarrow> ('a \<Rightarrow> 'b outcome) \<Rightarrow> 'b outcome" where
  "out_bind x f = (case x of Done a \<Rightarrow> f a | Fail e \<Rightarrow> Fail e | Panic \<Rightarrow> Panic)"

text \<open>\<^verbatim>\<open>int32\<close> arithmetic wraps.\<close>

definition i32 :: "int \<Rightarrow> int" where
  "i32 n = sint (word_of_int n :: u32)"

definition le_int32 :: "bytes \<Rightarrow> int" where
  "le_int32 bs = sint (get_le32 bs)"

definition put_int32 :: "int \<Rightarrow> bytes" where
  "put_int32 n = put_le32 (u32_of n)"

definition opReply :: int where
  "opReply = 1"

definition opQuery :: int where
  "opQuery = 2004"

definition opMsg :: int where
  "opMsg = 2013"

record header =
  hMessageLength :: int
  hRequestID :: int
  hResponseTo :: int
  hOpCode :: int

definition ReadFull :: "nat \<Rightarrow> bytes \<Rightarrow> (bytes \<times> bytes) outcome" where
  "ReadFull n r = (if length r < n then Fail ShortRead else Done (take n r, drop n r))"

definition readHeader :: "bytes \<Rightarrow> (header \<times> bytes) outcome" where
  "readHeader r = out_bind (ReadFull 16 r) (\<lambda>(h, r'). Done
     (\<lparr>hMessageLength = le_int32 h, hRequestID = le_int32 (drop 4 h), hResponseTo = le_int32 (drop 8 h), hOpCode = le_int32 (drop 12 h)\<rparr>, r'))"

text \<open>\<^verbatim>\<open>make([]byte, hdr.MessageLength-16)\<close> and the read into it; a negative length panics.\<close>

definition readBody :: "header \<Rightarrow> bytes \<Rightarrow> (bytes \<times> bytes) outcome" where
  "readBody hdr r = (let n = i32 (hMessageLength hdr - 16) in if n < 0 then Panic else ReadFull (nat n) r)"

subsection \<open>Reading\<close>

definition readRawDoc :: "bytes \<Rightarrow> int \<Rightarrow> (bytes \<times> int) outcome" where
  "readRawDoc body pos =
     (if pos + 4 > int (length body) then Fail TruncatedLengthW
      else
        (let docLen = le_int32 (drop (nat pos) body); stop = pos + docLen in
         if stop > int (length body) then Fail TruncatedDoc
         else if stop < pos then Panic
         else Done (take (nat docLen) (drop (nat pos) body), stop)))"

text \<open>The loop to the end of a name; \<^const>\<open>None\<close> when it runs out of the slice.\<close>

function nulEnd :: "bytes \<Rightarrow> int \<Rightarrow> int option" where
  "nulEnd body p = (case go_nth body p of None \<Rightarrow> None | Some b \<Rightarrow> if b = 0 then Some p else nulEnd body (p + 1))"
  by pat_completeness auto
termination
  by (relation "measure (\<lambda>(body, p). nat (int (length body) - p))") (auto simp: go_nth_def split: if_splits)

declare nulEnd.simps [simp del]

definition readQuery :: "(bytes \<Rightarrow> bmap option) \<Rightarrow> header \<Rightarrow> bytes \<Rightarrow> (bmap \<times> bytes) outcome" where
  "readQuery unb hdr r = out_bind (readBody hdr r) (\<lambda>(body, r').
     case nulEnd body 4 of
       None \<Rightarrow> Panic
     | Some p \<Rightarrow> out_bind (readRawDoc body (p + 1 + 4 * 2)) (\<lambda>(doc, _).
         case unb doc of None \<Rightarrow> Fail DecodeErr | Some m \<Rightarrow> Done (m, r')))"

partial_function (option) seqLoop :: "(bytes \<Rightarrow> bmap option) \<Rightarrow> bytes \<Rightarrow> int \<Rightarrow> int \<Rightarrow> bval list \<Rightarrow> bval list outcome option" where
  "seqLoop unb body seqEnd p docs =
     (if p < seqEnd then
        (case readRawDoc body p of
           Fail e \<Rightarrow> Some (Fail e)
         | Panic \<Rightarrow> Some Panic
         | Done (doc, p') \<Rightarrow>
             (case unb doc of
                None \<Rightarrow> Some (Fail DecodeErr)
              | Some m \<Rightarrow> seqLoop unb body seqEnd p' (docs @ [BM m])))
      else Some (Done docs))"

definition mergeM :: "bmap \<Rightarrow> bmap \<Rightarrow> bmap" where
  "mergeM m cmd = fold (\<lambda>(k, v). AList.update k v) m cmd"

partial_function (option) sectionLoop :: "(bytes \<Rightarrow> bmap option) \<Rightarrow> bytes \<Rightarrow> int \<Rightarrow> bmap \<Rightarrow> bmap outcome option" where
  "sectionLoop unb body pos cmd =
     (if pos < int (length body) then
        (case go_nth body pos of
           None \<Rightarrow> Some Panic
         | Some kind \<Rightarrow>
             if kind = 0 then
               (case readRawDoc body (pos + 1) of
                  Fail e \<Rightarrow> Some (Fail e)
                | Panic \<Rightarrow> Some Panic
                | Done (doc, pos') \<Rightarrow>
                    (case unb doc of None \<Rightarrow> Some (Fail DecodeErr) | Some m \<Rightarrow> sectionLoop unb body pos' (mergeM m cmd)))
             else if kind = 1 then
               (if pos + 1 + 4 > int (length body) then Some Panic
                else
                  let seqEnd = pos + 1 + le_int32 (drop (nat (pos + 1)) body); p = pos + 1 + 4 in
                  (case nulEnd body p of
                     None \<Rightarrow> Some Panic
                   | Some nameEnd \<Rightarrow>
                       let identifier = bytes_string (take (nat (nameEnd - p)) (drop (nat p) body)) in
                       do {
                         r \<leftarrow> seqLoop unb body seqEnd (nameEnd + 1) [];
                         case r of
                           Fail e \<Rightarrow> Some (Fail e)
                         | Panic \<Rightarrow> Some Panic
                         | Done docs \<Rightarrow> sectionLoop unb body seqEnd (AList.update identifier (BSlice docs) cmd)
                       }))
             else Some (Fail (UnsupportedKind (uint kind))))
      else Some (Done cmd))"

declare seqLoop.simps [code] sectionLoop.simps [code]

definition readOpMsgBody :: "(bytes \<Rightarrow> bmap option) \<Rightarrow> header \<Rightarrow> bytes \<Rightarrow> (bmap \<times> bytes) outcome option" where
  "readOpMsgBody unb hdr r =
     (case readBody hdr r of
        Fail e \<Rightarrow> Some (Fail e)
      | Panic \<Rightarrow> Some Panic
      | Done (body, r') \<Rightarrow> map_option (\<lambda>x. out_bind x (\<lambda>cmd. Done (cmd, r'))) (sectionLoop unb body 4 []))"

definition readMessage :: "(bytes \<Rightarrow> bmap option) \<Rightarrow> bytes \<Rightarrow> ((int \<times> bmap \<times> int) \<times> bytes) outcome option" where
  "readMessage unb r =
     (case readHeader r of
        Fail e \<Rightarrow> Some (Fail e)
      | Panic \<Rightarrow> Some Panic
      | Done (hdr, r') \<Rightarrow>
          if hOpCode hdr = opQuery then
            Some (out_bind (readQuery unb hdr r') (\<lambda>(cmd, r''). Done ((hRequestID hdr, cmd, opQuery), r'')))
          else if hOpCode hdr = opMsg then
            map_option (\<lambda>x. out_bind x (\<lambda>(cmd, r''). Done ((hRequestID hdr, cmd, opMsg), r''))) (readOpMsgBody unb hdr r')
          else Some (Fail (UnsupportedOpcode (hOpCode hdr))))"

subsection \<open>Writing\<close>

definition putHeader :: "header \<Rightarrow> bytes" where
  "putHeader h = put_int32 (hMessageLength h) @ put_int32 (hRequestID h) @ put_int32 (hResponseTo h) @ put_int32 (hOpCode h)"

definition writeOpMsg :: "(bmap \<Rightarrow> bytes option) \<Rightarrow> int \<Rightarrow> bmap \<Rightarrow> bytes outcome" where
  "writeOpMsg marb responseTo reply =
     (case marb reply of
        None \<Rightarrow> Fail MarshalErr
      | Some docBytes \<Rightarrow>
          (let body = [0, 0, 0, 0] @ [0] @ docBytes in
           Done (putHeader \<lparr>hMessageLength = i32 (16 + int (length body)), hRequestID = 0, hResponseTo = responseTo, hOpCode = opMsg\<rparr> @ body)))"

definition writeOpReply :: "(bmap \<Rightarrow> bytes option) \<Rightarrow> int \<Rightarrow> bmap \<Rightarrow> bytes outcome" where
  "writeOpReply marb responseTo reply =
     (case marb reply of
        None \<Rightarrow> Fail MarshalErr
      | Some docBytes \<Rightarrow>
          (let body = [0, 0, 0, 0] @ [0, 0, 0, 0, 0, 0, 0, 0] @ [0, 0, 0, 0] @ [1, 0, 0, 0] @ docBytes in
           Done (putHeader \<lparr>hMessageLength = i32 (16 + int (length body)), hRequestID = 0, hResponseTo = responseTo, hOpCode = opReply\<rparr> @ body)))"

definition writeReply :: "(bmap \<Rightarrow> bytes option) \<Rightarrow> int \<Rightarrow> int \<Rightarrow> bmap \<Rightarrow> bytes outcome" where
  "writeReply marb requestOpCode responseTo reply =
     (if requestOpCode = opQuery then writeOpReply marb responseTo reply else writeOpMsg marb responseTo reply)"


subsection \<open>Well-formed messages\<close>

lemma out_bind_simps [simp]: "out_bind (Done a) f = f a" "out_bind (Fail e) f = Fail e" "out_bind Panic f = Panic"
  by (simp_all add: out_bind_def)

lemma i32_id: "- (2 ^ 31) \<le> n \<Longrightarrow> n < 2 ^ 31 \<Longrightarrow> i32 n = n"
  by (simp add: i32_def sint_sbintrunc' signed_take_bit_int_eq_self)

lemma put_int32_length [simp]: "length (put_int32 n) = 4"
  by (simp add: put_int32_def)

lemma le_put_int32 [simp]: "le_int32 (put_int32 n @ xs) = i32 n" "le_int32 (put_int32 n) = i32 n"
  by (simp_all add: le_int32_def put_int32_def i32_def u32_of_def)

lemma le_int32_append: "4 \<le> length d \<Longrightarrow> le_int32 (d @ xs) = le_int32 d"
proof -
  assume "4 \<le> length d"
  then obtain a b c e d' where "d = a # b # c # e # d'" by (auto simp: numeral_eq_Suc Suc_le_length_iff)
  then show ?thesis by (simp add: le_int32_def)
qed

text \<open>A BSON document begins with its length; the codec decodes it.\<close>

definition bson_doc :: "(bytes \<Rightarrow> bmap option) \<Rightarrow> bytes \<Rightarrow> bool" where
  "bson_doc unb d \<longleftrightarrow> 5 \<le> length d \<and> le_int32 d = int (length d) \<and> unb d \<noteq> None"

lemma readRawDoc_doc:
  assumes "bson_doc unb d"
  shows "readRawDoc (pre @ d @ post) (int (length pre)) = Done (d, int (length pre) + int (length d))"
proof -
  have "4 \<le> length d" "le_int32 d = int (length d)" using assms by (auto simp: bson_doc_def)
  then show ?thesis by (simp add: readRawDoc_def Let_def le_int32_append)
qed

lemma nulEnd_name:
  assumes "0 \<notin> set name"
  shows "nulEnd (pre @ name @ 0 # post) (int (length pre)) = Some (int (length pre) + int (length name))"
  using assms
proof (induction name arbitrary: pre)
  case Nil
  then show ?case by (simp add: nulEnd.simps [of _ "int (length pre)"] go_nth_in nth_append)
next
  case (Cons b name)
  have "nulEnd ((pre @ [b]) @ name @ 0 # post) (int (length (pre @ [b]))) = Some (int (length (pre @ [b])) + int (length name))"
    using Cons by (intro Cons.IH) simp
  then show ?case using Cons.prems by (simp add: nulEnd.simps [of _ "int (length pre)"] go_nth_in nth_append ac_simps)
qed

lemma seqLoop_docs:
  assumes "\<forall>d \<in> set ds. bson_doc unb d"
  shows "seqLoop unb (pre @ concat ds @ post) (int (length pre) + int (length (concat ds))) (int (length pre)) acc
    = Some (Done (acc @ map (\<lambda>d. BM (the (unb d))) ds))"
  using assms
proof (induction ds arbitrary: pre acc)
  case Nil
  show ?case by (subst seqLoop.simps) simp
next
  case (Cons d ds)
  have d: "bson_doc unb d" and pos: "0 < int (length d) + int (length (concat ds))" using Cons.prems by (auto simp: bson_doc_def)
  then obtain m where m: "unb d = Some m" by (auto simp: bson_doc_def)
  have rd: "readRawDoc (pre @ d @ concat ds @ post) (int (length pre)) = Done (d, int (length pre) + int (length d))"
    using readRawDoc_doc [OF d] by simp
  have "seqLoop unb ((pre @ d) @ concat ds @ post) (int (length (pre @ d)) + int (length (concat ds))) (int (length (pre @ d))) (acc @ [BM m])
      = Some (Done ((acc @ [BM m]) @ map (\<lambda>d. BM (the (unb d))) ds))"
    using Cons.prems by (intro Cons.IH) simp
  then show ?case using pos m rd by (subst seqLoop.simps) (simp add: ac_simps)
qed

text \<open>The sections of an \<^verbatim>\<open>OP_MSG\<close>, as the protocol encodes them, and the command they stand for.\<close>

datatype msg_section = Body bytes | Sequence bytes "bytes list"

fun sec_bytes :: "msg_section \<Rightarrow> bytes" where
  "sec_bytes (Body d) = 0 # d"
| "sec_bytes (Sequence name ds) =
     1 # put_int32 (int (4 + length name + 1 + length (concat ds))) @ name @ 0 # concat ds"

fun sec_ok :: "(bytes \<Rightarrow> bmap option) \<Rightarrow> msg_section \<Rightarrow> bool" where
  "sec_ok unb (Body d) \<longleftrightarrow> bson_doc unb d"
| "sec_ok unb (Sequence name ds) \<longleftrightarrow> 0 \<notin> set name \<and> list_all (bson_doc unb) ds"

fun sec_cmd :: "(bytes \<Rightarrow> bmap option) \<Rightarrow> msg_section \<Rightarrow> bmap \<Rightarrow> bmap" where
  "sec_cmd unb (Body d) cmd = mergeM (the (unb d)) cmd"
| "sec_cmd unb (Sequence name ds) cmd = AList.update (bytes_string name) (BSlice (map (\<lambda>d. BM (the (unb d))) ds)) cmd"

lemma section_step:
  assumes "sec_ok unb x" "length (sec_bytes x) < 2 ^ 31"
  shows "sectionLoop unb (pre @ sec_bytes x @ post) (int (length pre)) cmd
    = sectionLoop unb (pre @ sec_bytes x @ post) (int (length (pre @ sec_bytes x))) (sec_cmd unb x cmd)"
proof (cases x)
  case (Body d)
  then obtain m where m: "unb d = Some m" using assms by (auto simp: bson_doc_def)
  have "readRawDoc ((pre @ [0]) @ d @ post) (int (length (pre @ [0]))) = Done (d, int (length (pre @ [0])) + int (length d))"
    using readRawDoc_doc assms Body by (metis sec_ok.simps(1))
  then show ?thesis using Body m by (subst sectionLoop.simps) (simp add: go_nth_in nth_append ac_simps)
next
  case (Sequence name ds)
  let ?n = "int (4 + length name + 1 + length (concat ds))"
  let ?body = "pre @ sec_bytes x @ post"
  have n: "i32 ?n = ?n" using assms(2) Sequence by (intro i32_id) simp_all
  let ?p1 = "pre @ 1 # put_int32 ?n" and ?p2 = "pre @ 1 # put_int32 ?n @ name @ [0]"
  have b1: "?body = ?p1 @ name @ 0 # (concat ds @ post)" and b2: "?body = ?p2 @ concat ds @ post"
    using Sequence by simp_all
  have e: "nulEnd ?body (int (length pre) + 1 + 4) = Some (int (length pre) + 5 + int (length name))"
    unfolding b1 using nulEnd_name [of name ?p1 "concat ds @ post"] assms(1) Sequence by (simp add: ac_simps)
  have s: "seqLoop unb ?body (int (length pre) + 1 + ?n) (int (length pre) + 5 + int (length name) + 1) []
      = Some (Done (map (\<lambda>d. BM (the (unb d))) ds))"
    unfolding b2 using seqLoop_docs [of ds unb ?p2 post "[]"] assms(1) Sequence by (simp add: list_all_iff ac_simps)
  have l: "le_int32 (drop (nat (int (length pre) + 1)) ?body) = ?n" using n Sequence by (simp add: nat_add_distrib)
  have nm: "take (nat (int (length pre) + 5 + int (length name) - (int (length pre) + 1 + 4))) (drop (nat (int (length pre) + 1 + 4)) ?body) = name"
    unfolding b1 by (simp add: nat_add_distrib)
  have k: "go_nth ?body (int (length pre)) = Some 1" using Sequence by (simp add: go_nth_in nth_append)
  have len: "int (length pre) < int (length ?body)" "\<not> int (length pre) + 1 + 4 > int (length ?body)"
    "int (length (pre @ sec_bytes x)) = int (length pre) + 1 + ?n" using Sequence by simp_all
  have c: "sec_cmd unb x cmd = AList.update (bytes_string name) (BSlice (map (\<lambda>d. BM (the (unb d))) ds)) cmd" using Sequence by simp
  have "(1 :: byte) \<noteq> 0" by simp
  then show ?thesis
    by (subst sectionLoop.simps) (simp only: len k e s l nm c Let_def option.case Option.bind.bind_lunit outcome.case if_True if_False simp_thms)
qed

lemma sections_parsed:
  assumes "list_all (sec_ok unb) secs" "length (concat (map sec_bytes secs)) < 2 ^ 31"
  shows "sectionLoop unb (pre @ concat (map sec_bytes secs)) (int (length pre)) cmd = Some (Done (fold (sec_cmd unb) secs cmd))"
  using assms
proof (induction secs arbitrary: pre cmd)
  case Nil
  show ?case by (subst sectionLoop.simps) simp
next
  case (Cons x secs)
  have "sectionLoop unb (pre @ sec_bytes x @ concat (map sec_bytes secs)) (int (length pre)) cmd
      = sectionLoop unb (pre @ sec_bytes x @ concat (map sec_bytes secs)) (int (length (pre @ sec_bytes x))) (sec_cmd unb x cmd)"
    using Cons.prems by (intro section_step) simp_all
  also have "\<dots> = Some (Done (fold (sec_cmd unb) secs (sec_cmd unb x cmd)))"
    using Cons.IH [of "pre @ sec_bytes x" "sec_cmd unb x cmd"] Cons.prems by simp
  finally show ?case by simp
qed


lemma readHeader_put:
  "readHeader (putHeader h @ r) = Done
     (\<lparr>hMessageLength = i32 (hMessageLength h), hRequestID = i32 (hRequestID h), hResponseTo = i32 (hResponseTo h), hOpCode = i32 (hOpCode h)\<rparr>, r)"
  by (simp add: readHeader_def putHeader_def ReadFull_def)

lemma i32_op [simp]: "i32 1 = 1" "i32 2004 = 2004" "i32 2013 = 2013"
  by (simp_all add: i32_id)

lemma readMessage_body:
  assumes "16 + length body < 2 ^ 31"
  shows "readMessage unb (putHeader \<lparr>hMessageLength = int (16 + length body), hRequestID = q, hResponseTo = t, hOpCode = opMsg\<rparr> @ body @ rest)
    = map_option (\<lambda>x. out_bind x (\<lambda>cmd. Done ((i32 q, cmd, opMsg), rest))) (sectionLoop unb body 4 [])"
proof -
  have n: "i32 (16 + int (length body)) = 16 + int (length body)" "i32 (int (length body)) = int (length body)"
    using assms by (auto intro!: i32_id)
  have "out_bind (out_bind x (\<lambda>cmd. Done (cmd, rest))) (\<lambda>(cmd, r). Done ((i32 q, cmd, opMsg), r))
      = out_bind x (\<lambda>cmd. Done ((i32 q, cmd, opMsg), rest))" for x :: "bmap outcome" by (cases x) simp_all
  then show ?thesis unfolding readMessage_def readHeader_put
    by (simp add: n opMsg_def opQuery_def readOpMsgBody_def readBody_def Let_def ReadFull_def option.map_comp o_def)
qed

lemma mergeM_fresh:
  "distinct (map fst m) \<Longrightarrow> fst ` set m \<inter> fst ` set cmd = {} \<Longrightarrow> mergeM m cmd = cmd @ m"
proof (induction m arbitrary: cmd)
  case (Cons x m)
  obtain k v where x: "x = (k, v)" by (cases x)
  have u: "AList.update k v cmd = cmd @ [(k, v)]" using Cons.prems(2) x by (induction cmd) auto
  have "mergeM m (cmd @ [(k, v)]) = (cmd @ [(k, v)]) @ m" using Cons.prems x by (intro Cons.IH) auto
  then show ?case using x u by (simp add: mergeM_def)
qed (simp add: mergeM_def)

text \<open>
  \<^verbatim>\<open>readMessage\<close> on any well-formed \<^verbatim>\<open>OP_MSG\<close>, of whatever body and document-sequence sections
  in whatever order: it returns, with the request id and the command that merges the
  sections, and leaves the bytes after the message.
\<close>

lemma op_msg_parsed:
  assumes "list_all (sec_ok unb) secs" "length flags = 4" "body = flags @ concat (map sec_bytes secs)" "16 + length body < 2 ^ 31"
  shows "readMessage unb (putHeader \<lparr>hMessageLength = int (16 + length body), hRequestID = q, hResponseTo = t, hOpCode = opMsg\<rparr> @ body @ rest)
    = Some (Done ((i32 q, fold (sec_cmd unb) secs [], opMsg), rest))"
  unfolding readMessage_body [OF assms(4)] using sections_parsed [OF assms(1), of flags "[]"] assms(2-4) by simp

subsection \<open>Properties\<close>

text \<open>A codec for two documents of one byte of content.\<close>

definition tiny_unb :: "bytes \<Rightarrow> bmap option" where
  "tiny_unb d = (if d = [5, 0, 0, 0, 7] then Some [(''insert'', BStr ''c'')] else if d = [5, 0, 0, 0, 8] then Some [(''_id'', BStr ''k'')] else None)"

definition tiny_marb :: "bmap \<Rightarrow> bytes option" where
  "tiny_marb m = (if m = [(''insert'', BStr ''c'')] then Some [5, 0, 0, 0, 7] else None)"

definition tiny_secs :: "msg_section list" where
  "tiny_secs = [Body [5, 0, 0, 0, 7], Sequence [100, 111, 99, 115] [[5, 0, 0, 0, 8], [5, 0, 0, 0, 8]]]"

definition tiny_body :: bytes where
  "tiny_body = [0, 0, 0, 0] @ concat (map sec_bytes tiny_secs)"

text \<open>
  What \<^verbatim>\<open>writeReply\<close> sends for a command that came as \<^verbatim>\<open>OP_MSG\<close> is read back by \<^verbatim>\<open>readMessage\<close>
  as the same document, for a codec that decodes what it encodes and begins every
  document with its length.
\<close>

theorem op_msg_roundtrip:
  assumes "writeReply marb opMsg t m = Done bs" "distinct (map fst m)"
    and "\<And>d. marb m = Some d \<Longrightarrow> unb d = Some m \<and> 5 \<le> length d \<and> le_int32 d = int (length d) \<and> length d + 21 < 2 ^ 31"
  shows "readMessage unb (bs @ rest) = Some (Done ((0, m, opMsg), rest))"
proof -
  obtain d where d: "marb m = Some d" using assms(1) by (auto simp: writeReply_def writeOpMsg_def opMsg_def opQuery_def split: option.splits)
  have ok: "unb d = Some m" "sec_ok unb (Body d)" and n: "length d + 21 < 2 ^ 31" using assms(3) [OF d] by (auto simp: bson_doc_def)
  let ?body = "[0, 0, 0, 0] @ concat (map sec_bytes [Body d])"
  have i: "i32 (21 + int (length d)) = 21 + int (length d)" using n by (intro i32_id) auto
  have bs: "bs = putHeader \<lparr>hMessageLength = int (16 + length ?body), hRequestID = 0, hResponseTo = t, hOpCode = opMsg\<rparr> @ ?body"
    using assms(1) d i by (auto simp: writeReply_def writeOpMsg_def opMsg_def opQuery_def ac_simps)
  have "sectionLoop unb ?body 4 [] = Some (Done m)"
    using sections_parsed [of unb "[Body d]" "[0, 0, 0, 0]" "[]"] ok n mergeM_fresh [OF assms(2), of "[]"] by simp
  moreover have "16 + length ?body < 2 ^ 31" using n by simp
  moreover have "i32 0 = 0" by (simp add: i32_id)
  ultimately show ?thesis unfolding bs using readMessage_body [of ?body unb 0 t rest] by simp
qed

theorem op_msg_roundtrip_witness:
  "readMessage tiny_unb ((case writeReply tiny_marb opMsg 9 [(''insert'', BStr ''c'')] of Done bs \<Rightarrow> bs | _ \<Rightarrow> []) @ [1])
    = Some (Done ((0, [(''insert'', BStr ''c'')], opMsg), [1]))"
proof -
  obtain bs where bs: "writeReply tiny_marb opMsg 9 [(''insert'', BStr ''c'')] = Done bs"
    by (auto simp: writeReply_def writeOpMsg_def tiny_marb_def opMsg_def opQuery_def Let_def)
  have "le_int32 [5, 0, 0, 0, 7] = 5" by code_simp
  then have "readMessage tiny_unb (bs @ [1]) = Some (Done ((0, [(''insert'', BStr ''c'')], opMsg), [1]))"
    by (intro op_msg_roundtrip [OF bs]) (auto simp: tiny_marb_def tiny_unb_def)
  then show ?thesis using bs by simp
qed

text \<open>
  A header whose length is less than its own 16 bytes makes \<^verbatim>\<open>readMessage\<close> panic, for both
  opcodes and whatever follows; the goroutine of a connection has no recover.
\<close>

theorem short_length_panics:
  assumes "0 \<le> n" "n < 16" "op = opMsg \<or> op = opQuery"
  shows "readMessage unb (putHeader \<lparr>hMessageLength = n, hRequestID = q, hResponseTo = t, hOpCode = op\<rparr> @ rest) = Some Panic"
proof -
  have "i32 n = n" "i32 (n - 16) = n - 16" using assms by (auto intro!: i32_id)
  then show ?thesis unfolding readMessage_def readHeader_put
    using assms by (auto simp: opMsg_def opQuery_def readOpMsgBody_def readQuery_def readBody_def)
qed

theorem short_length_panics_witness:
  "readMessage tiny_unb (putHeader \<lparr>hMessageLength = 0, hRequestID = 0, hResponseTo = 0, hOpCode = opMsg\<rparr> @ []) = Some Panic"
  by (rule short_length_panics) simp_all

text \<open>A document sequence that claims the length -1 makes the section loop start it again.\<close>

definition loop_body :: bytes where
  "loop_body = [0, 0, 0, 0, 1, 255, 255, 255, 255, 0]"

lemma loop_body_turn:
  "go_nth loop_body 4 = Some 1" "le_int32 (drop (nat (4 + 1)) loop_body) = -1" "nulEnd loop_body (4 + 1 + 4) = Some 9"
  "int (length loop_body) = 10"
proof -
  have "go_nth loop_body 9 = Some 0" by code_simp
  then show "nulEnd loop_body (4 + 1 + 4) = Some 9" by (simp add: nulEnd.simps)
qed code_simp+

lemma loop_body_docs: "seqLoop unb loop_body (4 + 1 + - 1) (9 + 1) [] = Some (Done [])"
  by (subst seqLoop.simps) simp

lemma loop_body_never: "sectionLoop unb loop_body 4 cmd = None"
proof -
  have "body = loop_body \<longrightarrow> pos = 4 \<longrightarrow> False" if "sectionLoop unb body pos cmd = Some y" for unb body pos cmd y
    using that
  proof (induction rule: sectionLoop.raw_induct [rotated, consumes 1])
    case (1 f unb body pos cmd y)
    have n: "\<not> f unb loop_body 4 c = Some y" for c using 1(1) by blast
    show ?case
    proof (intro impI)
      assume "body = loop_body" "pos = 4"
      moreover have "(1 :: byte) \<noteq> 0" "(4 :: int) < 10" "\<not> 4 + 1 + 4 > (10 :: int)" "4 + 1 + - 1 = (4 :: int)" by simp_all
      ultimately show False using 1(2) n loop_body_docs [of unb]
        by (simp only: loop_body_turn Let_def option.case outcome.case Option.bind.bind_lunit if_True if_False simp_thms)
    qed
  qed
  then show ?thesis by (metis not_Some_eq)
qed

text \<open>
  C40: A complete \<^verbatim>\<open>OP_MSG\<close> of 26 bytes, one document sequence whose length field is -1, on
  which \<^verbatim>\<open>readMessage\<close> never returns: the section loop goes back to the section forever.
\<close>

theorem negative_sequence_loops:
  "readMessage unb (putHeader \<lparr>hMessageLength = 26, hRequestID = q, hResponseTo = t, hOpCode = opMsg\<rparr> @ loop_body @ rest) = None"
proof -
  have "16 + length loop_body = 26" by (simp add: loop_body_def)
  then show ?thesis using readMessage_body [of loop_body unb q t rest] loop_body_never by simp
qed

lemma out_bind_Done: "out_bind x f = Done b \<longleftrightarrow> (\<exists>a. x = Done a \<and> f a = Done b)"
  by (cases x) simp_all

lemma readBody_consumes: "readBody hdr r = Done (body, r') \<Longrightarrow> length r' \<le> length r"
  by (auto simp: readBody_def ReadFull_def Let_def split: if_splits)

lemma readMessage_consumes: "readMessage unb r = Some (Done (x, r')) \<Longrightarrow> length r' + 16 \<le> length r"
  by (fastforce simp: readMessage_def readHeader_def ReadFull_def readQuery_def readOpMsgBody_def out_bind_Done
      dest: readBody_consumes split: outcome.splits if_splits option.splits)

end
