(* ===== verification/Mongo_Commands.thy ===== *)
theory Mongo_Commands
  imports Mongo_Wire Replicated_Docs
begin

text \<open>
  The MongoDB front end of a replicated document store: \<^verbatim>\<open>mongowire/commands.go\<close> and
  \<^verbatim>\<open>mongowire/server.go\<close>. The codecs are arguments, in a record; what a call finds in its
  environment (the store its snapshot pins and those its reads see, generated ids, the
  clock and the polls of \<^verbatim>\<open>WaitApplied\<close>) is another. A handler's value is \<^const>\<open>None\<close> for a panic,
  its reply \<^const>\<open>None\<close> while the call waits. Sockets and their accept loop are left out.
\<close>

subsection \<open>Codecs and environments\<close>

record 'e mcodec =
  mEncT :: "mutation list \<Rightarrow> 'e + bytes"
  mErr :: "'e \<Rightarrow> string"
  docToJSON :: "bmap \<Rightarrow> string + bytes"
  mExt :: "bval document \<Rightarrow> bval document option"
  mFmt :: "bval \<Rightarrow> string"

record menv =
  eStore :: "bval mstore"
  eReads :: "nat \<Rightarrow> bval mstore"
  eReads' :: "nat \<Rightarrow> bval mstore"
  newID :: "nat \<Rightarrow> string"
  eNow :: int
  ePolls :: "(int \<times> command sevent list) list"

subsection \<open>Decoded documents\<close>

text \<open>A nil map reads as an empty one.\<close>

definition toM :: "bval option \<Rightarrow> bmap" where
  "toM v = (case v of Some (BM t) \<Rightarrow> t | Some (BD t) \<Rightarrow> mergeM t [] | _ \<Rightarrow> [])"

text \<open>The type assertions \<^verbatim>\<open>.([]interface{})\<close> and \<^verbatim>\<open>.(string)\<close>, with the zero value where they fail.\<close>

definition asSlice :: "bval option \<Rightarrow> bval list" where
  "asSlice v = (case v of Some (BSlice xs) \<Rightarrow> xs | _ \<Rightarrow> [])"

definition asString :: "bval option \<Rightarrow> string" where
  "asString v = (case v of Some (BStr s) \<Rightarrow> s | _ \<Rightarrow> [])"

definition docID :: "(bval \<Rightarrow> string) \<Rightarrow> string \<Rightarrow> bmap \<Rightarrow> string" where
  "docID fmtb fresh doc = (case map_of doc ''_id'' of Some v \<Rightarrow> fmtb v | None \<Rightarrow> fresh)"

definition filterID :: "(bval \<Rightarrow> string) \<Rightarrow> bmap \<Rightarrow> string option" where
  "filterID fmtb filt = (if filt = [] then None else map_option fmtb (map_of filt ''_id''))"

subsection \<open>Replies and proposals\<close>

definition okReply :: "int \<Rightarrow> bmap" where
  "okReply n = [(''ok'', BDouble 1), (''n'', BInt n)]"

definition errReply :: "string \<Rightarrow> bmap" where
  "errReply e = [(''ok'', BDouble 0), (''errmsg'', BStr e)]"

text \<open>\<^verbatim>\<open>propose\<close>: its error, if any; \<^const>\<open>None\<close> while it waits.\<close>

definition mw_propose :: "('k, bval) loop \<Rightarrow> 'e mcodec \<Rightarrow> int list \<Rightarrow> int \<Rightarrow> menv \<Rightarrow> mutation list \<Rightarrow> ('k, bval) dsystem \<Rightarrow>
    (string option option \<times> ('k, bval) dsystem) option" where
  "mw_propose ap c ps n e muts s = do {
     (r, s1) \<leftarrow> ds_Propose (mEncT c) n muts s;
     case r of
       Inl err \<Rightarrow> Some (Some (Some (mErr c err)), s1)
     | Inr (i, isLeader) \<Rightarrow>
         if \<not> isLeader then Some (Some (Some ''mongowire: not leader''), s1)
         else do {
           (w, s2) \<leftarrow> WaitApplied ap dsLastApplied ps n i (eNow e + 2 * 1000000000) (ePolls e) s1;
           Some (map_option (\<lambda>applied. if applied then None else Some ''mongowire: write did not commit'') w, s2)
         }
   }"

text \<open>The reply after a proposal: an error reply for its error, \<open>reply\<close> for none.\<close>

definition proposed :: "bmap \<Rightarrow> string option option \<Rightarrow> bmap option" where
  "proposed reply r = map_option (\<lambda>err. case err of Some e \<Rightarrow> errReply e | None \<Rightarrow> reply) r"

subsection \<open>Commands\<close>

fun insertLoop :: "(bmap \<Rightarrow> string + bytes) \<Rightarrow> (bval \<Rightarrow> string) \<Rightarrow> (nat \<Rightarrow> string) \<Rightarrow> nat \<Rightarrow> bval list \<Rightarrow> string + mutation list" where
  "insertLoop mar fmtb ids j [] = Inr []"
| "insertLoop mar fmtb ids j (d # ds) =
     (case d of
        BM doc \<Rightarrow>
          (let k = docID fmtb (ids j) doc in
           case mar (AList.update ''_id'' (BStr k) doc) of
             Inl e \<Rightarrow> Inl e
           | Inr data \<Rightarrow>
               (case insertLoop mar fmtb ids (j + 1) ds of
                  Inl e \<Rightarrow> Inl e
                | Inr muts \<Rightarrow> Inr (\<lparr>mOp = ''put'', mID = k, mData = data, mExpected = None\<rparr> # muts)))
      | _ \<Rightarrow> insertLoop mar fmtb ids j ds)"

definition handleInsert :: "('k, bval) loop \<Rightarrow> 'e mcodec \<Rightarrow> int list \<Rightarrow> int \<Rightarrow> menv \<Rightarrow> bmap \<Rightarrow> ('k, bval) dsystem \<Rightarrow>
    (bmap option \<times> ('k, bval) dsystem) option" where
  "handleInsert ap c ps n e cmd s =
     (case insertLoop (docToJSON c) (mFmt c) (newID e) 0 (asSlice (map_of cmd ''documents'')) of
        Inl err \<Rightarrow> Some (Some (errReply err), s)
      | Inr muts \<Rightarrow>
          if muts = [] then Some (Some (okReply 0), s)
          else do {
            (r, s') \<leftarrow> mw_propose ap c ps n e muts s;
            Some (proposed (okReply (int (length muts))) r, s')
          })"

fun findLoop :: "(bval document \<Rightarrow> bval document option) \<Rightarrow> (nat \<Rightarrow> bval mstore) \<Rightarrow> nat \<Rightarrow> int \<Rightarrow> string list \<Rightarrow> bval list option" where
  "findLoop ext st j pin [] = Some []"
| "findLoop ext st j pin (k # ks) =
     (case snap_Get (st j) pin k of
        None \<Rightarrow> findLoop ext st (j + 1) pin ks
      | Some doc \<Rightarrow>
          (case ext doc of
             None \<Rightarrow> findLoop ext st (j + 1) pin ks
           | Some None \<Rightarrow> None
           | Some (Some m) \<Rightarrow> map_option (Cons (BM (AList.update ''_id'' (BStr k) m))) (findLoop ext st (j + 1) pin ks)))"

definition handleFind :: "'e mcodec \<Rightarrow> menv \<Rightarrow> bmap \<Rightarrow> bmap option" where
  "handleFind c e cmd =
     (let filt = toM (map_of cmd ''filter'');
          pin = Snapshot (eStore e);
          ids = (case filterID (mFmt c) filt of Some k \<Rightarrow> [k] | None \<Rightarrow> Scan (eReads e 0) (\<lambda>j. eReads e (j + 1)) pin)
      in map_option (\<lambda>batch.
           [(''ok'', BDouble 1),
            (''cursor'', BM [(''firstBatch'', BSlice batch), (''id'', BInt 0),
               (''ns'', BStr (asString (map_of cmd ''$db'') @ ''.'' @ asString (map_of cmd ''find'')))])])
         (findLoop (mExt c) (eReads' e) 0 pin ids))"

fun updateLoop :: "(bmap \<Rightarrow> string + bytes) \<Rightarrow> (bval \<Rightarrow> string) \<Rightarrow> (nat \<Rightarrow> bval mstore) \<Rightarrow> nat \<Rightarrow> int \<Rightarrow> bval list \<Rightarrow>
    string + mutation list \<times> int \<times> int" where
  "updateLoop mar fmtb st j pin [] = Inr ([], 0, 0)"
| "updateLoop mar fmtb st j pin (u # us) =
     (case u of
        BM upd \<Rightarrow>
          (case filterID fmtb (toM (map_of upd ''q'')) of
             None \<Rightarrow> updateLoop mar fmtb st j pin us
           | Some k \<Rightarrow>
               (case snap_Get (st j) pin k of
                  None \<Rightarrow> updateLoop mar fmtb st (j + 1) pin us
                | Some doc \<Rightarrow>
                    (let uDoc = toM (map_of upd ''u'');
                         setM = toM (map_of uDoc ''$set'');
                         merged = AList.update ''_id'' (BStr k) (mergeM setM (mergeM (case doc of None \<Rightarrow> [] | Some m \<Rightarrow> m) []))
                     in case mar merged of
                          Inl e \<Rightarrow> Inl e
                        | Inr data \<Rightarrow>
                            (case updateLoop mar fmtb st (j + 1) pin us of
                               Inl e \<Rightarrow> Inl e
                             | Inr (muts, matched, modified) \<Rightarrow>
                                 Inr (\<lparr>mOp = ''put'', mID = k, mData = data, mExpected = None\<rparr> # muts, matched + 1, modified + 1)))))
      | _ \<Rightarrow> updateLoop mar fmtb st j pin us)"

definition handleUpdate :: "('k, bval) loop \<Rightarrow> 'e mcodec \<Rightarrow> int list \<Rightarrow> int \<Rightarrow> menv \<Rightarrow> bmap \<Rightarrow> ('k, bval) dsystem \<Rightarrow>
    (bmap option \<times> ('k, bval) dsystem) option" where
  "handleUpdate ap c ps n e cmd s =
     (case updateLoop (docToJSON c) (mFmt c) (eReads e) 0 (Snapshot (eStore e)) (asSlice (map_of cmd ''updates'')) of
        Inl err \<Rightarrow> Some (Some (errReply err), s)
      | Inr (muts, matched, modified) \<Rightarrow>
          (let reply = [(''ok'', BDouble 1), (''n'', BInt matched), (''nModified'', BInt modified)] in
           if muts \<noteq> [] then do {
             (r, s') \<leftarrow> mw_propose ap c ps n e muts s;
             Some (proposed reply r, s')
           }
           else Some (Some reply, s)))"

fun deleteLoop :: "(bval \<Rightarrow> string) \<Rightarrow> bval list \<Rightarrow> mutation list" where
  "deleteLoop fmtb [] = []"
| "deleteLoop fmtb (d # ds) =
     (case d of
        BM dd \<Rightarrow>
          (case filterID fmtb (toM (map_of dd ''q'')) of
             None \<Rightarrow> deleteLoop fmtb ds
           | Some k \<Rightarrow> \<lparr>mOp = ''delete'', mID = k, mData = [], mExpected = None\<rparr> # deleteLoop fmtb ds)
      | _ \<Rightarrow> deleteLoop fmtb ds)"

definition handleDelete :: "('k, bval) loop \<Rightarrow> 'e mcodec \<Rightarrow> int list \<Rightarrow> int \<Rightarrow> menv \<Rightarrow> bmap \<Rightarrow> ('k, bval) dsystem \<Rightarrow>
    (bmap option \<times> ('k, bval) dsystem) option" where
  "handleDelete ap c ps n e cmd s =
     (let muts = deleteLoop (mFmt c) (asSlice (map_of cmd ''deletes'')) in
      if muts = [] then Some (Some (okReply 0), s)
      else do {
        (r, s') \<leftarrow> mw_propose ap c ps n e muts s;
        Some (proposed (okReply (int (length muts))) r, s')
      })"

subsection \<open>The server\<close>

definition has :: "bmap \<Rightarrow> string \<Rightarrow> bool" where
  "has cmd key \<longleftrightarrow> map_of cmd key \<noteq> None"

definition helloReply :: "int \<Rightarrow> bmap" where
  "helloReply now =
     [(''ismaster'', BBool True), (''isWritablePrimary'', BBool True), (''maxWireVersion'', BInt 17), (''minWireVersion'', BInt 0),
      (''maxBsonObjectSize'', BInt (16 * 1024 * 1024)), (''maxMessageSizeBytes'', BInt (48 * 1024 * 1024)),
      (''maxWriteBatchSize'', BInt 1000), (''localTime'', BTime now), (''logicalSessionTimeoutMinutes'', BInt 30), (''ok'', BDouble 1)]"

definition dispatch :: "('k, bval) loop \<Rightarrow> 'e mcodec \<Rightarrow> int list \<Rightarrow> int \<Rightarrow> menv \<Rightarrow> bmap \<Rightarrow> ('k, bval) dsystem \<Rightarrow>
    (bmap option \<times> ('k, bval) dsystem) option" where
  "dispatch ap c ps n e cmd s =
     (if has cmd ''hello'' \<or> has cmd ''ismaster'' \<or> has cmd ''isMaster'' then Some (Some (helloReply (eNow e)), s)
      else if has cmd ''ping'' then Some (Some [(''ok'', BDouble 1)], s)
      else if has cmd ''insert'' then handleInsert ap c ps n e cmd s
      else if has cmd ''find'' then map_option (\<lambda>reply. (Some reply, s)) (handleFind c e cmd)
      else if has cmd ''update'' then handleUpdate ap c ps n e cmd s
      else if has cmd ''delete'' then handleDelete ap c ps n e cmd s
      else Some (Some (errReply (''mongowire: unsupported command '' @ mFmt c (BM cmd))), s))"

text \<open>
  \<^verbatim>\<open>handleConn\<close> on the bytes a client sends, with the dispatch of its \<open>j\<close>-th message as an argument
  and \<open>wok j\<close> whether the connection takes the \<open>j\<close>-th reply. It ends closed, in a panic, or in
  a message or a command that never returns; the replies sent are its output.
\<close>

datatype conn_end = Closed | Crashed | Stuck

function handleConn :: "(bytes \<Rightarrow> bmap option) \<Rightarrow> (bmap \<Rightarrow> bytes option) \<Rightarrow> (nat \<Rightarrow> bmap \<Rightarrow> 's \<Rightarrow> (bmap option \<times> 's) option) \<Rightarrow> (nat \<Rightarrow> bool) \<Rightarrow>
    nat \<Rightarrow> bytes \<Rightarrow> 's \<Rightarrow> conn_end \<times> bytes list \<times> 's" where
  "handleConn unb marb disp wok j r s =
     (case readMessage unb r of
        None \<Rightarrow> (Stuck, [], s)
      | Some Panic \<Rightarrow> (Crashed, [], s)
      | Some (Fail _) \<Rightarrow> (Closed, [], s)
      | Some (Done ((reqID, cmd, opCode), r')) \<Rightarrow>
          (case disp j cmd s of
             None \<Rightarrow> (Crashed, [], s)
           | Some (None, s') \<Rightarrow> (Stuck, [], s')
           | Some (Some reply, s') \<Rightarrow>
               (case writeReply marb opCode reqID reply of
                  Done bs \<Rightarrow>
                    if wok j then (let (x, out, s'') = handleConn unb marb disp wok (j + 1) r' s' in (x, bs # out, s''))
                    else (Closed, [], s')
                | Fail _ \<Rightarrow> (Closed, [], s')
                | Panic \<Rightarrow> (Crashed, [], s'))))"
  by pat_completeness auto
termination
  by (relation "measure (\<lambda>(_, _, _, _, _, r, _). length r)") (auto dest!: readMessage_consumes)

declare handleConn.simps [simp del]


subsection \<open>A connection\<close>

text \<open>The bytes of a request, and the commands of a connection run one after the other.\<close>

definition request_bytes :: "int \<times> msg_section list \<Rightarrow> bytes" where
  "request_bytes x = (let body = [0, 0, 0, 0] @ concat (map sec_bytes (snd x)) in
     putHeader \<lparr>hMessageLength = int (16 + length body), hRequestID = fst x, hResponseTo = 0, hOpCode = opMsg\<rparr> @ body)"

definition request_ok :: "(bytes \<Rightarrow> bmap option) \<Rightarrow> int \<times> msg_section list \<Rightarrow> bool" where
  "request_ok unb x \<longleftrightarrow> list_all (sec_ok unb) (snd x) \<and> 20 + length (concat (map sec_bytes (snd x))) < 2 ^ 31"

fun answers :: "(nat \<Rightarrow> bmap \<Rightarrow> 's \<Rightarrow> (bmap option \<times> 's) option) \<Rightarrow> nat \<Rightarrow> bmap list \<Rightarrow> 's \<Rightarrow> (bmap list \<times> 's) option" where
  "answers disp j [] s = Some ([], s)"
| "answers disp j (cmd # cmds) s = do {
     (reply, s') \<leftarrow> disp j cmd s;
     a \<leftarrow> reply;
     (as, s'') \<leftarrow> answers disp (j + 1) cmds s';
     Some (a # as, s'')
   }"

lemma readMessage_request:
  "request_ok unb x \<Longrightarrow> readMessage unb (request_bytes x @ rest) = Some (Done ((i32 (fst x), fold (sec_cmd unb) (snd x) [], opMsg), rest))"
  using op_msg_parsed [of unb "snd x" "[0, 0, 0, 0]"] by (simp add: request_ok_def request_bytes_def Let_def)

lemma handleConn_serves:
  assumes "list_all (request_ok unb) xs"
    and "answers disp j (map (\<lambda>x. fold (sec_cmd unb) (snd x) []) xs) s = Some (rs, s')"
    and "list_all (\<lambda>r. marb r \<noteq> None) rs" "\<And>j. wok j"
  shows "fst (handleConn unb marb disp wok j (concat (map request_bytes xs)) s) = Closed
    \<and> map Done (fst (snd (handleConn unb marb disp wok j (concat (map request_bytes xs)) s)))
      = map2 (\<lambda>x. writeOpMsg marb (i32 (fst x))) xs rs
    \<and> snd (snd (handleConn unb marb disp wok j (concat (map request_bytes xs)) s)) = s'"
  using assms(1-3)
proof (induction xs arbitrary: j s rs)
  case Nil
  have "readMessage unb [] = Some (Fail ShortRead)" by (simp add: readMessage_def readHeader_def ReadFull_def)
  then show ?case using Nil by (simp add: handleConn.simps [of _ _ _ _ _ "[]"])
next
  case (Cons x xs)
  let ?cmd = "fold (sec_cmd unb) (snd x) []" and ?rest = "concat (map request_bytes xs)"
  obtain a s1 as where d: "disp j ?cmd s = Some (Some a, s1)" "rs = a # as"
      "answers disp (j + 1) (map (\<lambda>x. fold (sec_cmd unb) (snd x) []) xs) s1 = Some (as, s')"
    using Cons.prems(2) by (auto split: bind_splits)
  obtain bs where w: "writeOpMsg marb (i32 (fst x)) a = Done bs"
    using Cons.prems(3) d(2) by (auto simp: writeOpMsg_def Let_def)
  have w': "writeReply marb opMsg (i32 (fst x)) a = Done bs" using w by (simp add: writeReply_def opMsg_def opQuery_def)
  have m: "readMessage unb (request_bytes x @ ?rest) = Some (Done ((i32 (fst x), ?cmd, opMsg), ?rest))"
    using readMessage_request Cons.prems(1) by simp
  have "handleConn unb marb disp wok j (request_bytes x @ ?rest) s
      = (let (e, out, s2) = handleConn unb marb disp wok (j + 1) ?rest s1 in (e, bs # out, s2))"
    by (subst handleConn.simps) (simp add: m d(1) w' assms(4))
  moreover have "list_all (request_ok unb) xs" "list_all (\<lambda>r. marb r \<noteq> None) as" using Cons.prems(1,3) d(2) by simp_all
  ultimately show ?case using Cons.IH [OF _ d(3)] w d(2) by (simp add: split_def Let_def)
qed

subsection \<open>Inserted documents\<close>

interpretation mongo: doc_writer ap "mEncT c" ps n "\<lambda>muts s s1. mw_propose ap c ps n e muts s = Some (Some None, s1)"
  for ap c ps n e
  by unfold_locales (auto simp: mw_propose_def ds_Propose_def split: bind_splits sum.splits if_splits, blast)

lemma puts_unconditional: "list_all (\<lambda>m. mExpected m = None) muts \<Longrightarrow> checkVersions ver muts = None"
  by (induction muts) auto

lemma m_commit_other: "k \<notin> mID ` set muts \<Longrightarrow> m_commit unm fmtv r muts s = (e, s') \<Longrightarrow> chain_of s' k = chain_of s k"
  by (induction muts arbitrary: s) (auto split: if_splits option.splits)

lemma m_commit_puts:
  assumes "list_all (\<lambda>m. mOp m = ''put'' \<and> unm (mData m) \<noteq> None) muts" "distinct (map mID muts)" "m \<in> set muts"
    and "m_commit unm fmtv r muts s = (e, s')"
  shows "doc_of (chain_of s' (mID m)) = unm (mData m)"
  using assms
proof (induction muts arbitrary: s)
  case (Cons x muts)
  obtain doc where d: "unm (mData x) = Some doc" using Cons.prems(1) by auto
  obtain s1 where s1: "m_commit unm fmtv r muts s1 = (e, s')" "doc_of (chain_of s1 (mID x)) = Some doc"
    using Cons.prems(1,4) d by auto
  show ?case
  proof (cases "m = x")
    case True
    have "mID x \<notin> mID ` set muts" using Cons.prems(2) by simp
    from m_commit_other [OF this s1(1)] s1(2) d True show ?thesis by simp
  next
    case False
    then show ?thesis using Cons.IH [OF _ _ _ s1(1)] Cons.prems(1-3) by simp
  qed
qed simp

lemma transaction_puts:
  assumes "mv_ok fmtv b s" "b \<le> r" "m \<in> set muts" "distinct (map mID muts)"
    and "list_all (\<lambda>m. mOp m = ''put'' \<and> unm (mData m) \<noteq> None) muts" "list_all (\<lambda>m. mExpected m = None) muts"
  shows "snap_Get (snd (ApplyTransaction unm fmtv muts r s)) r (mID m) = unm (mData m)"
proof -
  obtain e s' where t: "ApplyTransaction unm fmtv muts r s = (e, s')" by (cases "ApplyTransaction unm fmtv muts r s")
  obtain e' s2 where c: "m_commit unm fmtv r muts s = (e', s2)" by (cases "m_commit unm fmtv r muts s")
  have "chain_of s' (mID m) = chain_of s2 (mID m)"
    using t c puts_unconditional [OF assms(6)] by (auto simp: ApplyTransaction_def split: option.splits)
  then have "doc_of (chain_of s' (mID m)) = unm (mData m)" using m_commit_puts [OF assms(5,4,3) c] by simp
  then show ?thesis using snap_latest [OF ApplyTransaction_ok(1) [OF assms(1,2) t]] t by simp
qed

lemma insertLoop_puts:
  assumes "insertLoop mar fmtb ids j (map BM docs) = Inr muts" "list_all (\<lambda>doc. map_of doc ''_id'' \<noteq> None) docs"
  shows "map mID muts = map (docID fmtb []) docs"
    and "list_all (\<lambda>m. mOp m = ''put'' \<and> mExpected m = None) muts"
    and "list_all2 (\<lambda>m doc. mar (AList.update ''_id'' (BStr (mID m)) doc) = Inr (mData m)) muts docs"
  using assms by (induction docs arbitrary: j muts) (auto simp: docID_def Let_def split: sum.splits)


subsection \<open>Properties\<close>

text \<open>
  C21: A connection on which a client sends well-formed \<^verbatim>\<open>OP_MSG\<close> requests, of any sections:
  when the commands return, each is answered once and in order, in a reply addressed to
  the id of its request, and the server's state is that of the commands run in that
  order; then the connection is closed.
\<close>

theorem conn_serves_in_order:
  assumes "list_all (request_ok unb) xs"
    and "answers (\<lambda>j. dispatch ap c ps n (env j)) 0 (map (\<lambda>x. fold (sec_cmd unb) (snd x) []) xs) s = Some (rs, s')"
    and "list_all (\<lambda>r. marb r \<noteq> None) rs" "\<And>j. wok j"
    and "handleConn unb marb (\<lambda>j. dispatch ap c ps n (env j)) wok 0 (concat (map request_bytes xs)) s = (x, out, s'')"
  shows "x = Closed \<and> map Done out = map2 (\<lambda>x. writeOpMsg marb (i32 (fst x))) xs rs \<and> s'' = s'"
  using handleConn_serves [OF assms(1-3), of wok] assms(4,5) by simp

text \<open>A codec for one document and its transaction, and a cluster with a leader.\<close>

definition one_put :: mutation where
  "one_put = \<lparr>mOp = ''put'', mID = ''k'', mData = [2], mExpected = None\<rparr>"

definition one_doc :: bmap where
  "one_doc = [(''_id'', BStr ''k'')]"

definition one_codec :: "unit mcodec" where
  "one_codec = \<lparr>mEncT = (\<lambda>muts. if muts = [one_put] then Inr [1] else Inl ()), mErr = (\<lambda>_. ''no''),
     docToJSON = (\<lambda>m. if m = one_doc then Inr [2] else Inl ''no''), mExt = (\<lambda>d. Some d), mFmt = (\<lambda>v. asString (Some v))\<rparr>"

definition one_dec :: "bytes \<Rightarrow> mutation list option" where
  "one_dec blob = (if blob = [1] then Some [one_put] else None)"

definition bson_unm :: "bytes \<Rightarrow> bval document option" where
  "bson_unm d = (if d = [2] then Some (Some one_doc) else None)"

definition one_env :: menv where
  "one_env = \<lparr>eStore = NewMVCCStore ''f'', eReads = (\<lambda>_. NewMVCCStore ''f''), eReads' = (\<lambda>_. NewMVCCStore ''f''), newID = (\<lambda>_. ''x''),
     eNow = 0, ePolls = write_polls\<rparr>"

definition one_fmt :: "bval option \<Rightarrow> string" where
  "one_fmt v = asString v"

abbreviation bson_loop :: "command ApplyMsg \<Rightarrow> (disk, bval) rdocs \<Rightarrow> (disk, bval) rdocs" where
  "bson_loop \<equiv> ds_applyLoop one_dec bson_unm one_fmt"

definition fresh_bson :: "(disk, bval) rdocs" where
  "fresh_bson = (case NewReplicatedDocStore ''d'' ''f'' empty_world of Inr ds \<Rightarrow> ds | Inl _ \<Rightarrow> undefined)"

definition led_bson :: "(disk, bval) dsystem" where
  "led_bson = the (srun bson_loop demo_servers elect_0 (mkSystem demo_servers (\<lambda>_. (0, 0)) (\<lambda>_. fresh_bson)))"

definition insert_cmd :: bmap where
  "insert_cmd = [(''insert'', BStr ''c''), (''documents'', BSlice [BM one_doc])]"

definition inserted_bson :: "(disk, bval) dsystem" where
  "inserted_bson = snd (the (handleInsert bson_loop one_codec demo_servers 0 one_env insert_cmd led_bson))"

definition ping_unb :: "bytes \<Rightarrow> bmap option" where
  "ping_unb d = (if d = [5, 0, 0, 0, 7] then Some [(''ping'', BInt 1)] else None)"

definition ok_marb :: "bmap \<Rightarrow> bytes option" where
  "ok_marb m = Some [5, 0, 0, 0, 9]"

definition two_pings :: "(int \<times> msg_section list) list" where
  "two_pings = [(3, [Body [5, 0, 0, 0, 7]]), (4, [Body [5, 0, 0, 0, 7]])]"

theorem conn_serves_in_order_witness:
  "\<exists>out. handleConn ping_unb ok_marb (\<lambda>j. dispatch bson_loop one_codec demo_servers 0 one_env) (\<lambda>_. True) 0
      (concat (map request_bytes two_pings)) led_bson = (Closed, out, led_bson)
    \<and> map Done out = map2 (\<lambda>x. writeOpMsg ok_marb (i32 (fst x))) two_pings [[(''ok'', BDouble 1)], [(''ok'', BDouble 1)]]"
proof -
  let ?d = "\<lambda>j :: nat. dispatch bson_loop one_codec demo_servers 0 one_env"
  obtain x out s'' where h: "handleConn ping_unb ok_marb ?d (\<lambda>_. True) 0 (concat (map request_bytes two_pings)) led_bson = (x, out, s'')"
    by (metis prod_cases3)
  have l: "le_int32 [5, 0, 0, 0, 7] = 5" by code_simp
  have p: "the (ping_unb [5, 0, 0, 0, 7]) = [(''ping'', BInt 1)]" by (simp add: ping_unb_def)
  have "?d j [(''ping'', BInt 1)] s = Some (Some [(''ok'', BDouble 1)], s)" for j s by (simp add: dispatch_def has_def)
  then have a: "answers ?d 0 (map (\<lambda>x. fold (sec_cmd ping_unb) (snd x) []) two_pings) led_bson
      = Some ([[(''ok'', BDouble 1)], [(''ok'', BDouble 1)]], led_bson)"
    by (simp add: two_pings_def p mergeM_def)
  have ok: "list_all (request_ok ping_unb) two_pings"
    using l by (simp add: two_pings_def request_ok_def bson_doc_def ping_unb_def)
  have "x = Closed \<and> map Done out = map2 (\<lambda>x. writeOpMsg ok_marb (i32 (fst x))) two_pings [[(''ok'', BDouble 1)], [(''ok'', BDouble 1)]] \<and> s'' = led_bson"
    by (rule conn_serves_in_order [OF ok a _ _ h]) (simp_all add: ok_marb_def)
  then show ?thesis using h by auto
qed




text \<open>
  An update command with two updates of one document, each setting its own field. Both
  read the snapshot of the command, so that the second put has no trace of the first.
\<close>

definition set_update :: "string \<Rightarrow> string \<Rightarrow> bval \<Rightarrow> bval" where
  "set_update k fld v = BM [(''q'', BD [(''_id'', BStr k)]), (''u'', BD [(''$set'', BD [(fld, v)])])]"

definition set_codec :: "bmap \<Rightarrow> string + bytes" where
  "set_codec m = (if map_of m ''a'' \<noteq> None then Inr [1] else Inr [2])"

definition set_unm :: "bytes \<Rightarrow> bval document option" where
  "set_unm d = (if d = [0] then Some (Some one_doc) else if d = [1] then Some (Some (one_doc @ [(''a'', BInt 1)]))
     else Some (Some (one_doc @ [(''b'', BInt 2)])))"

definition set_store :: "bval mstore" where
  "set_store = snd (ApplyTransaction set_unm one_fmt [\<lparr>mOp = ''put'', mID = ''k'', mData = [0], mExpected = None\<rparr>] 1 (NewMVCCStore ''f''))"

text \<open>
  Two updates of one document in one update command, which set the fields a and b: both
  are counted as matched and modified, and the document has no field a after the command.
\<close>

theorem update_same_id_loses_first:
  "\<exists>muts. updateLoop set_codec (\<lambda>v. asString (Some v)) (\<lambda>_. set_store) 0 (Snapshot set_store)
      [set_update ''k'' ''a'' (BInt 1), set_update ''k'' ''b'' (BInt 2)] = Inr (muts, 2, 2)
    \<and> snap_Get (snd (ApplyTransaction set_unm one_fmt muts 2 set_store)) 2 ''k'' = Some (Some (one_doc @ [(''b'', BInt 2)]))"
proof -
  let ?m = "\<lambda>d. \<lparr>mOp = ''put'', mID = ''k'', mData = d, mExpected = None\<rparr>"
  have "updateLoop set_codec (\<lambda>v. asString (Some v)) (\<lambda>_. set_store) 0 (Snapshot set_store)
      [set_update ''k'' ''a'' (BInt 1), set_update ''k'' ''b'' (BInt 2)] = Inr ([?m [1], ?m [2]], 2, 2)" by code_simp
  moreover have "snap_Get (snd (ApplyTransaction set_unm one_fmt [?m [1], ?m [2]] 2 set_store)) 2 ''k'' = Some (Some (one_doc @ [(''b'', BInt 2)]))"
    by code_simp
  ultimately show ?thesis by blast
qed

text \<open>
  An insert whose documents are an array of the command's body, which decodes as
  \<^verbatim>\<open>bson.A\<close>, and not a document sequence, is answered with ok and stores nothing.
\<close>

lemma insert_array_ignored:
  assumes "map_of cmd ''documents'' = Some (BA ds)"
  shows "handleInsert ap c ps n e cmd s = Some (Some (okReply 0), s)"
  using assms by (simp add: handleInsert_def asSlice_def)

text \<open>The reply of a delete counts the filters, whether or not a document had the id.\<close>

lemma delete_counts_filters:
  assumes "handleDelete ap c ps n e cmd s = Some (Some (okReply cnt), s1)"
  shows "cnt = int (length (deleteLoop (mFmt c) (asSlice (map_of cmd ''deletes''))))"
  using assms by (auto simp: handleDelete_def Let_def okReply_def errReply_def proposed_def split: if_splits bind_splits option.splits)

end
