(* ===== verification/Spec2Isabelle.thy ===== *)
theory Spec2Isabelle
  imports Raft_Safety Storage_Safety Doc_Store Batch Replicated_Docs Tcp_Transport Raft_Harness Group Streaming Schema Observability
    Rest_Api Mongo_Commands
begin

text \<open>
  A verification library for LedgerDB, a replicated log and document store in Go. The
  sources are under \<^verbatim>\<open>src/\<close>; paths below are relative to it.

  \<^bold>\<open>The program.\<close> Servers of a Raft group (\<^verbatim>\<open>raft/\<close>) agree on a sequence of commands and hand it,
  each through its apply channel, to a state machine: the log of a partition
  (\<^verbatim>\<open>replication/\<close>, on the segmented files of \<^verbatim>\<open>storage/\<close>) or a document store (\<^verbatim>\<open>docstore/\<close>). Producers
  (\<^verbatim>\<open>producer/\<close>, with batches of \<^verbatim>\<open>batch/\<close>) write to a partition, behind access lists (\<^verbatim>\<open>security/\<close>) and
  schemas (\<^verbatim>\<open>schema/\<close>); consumers share partitions through a coordinator (\<^verbatim>\<open>group/\<close>) and count
  events in windows (\<^verbatim>\<open>streaming/\<close>). A REST layer (\<^verbatim>\<open>api/\<close>) and a server of the MongoDB protocol
  (\<^verbatim>\<open>mongowire/\<close>) sit on the document store; \<^verbatim>\<open>metrics/\<close> and \<^verbatim>\<open>dashboard/\<close> look on.

  \<^bold>\<open>Conventions.\<close> A struct is a record, a method a function on it, a critical section one
  step. \<^const>\<open>None\<close> stands for a panic; an error is the left summand of a sum. Go's \<^verbatim>\<open>int\<close> is \<^typ>\<open>int\<close>
  (no counter of the code comes near 64 bits); bytes and \<^verbatim>\<open>uint32\<close> fields keep their width, and
  conversions to them wrap. A Go map is an association list with distinct keys whose order
  is the order an iteration takes, or a partial function where it is not iterated. Clock
  readings, random numbers, results of dials and system calls, and everything that other
  goroutines do in between are arguments, so that a theorem for all of them is a theorem
  for every schedule and every failure. Third-party code (gzip, JSON, BSON, MinIO,
  Prometheus) is an argument too; where a property needs something of it, that is a named
  hypothesis with a witness.

  \<^bold>\<open>Raft.\<close>
  \<^item> \<open>Raft_Node\<close>: the server, \<^verbatim>\<open>raft/raft.go\<close>, \<^verbatim>\<open>rpc_vote.go\<close>, \<^verbatim>\<open>rpc_append.go\<close>; the record \<open>Raft\<close> and one
    function per critical section.
  \<^item> \<open>Raft_Cluster\<close>: \<^verbatim>\<open>network.go\<close>, \<^verbatim>\<open>transport.go\<close> and the goroutines; \<open>cstep\<close> makes one step of one
    goroutine, \<open>crun\<close> a schedule.
  \<^item> \<open>Raft_Protocol\<close>: an abstract protocol as the step relation \<open>pstep\<close> over ghost histories, with
    its invariant \<open>pinv\<close> and leader completeness, over the locale \<open>quorum_system\<close>.
  \<^item> \<open>Raft_Refinement\<close>, \<open>Raft_Safety\<close>: every step of the code is simulated by protocol steps and
    never panics; so one leader per term, log matching, committed entries stay, and all
    servers apply the same sequence.
  \<^item> \<open>Tcp_Transport\<close>: \<^verbatim>\<open>tcp_transport.go\<close> and a cluster over it. The locale \<open>raft_transport\<close> is what Raft needs
    of a transport, interpreted on the simulated network and on TCP.
  \<^item> \<open>Raft_Harness\<close>: \<^verbatim>\<open>config.go\<close>, whose safety checks never fail, and \<^verbatim>\<open>persister.go\<close>.

  \<^bold>\<open>Storage.\<close> \<open>Storage_Fs\<close> has files with an arbitrary plan of failing calls; \<open>Storage_Segment\<close>,
  \<open>Storage_Log\<close>, \<open>Storage_Partition\<close> and \<open>Storage_Cold\<close> follow \<^verbatim>\<open>storage/segment.go\<close>, \<^verbatim>\<open>log.go\<close> with \<^verbatim>\<open>tiering.go\<close>,
  \<^verbatim>\<open>partition.go\<close>, and \<^verbatim>\<open>coldstore.go\<close> with \<^verbatim>\<open>minio_coldstore.go\<close>. The locales \<open>cold_store\<close>, \<open>object_store\<close> and
  \<open>record_log\<close> are the contracts between them. \<open>Storage_Safety\<close> shows that a log refines the list of
  its records through appends, rolls, tiering, compaction, failures, torn writes and
  reopening, and where it does not.

  \<^bold>\<open>Replication.\<close> \<open>Replication\<close> has the generic system of a cluster with one apply loop per server
  (locales \<open>state_machine\<close> and \<open>applied_index\<close>); \<open>Replicated_Log\<close> is \<^verbatim>\<open>replication/partition.go\<close> and
  \<^verbatim>\<open>producer/producer.go\<close>; \<open>Replicated_Docs\<close> is \<^verbatim>\<open>docstore/replicated.go\<close> and \<^verbatim>\<open>replicated_locked.go\<close>. Replicas hold
  the same records and documents; what AckAll acknowledges stays. \<open>Batch\<close> is \<^verbatim>\<open>batch/batch.go\<close>
  (round trip, no message lost), \<open>Doc_Store\<close> the two stores of \<^verbatim>\<open>docstore/\<close> (snapshot isolation, no
  lost update, exact queries, equivalence of the stores).

  \<^bold>\<open>Around the stores.\<close> \<open>Acl\<close>, \<open>Schema\<close>, \<open>Group\<close>, \<open>Streaming\<close> and \<open>Observability\<close> follow \<^verbatim>\<open>security/acl.go\<close>, \<^verbatim>\<open>schema/\<close>,
  \<^verbatim>\<open>group/coordinator.go\<close>, \<^verbatim>\<open>streaming/window.go\<close>, and \<^verbatim>\<open>metrics/instrumented.go\<close> with \<^verbatim>\<open>dashboard/server.go\<close>. The
  front ends are \<open>Rest_Api\<close> (\<^verbatim>\<open>api/rest.go\<close>), \<open>Mongo_Wire\<close> (\<^verbatim>\<open>mongowire/protocol.go\<close>) and \<open>Mongo_Commands\<close>
  (\<^verbatim>\<open>commands.go\<close>, \<^verbatim>\<open>server.go\<close>); both write through the contract \<open>doc_writer\<close> of \<open>Replicated_Docs\<close>, so what they
  acknowledge is in the store. \<open>Prelude\<close> and \<open>Wire_Bytes\<close> have what the components share.

  \<^bold>\<open>Loops and bounds.\<close> There is no fuel. Loops that end are total functions. Those that may
  not are \<^theory_text>\<open>partial_function (option)\<close>, with \<^const>\<open>None\<close> for a run that never returns: the window job
  (\<open>Streaming\<close>, with the exact condition) and the sections of a wire message (\<open>Mongo_Wire\<close>, with
  a message on which they do not end). A polling loop takes the list of its polls, and its
  result is \<^const>\<open>None\<close> while it has not returned; what is shown of a call that waits holds when it
  returns. The storage theorems assume segments below 4 GiB (\<open>log_fits\<close>, \<open>mb < 2 ^ 32\<close>), where the
  32-bit positions of the index do not wrap; the wire theorems messages below 2 GiB.

  \<^bold>\<open>Not modelled.\<close> \<^verbatim>\<open>security/tls.go\<close> and the declarations of \<^verbatim>\<open>metrics/metrics.go\<close> only call
  libraries. HTTP serving and routing, listeners and accept loops, \<^verbatim>\<open>net/rpc\<close> and its encoding are
  the environment's choices. \<^verbatim>\<open>cmd/\<close> and \<^verbatim>\<open>benchmarks/\<close> time the components and print. Liveness of
  Raft under timing assumptions is not stated: only that a rejected probe moves back. A
  server never restarts with its identity in the runs of the safety theorems: the code
  saves no Raft state, and \<open>restart_two_leaders\<close> shows what happens then.
\<close>

text \<open>
  C6: Raft over TCP is safe. For servers with bound services, at any two moments of any
  schedule with any dial failures, lost or late messages, timeouts and blocked peers: two
  leaders of one term are the same server, and the commands that two servers have applied
  are prefixes of each other.
\<close>

theorem tcp_cluster_safe:
  assumes "distinct ps" "\<forall>p \<in> set ps. 0 \<le> p" "\<forall>p \<in> set ps. bound p"
    and "list_all (known_block ps) evs1" "trun ps evs1 (Make_tcp ps addr bound ds) = Some t"
    and "list_all (known_block ps) evs2" "trun ps evs2 t = Some t'"
  shows "(GetState (tNodes t n) = (term, True) \<longrightarrow> GetState (tNodes t' m) = (term, True) \<longrightarrow> n = m)
    \<and> (prefix (tApply t n) (tApply t' m) \<or> prefix (tApply t' m) (tApply t n))"
proof -
  have s0: "sim ps (abs_tcp ps (Make_tcp ps addr bound ds)) pinit" unfolding Make_tcp_abs by (rule sim_init)
  have i0: "distinct ps \<and> (\<forall>p \<in> set ps. 0 \<le> p) \<and> tcp_inv ps (Make_tcp ps addr bound ds)"
    using assms(1,2) Make_tcp_inv [OF assms(3)] by blast
  obtain es where es: "crun ps es (abs_tcp ps (Make_tcp ps addr bound ds)) = Some (abs_tcp ps t)" "tcp_inv ps t"
    using tcp_transport.run_simulated [OF i0 assms(4) s0] assms(5) unfolding trun_run_with by auto
  obtain a where a: "sim ps (abs_tcp ps t) a" using crun_sim [OF assms(1,2) s0, of es] es(1) by auto
  have i: "distinct ps \<and> (\<forall>p \<in> set ps. 0 \<le> p) \<and> tcp_inv ps t" using assms(1,2) es(2) by blast
  note safe = tcp_transport.run_safe [OF i assms(6) a assms(7) [unfolded trun_run_with]]
  show ?thesis using safe(1) [of n m] safe(2) [of n m] by (auto simp: GetState_def abs_tcp_def)
qed

theorem tcp_cluster_safe_witness:
  "\<exists>t. trun [0, 1, 2] tcp_election (Make_tcp [0, 1, 2] (\<lambda>_. '''') (\<lambda>_. True) (\<lambda>_. (0, 0))) = Some t
    \<and> GetState (tNodes t 0) = (1, True) \<and> GetState (tNodes t 1) \<noteq> (1, True)
    \<and> (prefix (tApply t 0) (tApply t 1) \<or> prefix (tApply t 1) (tApply t 0))"
proof -
  let ?r = "trun [0, 1, 2] tcp_election (Make_tcp [0, 1, 2] (\<lambda>_. '''') (\<lambda>_. True) (\<lambda>_. (0, 0)))"
  have "map_option (\<lambda>t. GetState (tNodes t 0)) ?r = Some (1, True)" by code_simp
  then obtain t where t: "?r = Some t" "GetState (tNodes t 0) = (1, True)" by auto
  have k: "list_all (known_block [0, 1, 2]) tcp_election" by (simp add: tcp_election_def)
  have "(GetState (tNodes t 0) = (1, True) \<longrightarrow> GetState (tNodes t 1) = (1, True) \<longrightarrow> (0 :: int) = 1)
      \<and> (prefix (tApply t 0) (tApply t 1) \<or> prefix (tApply t 1) (tApply t 0))"
    by (rule tcp_cluster_safe [OF _ _ _ k t(1), of "[]"]) simp_all
  then show ?thesis using t by auto
qed

end
